(* ===== verification/Prelude.thy ===== *)
theory Prelude
  imports Main "HOL-Library.Word"
begin

section \<open>Prelude: machine types, outcomes of C code, buffers, reachability\<close>

text \<open>
  What every component shares.
  \<^item> The C integer types as words of their width, byte buffers as lists of bytes.
  \<^item> \<open>outcome\<close>: a C function returns a value, ends the process (the \<open>CHK\<close> macros of
    \<open>src/lib/common.h\<close> call \<open>exit\<close>), has undefined behaviour (a read or a write
    outside an object, a null dereference), or never returns. A theorem that a call is \<open>Ret v\<close> therefore
    also says that the call stays inside its buffers and passes its assertions.
  \<^item> \<open>mem_read\<close> and \<open>mem_write\<close>: \<open>memcpy\<close> from and into an object of known size.
  \<^item> The locale \<open>byte_codec\<close>: fixed-width encodings of a value into bytes.
  \<^item> The locale \<open>transition_system\<close>: invariants of the reachable states.
\<close>

unbundle bit_operations_syntax

subsection \<open>Machine types\<close>

type_synonym u8 = "8 word"
type_synonym u32 = "32 word"
type_synonym u64 = "64 word"
type_synonym bytes = "u8 list"

named_theorems outcome_simps \<open>evaluation of composed outcomes\<close>
named_theorems buffer_simps \<open>reads and writes of byte buffers\<close>

subsection \<open>Outcomes\<close>

datatype 'a outcome =
    Ret 'a      \<comment> \<open>the call returns\<close>
  | Exit        \<comment> \<open>\<open>exit(EXIT_FAILURE)\<close>\<close>
  | Undef       \<comment> \<open>undefined behaviour\<close>
  | Loop        \<comment> \<open>the call never returns\<close>

primrec obind :: "'a outcome \<Rightarrow> ('a \<Rightarrow> 'b outcome) \<Rightarrow> 'b outcome" where
  "obind (Ret a) k = k a"
| "obind Exit k = Exit"
| "obind Undef k = Undef"
| "obind Loop k = Loop"

declare obind.simps [outcome_simps]

text \<open>\<open>CHK(x)\<close> and \<open>CHK_MSG\<close>: the rest of the code runs only when the condition holds.\<close>

definition CHK :: "bool \<Rightarrow> 'a outcome \<Rightarrow> 'a outcome" where
  "CHK b k = (if b then k else Exit)"

text \<open>A loop whose recursion is not known to end is option-valued; \<open>None\<close> is that it does not.\<close>

definition returns :: "'a outcome option \<Rightarrow> 'a outcome" where
  "returns r = (case r of None \<Rightarrow> Loop | Some x \<Rightarrow> x)"

lemma returns_simps [simp]: "returns None = Loop" "returns (Some x) = x"
  by (simp_all add: returns_def)

lemma CHK_simps [simp]: "CHK True k = k" "CHK False k = Exit"
  by (simp_all add: CHK_def)

lemma obind_Ret_iff: "obind m k = Ret b \<longleftrightarrow> (\<exists>a. m = Ret a \<and> k a = Ret b)"
  by (cases m) auto

lemma obind_assoc: "obind (obind m f) g = obind m (\<lambda>x. obind (f x) g)"
  by (cases m) auto

lemma obind_cong [fundef_cong]:
  "m = m' \<Longrightarrow> (\<And>a. m' = Ret a \<Longrightarrow> k a = k' a) \<Longrightarrow> obind m k = obind m' k'"
  by (cases m') auto

lemma CHK_Ret_iff: "CHK b k = Ret x \<longleftrightarrow> b \<and> k = Ret x"
  by (simp add: CHK_def)

lemma obind_RetE:
  assumes "obind m k = Ret b" obtains a where "m = Ret a" "k a = Ret b"
  using assms by (cases m) auto

lemma CHK_RetE:
  assumes "CHK c m = Ret b" obtains "c" "m = Ret b"
  using assms by (simp add: CHK_Ret_iff)

subsection \<open>Buffers\<close>

text \<open>
  \<open>mem_read n src\<close> are the \<open>n\<close> bytes at a pointer; \<open>src\<close> holds the bytes from the pointer
  to the end of the object. \<open>mem_write off bs buf\<close> stores \<open>bs\<close> at offset \<open>off\<close>.
\<close>

definition mem_read :: "nat \<Rightarrow> bytes \<Rightarrow> bytes outcome" where
  "mem_read n src = (if n \<le> length src then Ret (take n src) else Undef)"

definition mem_write :: "nat \<Rightarrow> bytes \<Rightarrow> bytes \<Rightarrow> bytes outcome" where
  "mem_write off bs buf =
     (if off + length bs \<le> length buf
      then Ret (take off buf @ bs @ drop (off + length bs) buf) else Undef)"

lemma mem_read_Ret_iff [buffer_simps]:
  "mem_read n src = Ret r \<longleftrightarrow> n \<le> length src \<and> r = take n src"
  by (auto simp: mem_read_def)

lemma mem_write_Ret_iff [buffer_simps]:
  "mem_write off bs buf = Ret r \<longleftrightarrow>
     off + length bs \<le> length buf \<and> r = take off buf @ bs @ drop (off + length bs) buf"
  by (auto simp: mem_write_def)

lemma mem_write_length: "mem_write off bs buf = Ret r \<Longrightarrow> length r = length buf"
  by (auto simp: mem_write_Ret_iff)

lemma mem_write_ok: "off + length bs \<le> length buf \<Longrightarrow>
    mem_write off bs buf = Ret (take off buf @ bs @ drop (off + length bs) buf)"
  by (simp add: mem_write_def)

text \<open>A header and a payload written next to each other fill a prefix of the buffer.\<close>

lemma mem_write_header_payload:
  assumes "mem_write (length h) p buf = Ret b1" and "mem_write 0 h b1 = Ret b2"
  shows "take (length h + length p) b2 = h @ p"
  using assms by (auto simp: mem_write_Ret_iff)

subsection \<open>What the threads exchange and return\<close>

text \<open>
  \<open>struct sized_buf\<close> of \<open>src/lib/common.h\<close>; \<open>None\<close> is a null \<open>data\<close> pointer, the poison pill.
  A thread that has not finished waits; its retval is the \<open>int\<close> the code keeps.
\<close>

record sized_buf =
  sb_size :: u64
  sb_data :: "bytes option"

definition SBUF_NULL :: sized_buf where
  "SBUF_NULL = \<lparr>sb_size = 0, sb_data = None\<rparr>"

datatype retval = Waiting | Retval int

subsection \<open>Bytes of a word, most significant first\<close>

primrec be_bytes :: "nat \<Rightarrow> 'a::len word \<Rightarrow> bytes" where
  "be_bytes 0 w = []"
| "be_bytes (Suc n) w = be_bytes n (drop_bit 8 w) @ [ucast w]"

definition be_val :: "bytes \<Rightarrow> 'a::len word" where
  "be_val bs = foldl (\<lambda>acc b. push_bit 8 acc OR ucast b) 0 bs"

lemma be_val_Nil [simp]: "be_val [] = 0"
  by (simp add: be_val_def)

lemma be_val_snoc [simp]: "be_val (bs @ [b]) = push_bit 8 (be_val bs) OR ucast b"
  by (simp add: be_val_def)

lemma length_be_bytes [simp]: "length (be_bytes n w) = n"
  by (induction n arbitrary: w) auto

lemma be_val_be_bytes: "be_val (be_bytes n w) = take_bit (8 * n) w"
proof (induction n arbitrary: w)
  case 0
  then show ?case by simp
next
  case (Suc n)
  have "push_bit 8 (take_bit (8 * n) (drop_bit 8 w)) OR ucast (ucast w :: u8)
      = take_bit (8 * Suc n) w"
    by (rule bit_word_eqI) (auto simp: bit_simps)
  then show ?case by (simp add: Suc)
qed

lemma be_val_bit_bound: "bit (be_val bs :: 'a::len word) i \<Longrightarrow> i < 8 * length bs"
proof (induction bs arbitrary: i rule: rev_induct)
  case Nil
  then show ?case by simp
next
  case (snoc b bs)
  have "i < 8 \<or> (8 \<le> i \<and> bit (be_val bs :: 'a word) (i - 8))"
    using snoc.prems by (auto simp: bit_simps dest: bit_imp_le_length)
  then show ?case
    using snoc.IH [of "i - 8"] by auto
qed

lemma be_bytes_be_val:
  "8 * length bs \<le> LENGTH('a::len) \<Longrightarrow> be_bytes (length bs) (be_val bs :: 'a word) = bs"
proof (induction bs rule: rev_induct)
  case Nil
  then show ?case by simp
next
  case (snoc b bs)
  have big: "\<not> bit b (8 + n)" for n
    using bit_imp_le_length [of b "8 + n"] by auto
  have shift: "drop_bit 8 (push_bit 8 (be_val bs) OR ucast b :: 'a word) = be_val bs"
  proof (rule bit_word_eqI)
    fix n
    assume "n < LENGTH('a)"
    show "bit (drop_bit 8 (push_bit 8 (be_val bs) OR ucast b :: 'a word)) n
        = bit (be_val bs :: 'a word) n"
      using snoc.prems be_val_bit_bound [where 'a = 'a, of bs n]
      by (auto simp: bit_simps big)
  qed
  have low: "ucast (push_bit 8 (be_val bs) OR ucast b :: 'a word) = b"
    using snoc.prems
    by (intro bit_word_eqI) (auto simp: bit_simps dest: bit_imp_le_length)
  have unfold: "be_bytes (length (bs @ [b])) v = be_bytes (length bs) (drop_bit 8 v) @ [ucast v]"
    for v :: "'a word"
    by simp
  show ?case
    unfolding unfold be_val_snoc shift low using snoc by simp
qed

subsection \<open>Fixed-width encodings\<close>

text \<open>
  The contract of a field of a packet header: \<open>enc\<close> is what the code stores (\<open>htobe64\<close>,
  \<open>htobe32\<close>), \<open>dec\<close> what it loads, in \<open>width\<close> bytes, and the two are inverse.
\<close>

locale byte_codec =
  fixes enc :: "'a \<Rightarrow> bytes"
    and dec :: "bytes \<Rightarrow> 'a"
    and width :: nat
  assumes length_enc: "length (enc x) = width"
    and dec_enc: "dec (enc x) = x"
    and enc_dec: "length bs = width \<Longrightarrow> enc (dec bs) = bs"
begin

lemma enc_inject: "enc x = enc y \<longleftrightarrow> x = y"
  by (metis dec_enc)

lemma dec_inject: "length bs = width \<Longrightarrow> length cs = width \<Longrightarrow> dec bs = dec cs \<longleftrightarrow> bs = cs"
  by (metis enc_dec)

lemma dec_prefix: "dec (take width (enc x @ rest)) = x"
  by (simp add: length_enc dec_enc)

lemma drop_prefix: "drop width (enc x @ rest) = rest"
  by (simp add: length_enc)

lemma enc_dec_prefix: "width \<le> length bs \<Longrightarrow> enc (dec (take width bs)) = take width bs"
  by (simp add: enc_dec)

end

subsection \<open>Invariants of reachable states\<close>

text \<open>
  A step relation with initial states and a predicate that the steps keep. What follows for
  the reachable states is proved here once.
\<close>

locale transition_system =
  fixes init :: "'s \<Rightarrow> bool"
    and step :: "'s \<Rightarrow> 's \<Rightarrow> bool"
    and inv :: "'s \<Rightarrow> bool"
  assumes inv_init: "init s \<Longrightarrow> inv s"
    and inv_step: "inv s \<Longrightarrow> step s t \<Longrightarrow> inv t"
begin

lemma inv_steps: "step\<^sup>*\<^sup>* s t \<Longrightarrow> inv s \<Longrightarrow> inv t"
  by (induction rule: rtranclp_induct) (auto intro: inv_step)

lemma inv_reachable: "init s \<Longrightarrow> step\<^sup>*\<^sup>* s t \<Longrightarrow> inv t"
  by (blast intro: inv_steps inv_init)

lemma safe_reachable:
  assumes "\<And>t. inv t \<Longrightarrow> P t" and "init s" and "step\<^sup>*\<^sup>* s t"
  shows "P t"
  using assms inv_reachable by blast

lemma monotone_reachable:
  assumes "\<And>t u. inv t \<Longrightarrow> step t u \<Longrightarrow> R t u"
    and "\<And>t. R t t" and "\<And>t u v. R t u \<Longrightarrow> R u v \<Longrightarrow> R t v"
    and "inv s" and "step\<^sup>*\<^sup>* s t"
  shows "R s t"
  using assms(5)
proof (induction rule: rtranclp_induct)
  case base
  show ?case by (rule assms(2))
next
  case (step t u)
  then have "inv t" using inv_steps assms(4) by blast
  then show ?case using step assms(1,3) by blast
qed

end

text \<open>A system whose runs have bounded length can be run until it stops.\<close>

lemma bounded_runs_stop:
  assumes "\<And>k t. (R ^^ k) s t \<Longrightarrow> k \<le> (N :: nat)"
  shows "\<exists>t. R\<^sup>*\<^sup>* s t \<and> (\<nexists>u. R t u)"
proof (rule ccontr)
  assume no: "\<not> (\<exists>t. R\<^sup>*\<^sup>* s t \<and> (\<nexists>u. R t u))"
  have "\<exists>t. (R ^^ k) s t" for k
  proof (induction k)
    case (Suc k)
    then obtain t where "(R ^^ k) s t" by blast
    moreover from this obtain u where "R t u" using no relpowp_imp_rtranclp by metis
    ultimately show ?case by auto
  qed simp
  then show False using assms by (metis Suc_n_not_le_n)
qed

end
