(* ===== verification/Errors.thy ===== *)
theory Errors
  imports Prelude
begin

section \<open>Result codes: \<open>src/lib/hairgap.h\<close>, \<open>src/lib/error.c\<close>, \<open>HGAP_SELECT_ERROR\<close>\<close>

text \<open>
  The enumeration of result codes is a datatype with the constructors in the order of the
  source; \<open>err_num\<close> is the C value of each. Functions of the library that return a plain
  code are modelled with the datatype, functions that return an \<open>int\<close> or \<open>ssize_t\<close> in which
  a negated code and a size share the range are modelled with \<open>int\<close>.
\<close>

datatype hgap_err =
    HGAP_SUCCESS
  | HGAP_EOT
  | HGAP_ERR_NO_CONFIG
  | HGAP_ERR_MTU_TOO_SMALL
  | HGAP_ERR_MTU_TOO_BIG
  | HGAP_ERR_INVALID_ADDR
  | HGAP_ERR_BAD_FD
  | HGAP_ERR_BAD_IN_FD
  | HGAP_ERR_BAD_OUT_FD
  | HGAP_ERR_FILE_READ
  | HGAP_ERR_BAD_N_PKT
  | HGAP_ERR_BAD_REDUND
  | HGAP_ERR_WIREHAIR_ERROR
  | HGAP_ERR_BUFFER_TOO_SMALL
  | HGAP_ERR_INCOMPLETE_CHUNK
  | HGAP_ERR_BAD_CHUNK
  | HGAP_ERR_BAD_PKT
  | HGAP_ERR_TIMEOUT
  | HGAP_ERR_NETWORK
  | HGAP_ERR_IPC
  | HGAP_ERR_INTERNAL

primrec err_num :: "hgap_err \<Rightarrow> int" where
  "err_num HGAP_SUCCESS = 0"
| "err_num HGAP_EOT = 1"
| "err_num HGAP_ERR_NO_CONFIG = 2"
| "err_num HGAP_ERR_MTU_TOO_SMALL = 3"
| "err_num HGAP_ERR_MTU_TOO_BIG = 4"
| "err_num HGAP_ERR_INVALID_ADDR = 5"
| "err_num HGAP_ERR_BAD_FD = 6"
| "err_num HGAP_ERR_BAD_IN_FD = 7"
| "err_num HGAP_ERR_BAD_OUT_FD = 8"
| "err_num HGAP_ERR_FILE_READ = 9"
| "err_num HGAP_ERR_BAD_N_PKT = 10"
| "err_num HGAP_ERR_BAD_REDUND = 11"
| "err_num HGAP_ERR_WIREHAIR_ERROR = 12"
| "err_num HGAP_ERR_BUFFER_TOO_SMALL = 13"
| "err_num HGAP_ERR_INCOMPLETE_CHUNK = 14"
| "err_num HGAP_ERR_BAD_CHUNK = 15"
| "err_num HGAP_ERR_BAD_PKT = 16"
| "err_num HGAP_ERR_TIMEOUT = 17"
| "err_num HGAP_ERR_NETWORK = 18"
| "err_num HGAP_ERR_IPC = 19"
| "err_num HGAP_ERR_INTERNAL = 20"

lemma err_num_inject [simp]: "err_num a = err_num b \<longleftrightarrow> a = b"
  by (cases a; cases b; simp)

lemma err_num_range: "0 \<le> err_num e" "err_num e \<le> 20"
  by (cases e; simp)+

lemma err_num_SUCCESS_iff [simp]: "err_num e = 0 \<longleftrightarrow> e = HGAP_SUCCESS"
  by (cases e) auto

text \<open>The C comparison of two codes is the order of the enumeration.\<close>

instantiation hgap_err :: linorder
begin

definition less_eq_hgap_err :: "hgap_err \<Rightarrow> hgap_err \<Rightarrow> bool" where
  "less_eq_hgap_err a b \<longleftrightarrow> err_num a \<le> err_num b"

definition less_hgap_err :: "hgap_err \<Rightarrow> hgap_err \<Rightarrow> bool" where
  "less_hgap_err a b \<longleftrightarrow> err_num a < err_num b"

instance
  by standard (auto simp: less_eq_hgap_err_def less_hgap_err_def)

end

lemma HGAP_SUCCESS_least [simp]: "HGAP_SUCCESS \<le> e"
  using err_num_range(1) [of e] by (simp add: less_eq_hgap_err_def)

subsection \<open>Selecting the error to report\<close>

text \<open>
  \<open>HGAP_SELECT_ERROR\<close> combines the results of two threads; \<open>MIN\<close> is the comparison
  \<open>a < b ? a : b\<close> of the header.
\<close>

definition HGAP_SELECT_ERROR :: "hgap_err \<Rightarrow> hgap_err \<Rightarrow> hgap_err" where
  "HGAP_SELECT_ERROR e1 e2 =
     (if e1 = HGAP_SUCCESS then e2
      else if e2 = HGAP_SUCCESS then e1
      else if e1 < e2 then e1 else e2)"

lemma select_min: "e1 \<noteq> HGAP_SUCCESS \<Longrightarrow> e2 \<noteq> HGAP_SUCCESS \<Longrightarrow>
    HGAP_SELECT_ERROR e1 e2 = min e1 e2"
  by (auto simp: HGAP_SELECT_ERROR_def min_def)

lemma select_SUCCESS [simp]:
  "HGAP_SELECT_ERROR HGAP_SUCCESS e = e" "HGAP_SELECT_ERROR e HGAP_SUCCESS = e"
  by (simp_all add: HGAP_SELECT_ERROR_def)

lemma select_eq_SUCCESS_iff [simp]:
  "HGAP_SELECT_ERROR e1 e2 = HGAP_SUCCESS \<longleftrightarrow> e1 = HGAP_SUCCESS \<and> e2 = HGAP_SUCCESS"
  by (auto simp: HGAP_SELECT_ERROR_def)

lemma select_commute: "HGAP_SELECT_ERROR e1 e2 = HGAP_SELECT_ERROR e2 e1"
  by (auto simp: HGAP_SELECT_ERROR_def)

lemma select_assoc:
  "HGAP_SELECT_ERROR (HGAP_SELECT_ERROR e1 e2) e3 = HGAP_SELECT_ERROR e1 (HGAP_SELECT_ERROR e2 e3)"
proof (cases "e1 = HGAP_SUCCESS \<or> e2 = HGAP_SUCCESS \<or> e3 = HGAP_SUCCESS")
  case True
  then show ?thesis by auto
next
  case False
  then have "HGAP_SELECT_ERROR e1 e2 \<noteq> HGAP_SUCCESS" "HGAP_SELECT_ERROR e2 e3 \<noteq> HGAP_SUCCESS"
    by auto
  with False show ?thesis by (simp add: select_min min.assoc)
qed

text \<open>
  Joining the threads of a transfer folds the selection over their results, as
  \<open>hgap_send\<close> and \<open>hgap_receive\<close> do after each \<open>pthread_join\<close>.
\<close>

definition join_results :: "hgap_err \<Rightarrow> hgap_err list \<Rightarrow> hgap_err" where
  "join_results retval ts =
     fold (\<lambda>t r. if t \<noteq> HGAP_SUCCESS then HGAP_SELECT_ERROR t r else r) ts retval"

lemma join_results_Nil [simp]: "join_results r [] = r"
  by (simp add: join_results_def)

lemma join_results_Cons [simp]: "join_results r (t # ts) = join_results (HGAP_SELECT_ERROR t r) ts"
  by (simp add: join_results_def)

lemma join_results_spec:
  "join_results r ts =
     (if \<forall>e \<in> set (r # ts). e = HGAP_SUCCESS then HGAP_SUCCESS
      else Min (set (r # ts) - {HGAP_SUCCESS}))"
proof (induction ts arbitrary: r)
  case Nil
  then show ?case by auto
next
  case (Cons t ts)
  have errs: "set (HGAP_SELECT_ERROR t r # ts) - {HGAP_SUCCESS} = set (r # t # ts) - {HGAP_SUCCESS}"
    if "t = HGAP_SUCCESS \<or> r = HGAP_SUCCESS"
    using that by auto
  show ?case
  proof (cases "t = HGAP_SUCCESS \<or> r = HGAP_SUCCESS")
    case True
    then show ?thesis using Cons.IH [of "HGAP_SELECT_ERROR t r"] errs by auto
  next
    case False
    define E where "E = set ts - {HGAP_SUCCESS}"
    have fin: "finite E" by (simp add: E_def)
    from False have l: "set (r # t # ts) - {HGAP_SUCCESS} = insert r (insert t E)"
      and s: "set (HGAP_SELECT_ERROR t r # ts) - {HGAP_SUCCESS} = insert (min t r) E"
      by (auto simp: E_def select_min min_def)
    have "Min (insert (min t r) E) = Min (insert r (insert t E))"
      using fin by (cases "E = {}") (simp_all add: ac_simps)
    moreover have "join_results r (t # ts) = Min (set (HGAP_SELECT_ERROR t r # ts) - {HGAP_SUCCESS})"
      using False Cons.IH [of "HGAP_SELECT_ERROR t r"] by simp
    ultimately have "join_results r (t # ts) = Min (set (r # t # ts) - {HGAP_SUCCESS})"
      unfolding l s by simp
    with False show ?thesis by auto
  qed
qed

subsection \<open>Messages\<close>

text \<open>
  \<open>STR(HGAP_HEADER_LEN)\<close> is the text of the macro's replacement, \<open>sizeof(struct hgap_header)\<close>;
  the other two are numerals.
\<close>

definition hgap_err_str :: "int \<Rightarrow> string" where
  "hgap_err_str err =
    (if err = err_num HGAP_SUCCESS then ''Success''
     else if err = err_num HGAP_EOT then ''End of transfer''
     else if err = err_num HGAP_ERR_NO_CONFIG then ''No configuration passed (logic error)''
     else if err = err_num HGAP_ERR_MTU_TOO_SMALL then
       ''MTU too small (should be more than sizeof(struct hgap_header))''
     else if err = err_num HGAP_ERR_MTU_TOO_BIG then ''MTU too big (> 1500)''
     else if err = err_num HGAP_ERR_INVALID_ADDR then ''Invalid address or host''
     else if err = err_num HGAP_ERR_BAD_FD then ''Bad file descriptor''
     else if err = err_num HGAP_ERR_BAD_IN_FD then ''Bad input file descriptor''
     else if err = err_num HGAP_ERR_BAD_OUT_FD then ''Bad output file descriptor''
     else if err = err_num HGAP_ERR_FILE_READ then ''Error while reading input file''
     else if err = err_num HGAP_ERR_BAD_N_PKT then
       ''Bad number of packets per chunk (should be < 64000)''
     else if err = err_num HGAP_ERR_BAD_REDUND then ''Bad redundancy, should be >= 1.0''
     else if err = err_num HGAP_ERR_WIREHAIR_ERROR then
       ''Error correction engine (wirehair) error''
     else if err = err_num HGAP_ERR_BUFFER_TOO_SMALL then ''Buffer too small''
     else if err = err_num HGAP_ERR_INCOMPLETE_CHUNK then
       ''Chunk could not be reassembled (probably too many lost packets)''
     else if err = err_num HGAP_ERR_BAD_CHUNK then ''Invalid chunk (probably too big)''
     else if err = err_num HGAP_ERR_BAD_PKT then ''Invalid packet (probably too small)''
     else if err = err_num HGAP_ERR_NETWORK then ''Unspecified network error''
     else if err = err_num HGAP_ERR_TIMEOUT then ''Receive socket probably timed out''
     else if err = err_num HGAP_ERR_IPC then ''Internal (IPC) error''
     else ''Unknown error'')"

lemma hgap_err_str_other: "(\<And>e. err \<noteq> err_num e) \<Longrightarrow> hgap_err_str err = ''Unknown error''"
  unfolding hgap_err_str_def by (simp only: if_False)

text \<open>Facts about all messages are evaluated over the list of all codes.\<close>

definition all_errs :: "hgap_err list" where
  "all_errs =
    [HGAP_SUCCESS, HGAP_EOT, HGAP_ERR_NO_CONFIG, HGAP_ERR_MTU_TOO_SMALL, HGAP_ERR_MTU_TOO_BIG,
     HGAP_ERR_INVALID_ADDR, HGAP_ERR_BAD_FD, HGAP_ERR_BAD_IN_FD, HGAP_ERR_BAD_OUT_FD,
     HGAP_ERR_FILE_READ, HGAP_ERR_BAD_N_PKT, HGAP_ERR_BAD_REDUND, HGAP_ERR_WIREHAIR_ERROR,
     HGAP_ERR_BUFFER_TOO_SMALL, HGAP_ERR_INCOMPLETE_CHUNK, HGAP_ERR_BAD_CHUNK,
     HGAP_ERR_BAD_PKT, HGAP_ERR_TIMEOUT, HGAP_ERR_NETWORK, HGAP_ERR_IPC, HGAP_ERR_INTERNAL]"

lemma set_all_errs: "e \<in> set all_errs"
  by (cases e) (simp_all add: all_errs_def)

lemma messages_distinct: "distinct (map (\<lambda>e. hgap_err_str (err_num e)) all_errs)"
  by code_simp

lemma messages_no_percent:
  "list_all (\<lambda>e. \<not> list_ex (\<lambda>c. c = CHR 0x25) (hgap_err_str (err_num e))) all_errs"
  by code_simp

lemma hgap_err_str_inject: "hgap_err_str (err_num a) = hgap_err_str (err_num b) \<longleftrightarrow> a = b"
  using messages_distinct set_all_errs by (auto simp: distinct_map inj_on_def)

lemma hgap_err_str_no_percent: "CHR 0x25 \<notin> set (hgap_err_str err)"
proof (cases "\<exists>e. err = err_num e")
  case True
  then obtain e where "err = err_num e" by blast
  then show ?thesis
    using messages_no_percent set_all_errs [of e] by (auto simp: list_all_iff list_ex_iff)
next
  case False
  then have "hgap_err_str err = ''Unknown error''" by (intro hgap_err_str_other) auto
  then show ?thesis by simp
qed

subsection \<open>Properties\<close>

text \<open>Joining any number of threads, in any order, reports success exactly when the caller and
  every thread succeeded, and otherwise the smallest error code that occurred.\<close>

theorem joined_result_is_least_error:
  "join_results r ts =
     (if list_all (\<lambda>e. e = HGAP_SUCCESS) (r # ts) then HGAP_SUCCESS
      else Min (set (r # ts) - {HGAP_SUCCESS}))"
  by (simp only: join_results_spec list_all_iff)

text \<open>The message of every error code is distinct from the others', and no message, for any
  integer, holds a percent sign; the macro \<open>HGAP_PERROR\<close> passes it to \<open>fprintf\<close> as the format.\<close>

theorem error_messages_distinct_and_format_safe:
  "(hgap_err_str (err_num a) = hgap_err_str (err_num b) \<longleftrightarrow> a = b) \<and>
   CHR 0x25 \<notin> set (hgap_err_str err)"
  by (simp add: hgap_err_str_inject hgap_err_str_no_percent)

end
