(* ===== verification/Proto.thy ===== *)
theory Proto
  imports Errors
begin

section \<open>The packet format: \<open>src/lib/proto.h\<close>, \<open>src/lib/proto.c\<close>\<close>

text \<open>
  A packet is a 24-byte header of four big-endian fields and a payload. A raw packet is
  modelled by the bytes from its first byte to the end of the object that holds it
  (\<open>raw\<close>) together with its received length (\<open>sz\<close>, the C parameter \<open>size\<close> or \<open>len\<close>), because the code keeps a pointer
  into that object: bytes beyond that length exist, and reading beyond \<open>raw\<close> is \<open>Undef\<close>.
\<close>

subsection \<open>Constants\<close>

definition HGAP_NO_MORE_CHUNK :: u64 where "HGAP_NO_MORE_CHUNK = 0xffffffffffffffff"
definition HGAP_BEGIN_BEACON :: u64 where "HGAP_BEGIN_BEACON = 0xfffffffffffffffe"
definition HGAP_KEEP_ALIVE :: u64 where "HGAP_KEEP_ALIVE = 0xfffffffffffffffd"
definition HGAP_FIRST_RESERVED :: u64 where "HGAP_FIRST_RESERVED = 0xfffffffffffffff0"

text \<open>\<open>sizeof (struct hgap_header)\<close>: two 8-byte and two 4-byte fields, no padding.\<close>

definition HGAP_HEADER_LEN :: u64 where "HGAP_HEADER_LEN = 24"
definition HGAP_MIN_BUF :: u64 where "HGAP_MIN_BUF = HGAP_HEADER_LEN + 0"
definition HGAP_SALVE_LEN :: nat where "HGAP_SALVE_LEN = 32"
definition HGAP_MAX_PKT_SIZE :: u64 where "HGAP_MAX_PKT_SIZE = 1500"
definition HGAP_MAX_N_PKT :: u64 where "HGAP_MAX_N_PKT = 64000"
definition HGAP_MAX_CHUNK_SIZE :: u64 where
  "HGAP_MAX_CHUNK_SIZE = HGAP_MAX_PKT_SIZE * HGAP_MAX_N_PKT"

lemmas proto_consts =
  HGAP_NO_MORE_CHUNK_def HGAP_BEGIN_BEACON_def HGAP_KEEP_ALIVE_def HGAP_FIRST_RESERVED_def
  HGAP_HEADER_LEN_def HGAP_MIN_BUF_def HGAP_MAX_PKT_SIZE_def HGAP_MAX_N_PKT_def

lemma unat_HEADER_LEN [simp]: "unat HGAP_HEADER_LEN = 24"
  by (simp add: HGAP_HEADER_LEN_def)

lemma unat_MAX_CHUNK_SIZE [simp]: "unat HGAP_MAX_CHUNK_SIZE = 96000000"
  by (simp add: HGAP_MAX_CHUNK_SIZE_def proto_consts)

subsection \<open>Data\<close>

datatype hgap_pkt_t =
    HGAP_PKT_UNKNOWN
  | HGAP_PKT_BEGIN
  | HGAP_PKT_END
  | HGAP_PKT_KEEPALIVE
  | HGAP_PKT_DATA

record hgap_header =
  chunk_num :: u64
  chunk_size :: u64
  data_id :: u32
  data_size :: u32

text \<open>The pointer \<open>data\<close> of \<open>struct hgap_pkt\<close> is the bytes of the object from there on.\<close>

record hgap_pkt =
  hdr :: hgap_header
  pkt_data :: bytes

subsection \<open>Loads and stores of the fields\<close>

definition htobe64 :: "u64 \<Rightarrow> bytes" where "htobe64 = be_bytes 8"
definition be64toh :: "bytes \<Rightarrow> u64" where "be64toh = be_val"
definition htobe32 :: "u32 \<Rightarrow> bytes" where "htobe32 = be_bytes 4"
definition be32toh :: "bytes \<Rightarrow> u32" where "be32toh = be_val"

interpretation be64: byte_codec htobe64 be64toh 8
proof
  show "length (htobe64 x) = 8" for x by (simp add: htobe64_def)
  show "be64toh (htobe64 x) = x" for x
    by (simp add: htobe64_def be64toh_def be_val_be_bytes take_bit_word_eq_self)
  show "htobe64 (be64toh bs) = bs" if "length bs = 8" for bs
    using be_bytes_be_val [where 'a = 64, of bs] that by (simp add: htobe64_def be64toh_def)
qed

interpretation be32: byte_codec htobe32 be32toh 4
proof
  show "length (htobe32 x) = 4" for x by (simp add: htobe32_def)
  show "be32toh (htobe32 x) = x" for x
    by (simp add: htobe32_def be32toh_def be_val_be_bytes take_bit_word_eq_self)
  show "htobe32 (be32toh bs) = bs" if "length bs = 4" for bs
    using be_bytes_be_val [where 'a = 32, of bs] that by (simp add: htobe32_def be32toh_def)
qed

definition read_header :: "bytes \<Rightarrow> hgap_header" where
  "read_header net_hdr =
     \<lparr>chunk_num = be64toh (take 8 net_hdr),
      chunk_size = be64toh (take 8 (drop 8 net_hdr)),
      data_id = be32toh (take 4 (drop 16 net_hdr)),
      data_size = be32toh (take 4 (drop 20 net_hdr))\<rparr>"

definition header_bytes :: "hgap_header \<Rightarrow> bytes" where
  "header_bytes h =
     htobe64 (chunk_num h) @ htobe64 (chunk_size h) @ htobe32 (data_id h) @ htobe32 (data_size h)"

text \<open>The header as a whole is a fixed-width encoding again.\<close>

interpretation hdr: byte_codec header_bytes read_header 24
proof
  show "length (header_bytes h) = 24" for h
    by (simp add: header_bytes_def be64.length_enc be32.length_enc)
  show "read_header (header_bytes h) = h" for h
    by (simp add: read_header_def header_bytes_def be64.length_enc be32.length_enc
        be64.dec_enc be32.dec_enc)
  show "header_bytes (read_header bs) = bs" if "length bs = 24" for bs
  proof -
    have "header_bytes (read_header bs) =
        take 8 bs @ take 8 (drop 8 bs) @ take 4 (drop 16 bs) @ take 4 (drop 20 bs)"
      using that by (simp add: read_header_def header_bytes_def be64.enc_dec be32.enc_dec)
    also have "take 4 (drop 20 bs) = drop 20 bs"
      using that by simp
    also have "take 4 (drop 16 bs) @ drop 20 bs = drop 16 bs"
      using append_take_drop_id [of 4 "drop 16 bs"] by simp
    also have "take 8 (drop 8 bs) @ drop 16 bs = drop 8 bs"
      using append_take_drop_id [of 8 "drop 8 bs"] by simp
    finally show ?thesis by simp
  qed
qed

declare be64.length_enc [simp] be32.length_enc [simp] hdr.length_enc [simp] hdr.dec_enc [simp]

subsection \<open>Parsing and classification\<close>

text \<open>
  \<open>hgap_pkt_parse\<close>: the parsed packet is \<open>None\<close> where the code returns before it has
  written \<open>*pkt\<close>. The sum is taken in \<open>size_t\<close>, to which \<open>data_size\<close> is promoted.
\<close>

definition hgap_pkt_parse :: "bytes \<Rightarrow> u64 \<Rightarrow> (hgap_err \<times> hgap_pkt option) outcome" where
  "hgap_pkt_parse raw_pkt sz =
     (if sz < HGAP_HEADER_LEN then Ret (HGAP_ERR_BAD_PKT, None)
      else obind (mem_read (unat HGAP_HEADER_LEN) raw_pkt) (\<lambda>net_hdr.
        let pkt = \<lparr>hdr = read_header net_hdr, pkt_data = drop (unat HGAP_HEADER_LEN) raw_pkt\<rparr>
        in if sz < ucast (data_size (hdr pkt)) + HGAP_HEADER_LEN
           then Ret (HGAP_ERR_BAD_PKT, Some pkt)
           else Ret (HGAP_SUCCESS, Some pkt)))"

definition hgap_pkt_type :: "bytes \<Rightarrow> u64 \<Rightarrow> hgap_pkt_t outcome" where
  "hgap_pkt_type raw_pkt sz =
     (if sz < HGAP_HEADER_LEN then Ret HGAP_PKT_UNKNOWN
      else obind (mem_read (unat HGAP_HEADER_LEN) raw_pkt) (\<lambda>net_hdr.
        let type = chunk_num (read_header net_hdr)
        in Ret (if type = HGAP_BEGIN_BEACON then HGAP_PKT_BEGIN
                else if type = HGAP_NO_MORE_CHUNK then HGAP_PKT_END
                else if type = HGAP_KEEP_ALIVE then HGAP_PKT_KEEPALIVE
                else if HGAP_FIRST_RESERVED \<le> type then HGAP_PKT_UNKNOWN
                else HGAP_PKT_DATA)))"

definition hgap_write_header :: "hgap_header \<Rightarrow> bytes \<Rightarrow> bytes outcome" where
  "hgap_write_header h buf = mem_write 0 (header_bytes h) buf"

subsection \<open>Control headers\<close>

text \<open>\<open>memset(hdr, 0, sizeof *hdr)\<close>, then the reserved chunk number.\<close>

definition zero_header :: hgap_header where
  "zero_header = \<lparr>chunk_num = 0, chunk_size = 0, data_id = 0, data_size = 0\<rparr>"

definition hgap_header_begin :: hgap_header where
  "hgap_header_begin = zero_header\<lparr>chunk_num := HGAP_BEGIN_BEACON\<rparr>"

definition hgap_header_end :: hgap_header where
  "hgap_header_end = zero_header\<lparr>chunk_num := HGAP_NO_MORE_CHUNK\<rparr>"

definition hgap_header_keepalive :: hgap_header where
  "hgap_header_keepalive = zero_header\<lparr>chunk_num := HGAP_KEEP_ALIVE\<rparr>"

subsection \<open>Lemmas\<close>

lemma payload_bound_no_wrap: "unat (ucast (d :: u32) + HGAP_HEADER_LEN) = unat d + 24"
proof -
  have "unat d < 2 ^ LENGTH(32)" by (rule unsigned_less)
  then show ?thesis
    by (simp add: unat_word_ariths HGAP_HEADER_LEN_def unsigned_ucast_eq take_bit_nat_eq_self)
qed

lemma less_HEADER_LEN_iff: "(sz < HGAP_HEADER_LEN) = (unat sz < 24)"
  by (simp add: word_less_nat_alt)

text \<open>Both readers of a raw packet, with the received bytes inside the object.\<close>

lemma hgap_pkt_parse_eq:
  assumes "unat sz \<le> length raw"
  shows "hgap_pkt_parse raw sz =
    (if unat sz < 24 then Ret (HGAP_ERR_BAD_PKT, None)
     else let h = read_header (take 24 raw)
          in Ret (if unat sz < unat (data_size h) + 24 then HGAP_ERR_BAD_PKT else HGAP_SUCCESS,
                  Some \<lparr>hdr = h, pkt_data = drop 24 raw\<rparr>))"
proof (cases "unat sz < 24")
  case True
  then show ?thesis by (simp add: hgap_pkt_parse_def less_HEADER_LEN_iff)
next
  case False
  then have "mem_read (unat HGAP_HEADER_LEN) raw = Ret (take 24 raw)"
    using assms by (simp add: mem_read_def)
  with False show ?thesis
    by (simp add: hgap_pkt_parse_def less_HEADER_LEN_iff Let_def word_less_nat_alt
        payload_bound_no_wrap)
qed

definition type_of_num :: "u64 \<Rightarrow> hgap_pkt_t" where
  "type_of_num n =
     (if n = HGAP_BEGIN_BEACON then HGAP_PKT_BEGIN
      else if n = HGAP_NO_MORE_CHUNK then HGAP_PKT_END
      else if n = HGAP_KEEP_ALIVE then HGAP_PKT_KEEPALIVE
      else if HGAP_FIRST_RESERVED \<le> n then HGAP_PKT_UNKNOWN
      else HGAP_PKT_DATA)"

lemma hgap_pkt_type_eq:
  assumes "unat sz \<le> length raw"
  shows "hgap_pkt_type raw sz =
    Ret (if unat sz < 24 then HGAP_PKT_UNKNOWN
         else type_of_num (chunk_num (read_header (take 24 raw))))"
proof (cases "unat sz < 24")
  case True
  then show ?thesis by (simp add: hgap_pkt_type_def less_HEADER_LEN_iff)
next
  case False
  then have "mem_read (unat HGAP_HEADER_LEN) raw = Ret (take 24 raw)"
    using assms by (simp add: mem_read_def)
  with False show ?thesis
    by (simp add: hgap_pkt_type_def less_HEADER_LEN_iff Let_def type_of_num_def)
qed

lemma type_of_num_DATA_iff: "type_of_num n = HGAP_PKT_DATA \<longleftrightarrow> n < HGAP_FIRST_RESERVED"
  by (auto simp: type_of_num_def proto_consts not_le)

lemma type_of_num_BEGIN_iff: "type_of_num n = HGAP_PKT_BEGIN \<longleftrightarrow> n = HGAP_BEGIN_BEACON"
  by (auto simp: type_of_num_def)

lemma type_of_num_END_iff: "type_of_num n = HGAP_PKT_END \<longleftrightarrow> n = HGAP_NO_MORE_CHUNK"
  by (auto simp: type_of_num_def proto_consts)

lemma type_of_num_KEEPALIVE_iff: "type_of_num n = HGAP_PKT_KEEPALIVE \<longleftrightarrow> n = HGAP_KEEP_ALIVE"
  by (auto simp: type_of_num_def proto_consts)

lemma control_types [simp]:
  "type_of_num (chunk_num hgap_header_begin) = HGAP_PKT_BEGIN"
  "type_of_num (chunk_num hgap_header_end) = HGAP_PKT_END"
  "type_of_num (chunk_num hgap_header_keepalive) = HGAP_PKT_KEEPALIVE"
  by (simp_all add: type_of_num_def hgap_header_begin_def hgap_header_end_def
      hgap_header_keepalive_def proto_consts)

lemma control_data_size [simp]:
  "data_size hgap_header_begin = 0" "data_size hgap_header_end = 0"
  "data_size hgap_header_keepalive = 0"
  by (simp_all add: hgap_header_begin_def hgap_header_end_def hgap_header_keepalive_def
      zero_header_def)

lemma hgap_write_header_Ret_iff:
  "hgap_write_header h buf = Ret b \<longleftrightarrow>
     24 \<le> length buf \<and> b = header_bytes h @ drop 24 buf"
  by (auto simp: hgap_write_header_def mem_write_Ret_iff)

lemma take_header [simp]: "take 24 (header_bytes h @ r) = header_bytes h"
  by simp

lemma drop_header [simp]: "drop 24 (header_bytes h @ r) = r"
  by simp

text \<open>A written packet is read back.\<close>

lemma parse_written:
  assumes "unat sz \<le> length (header_bytes h @ r)" and "unat (data_size h) + 24 \<le> unat sz"
  shows "hgap_pkt_parse (header_bytes h @ r) sz =
    Ret (HGAP_SUCCESS, Some \<lparr>hdr = h, pkt_data = r\<rparr>)"
  using assms by (simp add: hgap_pkt_parse_eq)

lemma type_written:
  assumes "unat sz \<le> length (header_bytes h @ r)" and "24 \<le> unat sz"
  shows "hgap_pkt_type (header_bytes h @ r) sz = Ret (type_of_num (chunk_num h))"
  using assms by (simp add: hgap_pkt_type_eq)

subsection \<open>Properties\<close>

text \<open>C8: a header written into a buffer is read back: with a received length that covers the
  payload the parser accepts the packet, returns the very header, and points behind it.\<close>

theorem packet_roundtrip:
  assumes "hgap_write_header h buf = Ret raw" and "unat sz \<le> length raw"
    and "unat (data_size h) + 24 \<le> unat sz"
  shows "hgap_pkt_parse raw sz = Ret (HGAP_SUCCESS, Some \<lparr>hdr = h, pkt_data = drop 24 buf\<rparr>)"
  using assms by (auto simp: hgap_write_header_Ret_iff parse_written)

theorem packet_roundtrip_witness:
  "hgap_pkt_parse (header_bytes \<lparr>chunk_num = 5, chunk_size = 3, data_id = 7, data_size = 3\<rparr> @ [1, 2, 3]) 27 =
     Ret (HGAP_SUCCESS, Some \<lparr>hdr = \<lparr>chunk_num = 5, chunk_size = 3, data_id = 7, data_size = 3\<rparr>,
       pkt_data = [1, 2, 3]\<rparr>)"
  using packet_roundtrip [of "\<lparr>chunk_num = 5, chunk_size = 3, data_id = 7, data_size = 3\<rparr>"
      "replicate 24 0 @ [1, 2, 3]" _ 27]
  by (simp add: hgap_write_header_Ret_iff)

text \<open>The parser accepts exactly the byte strings that are an encoded header followed by at
  least as many bytes as the header announces, and it never reads outside the packet.\<close>

theorem parse_accepts_exactly:
  assumes "unat sz \<le> length raw"
  shows "hgap_pkt_parse raw sz \<noteq> Undef \<and>
    ((\<exists>p. hgap_pkt_parse raw sz = Ret (HGAP_SUCCESS, p)) \<longleftrightarrow>
     (\<exists>h payload. take (unat sz) raw = header_bytes h @ payload \<and>
        unat (data_size h) \<le> length payload))"
proof -
  have "(\<exists>h payload. take (unat sz) raw = header_bytes h @ payload \<and>
        unat (data_size h) \<le> length payload) \<longleftrightarrow>
      24 \<le> unat sz \<and> unat (data_size (read_header (take 24 raw))) + 24 \<le> unat sz"
  proof (intro iffI; elim exE conjE)
    fix h payload
    assume eq: "take (unat sz) raw = header_bytes h @ payload" and le: "unat (data_size h) \<le> length payload"
    have "length (take (unat sz) raw) = unat sz" using assms by simp
    then have len: "unat sz = 24 + length payload" unfolding eq by simp
    have "take 24 raw = take 24 (take (unat sz) raw)" using len by (simp add: min_def)
    then have "take 24 raw = header_bytes h" unfolding eq by simp
    then show "24 \<le> unat sz \<and> unat (data_size (read_header (take 24 raw))) + 24 \<le> unat sz"
      using len le by simp
  next
    assume len: "24 \<le> unat sz"
      and le: "unat (data_size (read_header (take 24 raw))) + 24 \<le> unat sz"
    have "take (unat sz) raw = take 24 raw @ drop 24 (take (unat sz) raw)"
      using len append_take_drop_id [of 24 "take (unat sz) raw"] by (simp add: min_def)
    moreover have "header_bytes (read_header (take 24 raw)) = take 24 raw"
      using len assms by (intro hdr.enc_dec) simp
    ultimately show "\<exists>h payload. take (unat sz) raw = header_bytes h @ payload \<and>
        unat (data_size h) \<le> length payload"
      using le len assms
      by (intro exI [of _ "read_header (take 24 raw)"] exI [of _ "drop 24 (take (unat sz) raw)"]) simp
  qed
  then show ?thesis
    using assms by (auto simp: hgap_pkt_parse_eq Let_def)
qed

theorem parse_accepts_exactly_witness:
  "hgap_pkt_parse [1, 2, 3] 3 \<noteq> Undef \<and>
   \<not> (\<exists>p. hgap_pkt_parse [1, 2, 3] 3 = Ret (HGAP_SUCCESS, p))"
proof -
  have "\<not> (\<exists>p. hgap_pkt_parse [1, 2, 3] 3 = Ret (HGAP_SUCCESS, p))"
    by (simp add: hgap_pkt_parse_eq)
  then show ?thesis using parse_accepts_exactly [of 3 "[1, 2, 3]"] by simp
qed

text \<open>The type of a packet is decided by its length and its chunk number alone: data below the
  reserved numbers, the three control numbers, unknown for the rest and for short packets.\<close>

theorem pkt_type_by_number:
  assumes "unat sz \<le> length raw"
  shows "\<exists>t. hgap_pkt_type raw sz = Ret t \<and>
    (t = HGAP_PKT_DATA \<longleftrightarrow> 24 \<le> unat sz \<and> be64toh (take 8 raw) < HGAP_FIRST_RESERVED) \<and>
    (t = HGAP_PKT_BEGIN \<longleftrightarrow> 24 \<le> unat sz \<and> be64toh (take 8 raw) = HGAP_BEGIN_BEACON) \<and>
    (t = HGAP_PKT_END \<longleftrightarrow> 24 \<le> unat sz \<and> be64toh (take 8 raw) = HGAP_NO_MORE_CHUNK) \<and>
    (t = HGAP_PKT_KEEPALIVE \<longleftrightarrow> 24 \<le> unat sz \<and> be64toh (take 8 raw) = HGAP_KEEP_ALIVE)"
proof -
  have "chunk_num (read_header (take 24 raw)) = be64toh (take 8 raw)"
    by (simp add: read_header_def min_def)
  then show ?thesis
    using assms
    by (simp add: hgap_pkt_type_eq type_of_num_DATA_iff type_of_num_BEGIN_iff
        type_of_num_END_iff type_of_num_KEEPALIVE_iff)
qed

theorem pkt_type_by_number_witness:
  "\<exists>t. hgap_pkt_type (header_bytes hgap_header_end) 24 = Ret t \<and> t = HGAP_PKT_END"
proof -
  have "be64toh (take 8 (header_bytes hgap_header_end)) = HGAP_NO_MORE_CHUNK"
    by (simp add: header_bytes_def hgap_header_end_def be64.dec_enc)
  then show ?thesis using pkt_type_by_number [of 24 "header_bytes hgap_header_end"] by auto
qed

end
