(* ===== verification/Wirehair.thy ===== *)
theory Wirehair
  imports Prelude
begin

section \<open>The interface to the error correction library wirehair\<close>

text \<open>
  The sources of wirehair are a git submodule and not part of this repository, so the five
  functions the code calls are parameters of the model: a record of functions over an
  unknown type of states. A null \<open>wirehair_state\<close> is \<open>None\<close>. \<open>wh_encode\<close> and \<open>wh_decode\<close> take
  the state to reuse and give \<open>None\<close> on failure; \<open>wh_write\<close> gives the block of an id, or
  \<open>None\<close> when it fails; \<open>wh_read\<close> says whether the message can now be reassembled;
  \<open>wh_reconstruct\<close> gives the message, or \<open>None\<close> when it fails.
\<close>

record 's wirehair =
  wh_encode :: "'s option \<Rightarrow> bytes \<Rightarrow> u64 \<Rightarrow> 's option"
  wh_write :: "'s option \<Rightarrow> u32 \<Rightarrow> bytes option"
  wh_decode :: "'s option \<Rightarrow> u64 \<Rightarrow> u64 \<Rightarrow> 's option"
  wh_read :: "'s \<Rightarrow> u32 \<Rightarrow> bytes \<Rightarrow> bool \<times> 's"
  wh_reconstruct :: "'s option \<Rightarrow> bytes option"

text \<open>Feeding blocks to a decoder until it reports that it is ready.\<close>

fun wh_feed :: "'s wirehair \<Rightarrow> 's \<Rightarrow> (u32 \<times> bytes) list \<Rightarrow> bool \<times> 's" where
  "wh_feed W D [] = (False, D)"
| "wh_feed W D ((i, b) # bs) =
     (case wh_read W D i b of
        (True, D') \<Rightarrow> (True, D')
      | (False, D') \<Rightarrow> wh_feed W D' bs)"

text \<open>
  What the code relies on, as named hypotheses of the theorems that need it: blocks have the
  size asked for; a decoder that was fed only blocks of one encoder and reports that it is
  ready gives the encoder's message back. Nothing is assumed about how many blocks it takes.
\<close>

definition wh_block_size :: "'s wirehair \<Rightarrow> bool" where
  "wh_block_size W \<longleftrightarrow>
     (\<forall>re m bs E i b. 0 < unat bs \<longrightarrow> wh_encode W re m bs = Some E \<longrightarrow>
        wh_write W (Some E) i = Some b \<longrightarrow> length b = unat bs)"

definition wh_sound :: "'s wirehair \<Rightarrow> bool" where
  "wh_sound W \<longleftrightarrow>
     (\<forall>re re' m n bs E D blocks D'.
        0 < unat bs \<longrightarrow> unat n = length m \<longrightarrow>
        wh_encode W re m bs = Some E \<longrightarrow> wh_decode W re' n bs = Some D \<longrightarrow>
        list_all (\<lambda>(i, b). wh_write W (Some E) i = Some b) blocks \<longrightarrow>
        wh_feed W D blocks = (True, D') \<longrightarrow>
        wh_reconstruct W (Some D') = Some m)"

lemma wh_block_sizeD:
  "wh_block_size W \<Longrightarrow> 0 < unat bs \<Longrightarrow> wh_encode W re m bs = Some E \<Longrightarrow>
    wh_write W (Some E) i = Some b \<Longrightarrow> length b = unat bs"
  unfolding wh_block_size_def by blast

lemma wh_soundD:
  "wh_sound W \<Longrightarrow> 0 < unat bs \<Longrightarrow> unat n = length m \<Longrightarrow>
    wh_encode W re m bs = Some E \<Longrightarrow> wh_decode W re' n bs = Some D \<Longrightarrow>
    list_all (\<lambda>(i, b). wh_write W (Some E) i = Some b) blocks \<Longrightarrow>
    wh_feed W D blocks = (True, D') \<Longrightarrow> wh_reconstruct W (Some D') = Some m"
  unfolding wh_sound_def by blast

lemma wh_feed_append:
  "wh_feed W D (xs @ ys) =
     (case wh_feed W D xs of (True, D') \<Rightarrow> (True, D') | (False, D') \<Rightarrow> wh_feed W D' ys)"
  by (induction W D xs rule: wh_feed.induct) (auto split: prod.splits bool.splits)

subsection \<open>A concrete codec\<close>

text \<open>
  An instance for the examples: the message is cut into blocks, block \<open>i\<close> is sent under every id that
  is \<open>i\<close> modulo their number, the decoder keeps the blocks it has seen. It shows that the
  hypotheses can hold; nothing else rests on it.
\<close>

datatype cyc = CycEnc bytes nat | CycDec nat nat "bytes option list"

definition n_blocks :: "nat \<Rightarrow> nat \<Rightarrow> nat" where
  "n_blocks n bs = (n + bs - 1) div bs"

definition cyc_block :: "bytes \<Rightarrow> nat \<Rightarrow> nat \<Rightarrow> bytes" where
  "cyc_block m bs i =
     (let b = take bs (drop (i * bs) m) in b @ replicate (bs - length b) 0)"

fun cyc_write :: "cyc option \<Rightarrow> u32 \<Rightarrow> bytes option" where
  "cyc_write (Some (CycEnc m bs)) i = Some (cyc_block m bs (unat i mod n_blocks (length m) bs))"
| "cyc_write _ i = None"

fun cyc_read :: "cyc \<Rightarrow> u32 \<Rightarrow> bytes \<Rightarrow> bool \<times> cyc" where
  "cyc_read (CycDec n bs slots) i b =
     (let slots' = slots[unat i mod length slots := Some b]
      in (list_all (\<lambda>s. s \<noteq> None) slots', CycDec n bs slots'))"
| "cyc_read s i b = (False, s)"

fun cyc_reconstruct :: "cyc option \<Rightarrow> bytes option" where
  "cyc_reconstruct (Some (CycDec n bs slots)) =
     Some (take n (concat (map (\<lambda>s. case s of Some b \<Rightarrow> b | None \<Rightarrow> []) slots)))"
| "cyc_reconstruct _ = None"

definition cyclic :: "cyc wirehair" where
  "cyclic =
     \<lparr>wh_encode = (\<lambda>_ m bs. Some (CycEnc m (unat bs))),
      wh_write = cyc_write,
      wh_decode = (\<lambda>_ n bs. Some (CycDec (unat n) (unat bs)
        (replicate (n_blocks (unat n) (unat bs)) None))),
      wh_read = cyc_read,
      wh_reconstruct = cyc_reconstruct\<rparr>"

lemma length_cyc_block [simp]: "length (cyc_block m bs i) = bs"
  by (simp add: cyc_block_def Let_def)

lemma cyclic_block_size: "wh_block_size cyclic"
  by (auto simp: wh_block_size_def cyclic_def)

lemma concat_blocks:
  "take (length m) (concat (map (cyc_block m bs) [0..<k])) = take (k * bs) m"
proof (induction k)
  case 0
  then show ?case by simp
next
  case (Suc k)
  have len: "length (concat (map (cyc_block m bs) [0..<k])) = k * bs"
    by (induction k) auto
  show ?case
  proof (cases "k * bs \<le> length m")
    case True
    have pre: "concat (map (cyc_block m bs) [0..<k]) = take (k * bs) m"
      using Suc len True by simp
    have "take (length m - k * bs) (cyc_block m bs k) = take bs (drop (k * bs) m)"
      by (simp add: cyc_block_def Let_def min_def)
    moreover have "Suc k * bs = k * bs + bs" by simp
    ultimately show ?thesis
      using True len take_add [of "k * bs" bs m] by (simp add: pre del: mult_Suc)
  next
    case False
    then show ?thesis using Suc len by simp
  qed
qed

lemma n_blocks_enough: "n \<le> n_blocks n bs * bs" if "0 < bs"
proof -
  have "n + bs - 1 = n_blocks n bs * bs + (n + bs - 1) mod bs"
    unfolding n_blocks_def by (rule div_mult_mod_eq [symmetric])
  moreover have "(n + bs - 1) mod bs < bs" using that by simp
  ultimately show ?thesis by linarith
qed

definition cyc_slots_ok :: "bytes \<Rightarrow> nat \<Rightarrow> bytes option list \<Rightarrow> bool" where
  "cyc_slots_ok m bs slots \<longleftrightarrow>
     length slots = n_blocks (length m) bs \<and>
     (\<forall>j < length slots. slots ! j \<in> {None, Some (cyc_block m bs j)})"

lemma cyc_feed:
  assumes "cyc_slots_ok m bs slots" and "0 < n_blocks (length m) bs"
    and "list_all (\<lambda>(i, b). cyc_write (Some (CycEnc m bs)) i = Some b) blocks"
    and "wh_feed cyclic (CycDec (length m) bs slots) blocks = (True, D')"
  shows "D' = CycDec (length m) bs (map (\<lambda>j. Some (cyc_block m bs j)) [0..<n_blocks (length m) bs])"
  using assms(1,3,4)
proof (induction blocks arbitrary: slots)
  case Nil
  then show ?case by simp
next
  case (Cons x blocks)
  obtain i b where x: "x = (i, b)" by (cases x) auto
  let ?n = "n_blocks (length m) bs"
  define slots' where "slots' = slots[unat i mod length slots := Some b]"
  have len: "length slots = ?n" using Cons.prems(1) by (simp add: cyc_slots_ok_def)
  have b: "b = cyc_block m bs (unat i mod ?n)" using Cons.prems(2) x by simp
  have ok: "cyc_slots_ok m bs slots'"
    using Cons.prems(1) assms(2) b len
    by (auto simp: cyc_slots_ok_def slots'_def nth_list_update)
  show ?case
  proof (cases "list_all (\<lambda>s. s \<noteq> None) slots'")
    case True
    have "slots' = map (\<lambda>j. Some (cyc_block m bs j)) [0..<?n]"
      using ok True by (intro nth_equalityI) (fastforce simp: cyc_slots_ok_def list_all_length)+
    moreover have "D' = CycDec (length m) bs slots'"
      using Cons.prems(3) True by (simp add: x cyclic_def slots'_def)
    ultimately show ?thesis by simp
  next
    case False
    then have "wh_feed cyclic (CycDec (length m) bs slots') blocks = (True, D')"
      using Cons.prems(3) by (simp add: x cyclic_def slots'_def)
    then show ?thesis using Cons.IH [OF ok] Cons.prems(2) by simp
  qed
qed

lemma cyclic_sound: "wh_sound cyclic"
proof -
  have "wh_reconstruct cyclic (Some D') = Some m"
    if bs: "0 < unat (bs :: u64)" and n: "unat (n :: u64) = length m"
      and E: "wh_encode cyclic re m bs = Some E" and D: "wh_decode cyclic re' n bs = Some D"
      and blocks: "list_all (\<lambda>(i, b). wh_write cyclic (Some E) i = Some b) blocks"
      and feed: "wh_feed cyclic D blocks = (True, D')"
    for re re' m n bs E D blocks D'
  proof (cases "n_blocks (length m) (unat bs) = 0")
    case True
    have "wh_feed cyclic (CycDec k l []) blocks = (True, D'') \<Longrightarrow> D'' = CycDec k l []" for k l D''
      by (induction blocks) (auto simp: cyclic_def)
    then have "D' = CycDec (length m) (unat bs) []"
      using feed D n True by (auto simp: cyclic_def)
    moreover have "m = []"
      using n_blocks_enough [OF bs, of "length m"] True by simp
    ultimately show ?thesis by (simp add: cyclic_def)
  next
    case False
    have "D' = CycDec (length m) (unat bs)
        (map (\<lambda>j. Some (cyc_block m (unat bs) j)) [0..<n_blocks (length m) (unat bs)])"
      using blocks feed E D n False
      by (intro cyc_feed [of m "unat bs" "replicate (n_blocks (length m) (unat bs)) None" blocks])
        (auto simp: cyclic_def cyc_slots_ok_def)
    then show ?thesis
      using concat_blocks [of m "unat bs" "n_blocks (length m) (unat bs)"]
        n_blocks_enough [OF bs, of "length m"]
      by (simp add: cyclic_def comp_def)
  qed
  then show ?thesis unfolding wh_sound_def by blast
qed

end
