(* ===== verification/Double.thy ===== *)
theory Double
  imports Complex_Main "HOL-Library.Log_Nat"
begin

section \<open>IEEE double precision values\<close>

text \<open>
  The redundancy of a chunk, the byte rate of the limiter and the fields \<open>redund\<close> and
  \<open>byterate\<close> of the configuration are C \<open>double\<close>s. They are modelled as rationals with the
  rounding of binary64 written out (53 significant bits, to nearest, ties to even), the two
  infinities and NaN; NaN matters, because the redundancy of an empty chunk is \<open>0.0 / 0.0\<close>.
  Not modelled: the bounds of the exponent (no operand of the program that is not already
  infinite comes near them) and the sign of zero (no result depends on it).
\<close>

subsection \<open>Rounding\<close>

text \<open>To the nearest integer, ties to even.\<close>

definition rne :: "rat \<Rightarrow> int" where
  "rne y =
     (let f = \<lfloor>y\<rfloor>; r = y - of_int f
      in if r < 1 / 2 then f else if 1 / 2 < r then f + 1 else if even f then f else f + 1)"

text \<open>The exponent of the leading bit of a positive rational.\<close>

definition ilog2 :: "rat \<Rightarrow> int" where
  "ilog2 x =
     (let (n, d) = quotient_of x; k = bitlen n - bitlen d
      in if 2 powi k \<le> x then k else k - 1)"

definition fround :: "rat \<Rightarrow> rat" where
  "fround x =
     (if x = 0 then 0
      else let u = 2 powi (ilog2 \<bar>x\<bar> - 52) in of_int (rne (x / u)) * u)"

lemma rne_bounds: "\<lfloor>y\<rfloor> \<le> rne y" "rne y \<le> \<lfloor>y\<rfloor> + 1"
  by (simp_all add: rne_def Let_def)

lemma rne_of_int [simp]: "rne (of_int n) = n"
  by (simp add: rne_def)

lemma rne_mono: "x \<le> y \<Longrightarrow> rne x \<le> rne y"
proof -
  assume le: "x \<le> y"
  show ?thesis
  proof (cases "\<lfloor>x\<rfloor> = \<lfloor>y\<rfloor>")
    case True
    then show ?thesis using le by (auto simp: rne_def Let_def)
  next
    case False
    then have "\<lfloor>x\<rfloor> + 1 \<le> \<lfloor>y\<rfloor>" using floor_mono [OF le] by linarith
    then show ?thesis using rne_bounds(2) [of x] rne_bounds(1) [of y] by linarith
  qed
qed

lemma ilog2_bounds:
  assumes "0 < x"
  shows "2 powi (ilog2 x) \<le> x" "x < 2 powi (ilog2 x + 1)"
proof -
  obtain n d where q: "quotient_of x = (n, d)" by (cases "quotient_of x") auto
  have d: "0 < d" and x: "x = of_int n / of_int d"
    using quotient_of_denom_pos [OF q] quotient_of_div [OF q] by auto
  then have n: "0 < n" using assms by (simp add: zero_less_divide_iff)
  define a b where "a = bitlen n" and "b = bitlen d"
  have ab: "0 < a" "0 < b" using n d by (auto simp: a_def b_def bitlen_eq_zero_iff intro: order_le_neq_trans bitlen_nonneg)
  have n1: "(2::int) ^ nat (a - 1) \<le> n" and n2: "n < 2 ^ nat a"
    using bitlen_bounds [OF n] by (auto simp: a_def)
  have d1: "(2::int) ^ nat (b - 1) \<le> d" and d2: "d < 2 ^ nat b"
    using bitlen_bounds [OF d] by (auto simp: b_def)
  have rn1: "(2::rat) powi (a - 1) \<le> of_int n" and rn2: "of_int n < (2::rat) powi a"
    and rd1: "(2::rat) powi (b - 1) \<le> of_int d" and rd2: "of_int d < (2::rat) powi b"
    using n1 n2 d1 d2 ab
    by (simp_all add: power_int_def flip: of_int_power)
  have lo: "2 powi (a - b - 1) \<le> x"
  proof -
    have "2 powi (a - b - 1) = (2::rat) powi (a - 1) / 2 powi b"
      by (simp add: power_int_diff [symmetric] algebra_simps)
    also have "\<dots> \<le> of_int n / of_int d"
      using rn1 rd2 d n by (intro frac_le) auto
    finally show ?thesis by (simp add: x)
  qed
  have hi: "x < 2 powi (a - b + 1)"
  proof -
    have "of_int n / of_int d < (2::rat) powi a / 2 powi (b - 1)"
      using rn2 rd1 n by (intro frac_less) auto
    also have "\<dots> = 2 powi (a - b + 1)"
      by (simp add: power_int_diff [symmetric] algebra_simps)
    finally show ?thesis by (simp add: x)
  qed
  have il: "ilog2 x = (if 2 powi (a - b) \<le> x then a - b else a - b - 1)"
    by (simp add: ilog2_def q Let_def a_def b_def)
  show "2 powi (ilog2 x) \<le> x" "x < 2 powi (ilog2 x + 1)"
    using lo hi by (auto simp: il)
qed

lemma powi_le_iff: "(2::rat) powi i \<le> 2 powi j \<longleftrightarrow> i \<le> j"
  using power_int_increasing [of i j "2::rat"] power_int_strict_increasing [of j i "2::rat"]
  by (auto simp: not_le intro: leI)

lemma ilog2_less:
  assumes "0 < x" "x < 2 powi k" shows "ilog2 x < k"
proof -
  have "2 powi ilog2 x < (2::rat) powi k"
    using ilog2_bounds(1) [OF assms(1)] assms(2) by simp
  then show ?thesis using powi_le_iff [of k "ilog2 x"] by (simp flip: not_le)
qed

lemma ilog2_ge:
  assumes "2 powi k \<le> x" shows "k \<le> ilog2 x"
proof -
  have x: "0 < x" using assms zero_less_power_int [of "2::rat" k] by linarith
  have "2 powi k < (2::rat) powi (ilog2 x + 1)"
    using ilog2_bounds(2) [OF x] assms by simp
  then show ?thesis using powi_le_iff [of "ilog2 x + 1" k] by (simp flip: not_le)
qed

lemma ilog2_mono: "0 < x \<Longrightarrow> x \<le> y \<Longrightarrow> ilog2 x \<le> ilog2 y"
  using ilog2_ge ilog2_bounds(1) order_trans by blast

lemma fround_0 [simp]: "fround 0 = 0"
  by (simp add: fround_def)

lemma fround_pos_eq:
  "0 < x \<Longrightarrow> fround x = of_int (rne (x / 2 powi (ilog2 x - 52))) * 2 powi (ilog2 x - 52)"
  by (simp add: fround_def Let_def)

text \<open>The rounded value stays within the binade.\<close>

lemma fround_bounds:
  assumes "0 < x"
  shows "2 powi (ilog2 x) \<le> fround x" "fround x \<le> 2 powi (ilog2 x + 1)"
proof -
  define u :: rat where "u = 2 powi (ilog2 x - 52)"
  have u: "0 < u" by (simp add: u_def)
  have split: "2 powi (ilog2 x) = 2 ^ 52 * u" "2 powi (ilog2 x + 1) = 2 ^ 53 * u"
    by (simp_all add: u_def power_int_add power_int_diff)
  have "of_int (2 ^ 52) \<le> x / u" "x / u \<le> of_int (2 ^ 53)"
    using ilog2_bounds [OF assms] u unfolding split by (simp_all add: field_simps)
  then have "2 ^ 52 \<le> rne (x / u)" "rne (x / u) \<le> 2 ^ 53"
    using rne_mono rne_of_int by metis+
  then have "of_int (2 ^ 52) \<le> (of_int (rne (x / u)) :: rat)"
    "of_int (rne (x / u)) \<le> (of_int (2 ^ 53) :: rat)"
    by (simp_all only: of_int_le_iff)
  then have "(2::rat) ^ 52 \<le> of_int (rne (x / u))" "of_int (rne (x / u)) \<le> (2::rat) ^ 53"
    by simp_all
  then show "2 powi (ilog2 x) \<le> fround x" "fround x \<le> 2 powi (ilog2 x + 1)"
    using u by (simp_all add: fround_pos_eq [OF assms] split flip: u_def)
qed

lemma fround_mono:
  assumes "0 \<le> x" "x \<le> y" shows "fround x \<le> fround y"
proof (cases "x = 0")
  case True
  show ?thesis
  proof (cases "y = 0")
    case False
    then have "0 < y" using assms by simp
    then have "0 \<le> fround y"
      using fround_bounds(1) [of y] zero_le_power_int [of "2::rat" "ilog2 y"] by linarith
    with True show ?thesis by simp
  qed (use True in simp)
next
  case False
  then have x: "0 < x" and y: "0 < y" using assms by simp_all
  show ?thesis
  proof (cases "ilog2 x = ilog2 y")
    case True
    have "x / 2 powi (ilog2 y - 52) \<le> y / 2 powi (ilog2 y - 52)"
      using assms(2) by (simp add: divide_right_mono)
    then show ?thesis
      using rne_mono True by (simp add: fround_pos_eq x y)
  next
    case False
    then have "ilog2 x + 1 \<le> ilog2 y" using ilog2_mono [OF x assms(2)] by simp
    then have "(2::rat) powi (ilog2 x + 1) \<le> 2 powi (ilog2 y)" by (simp add: powi_le_iff)
    then show ?thesis using fround_bounds(2) [OF x] fround_bounds(1) [OF y] by linarith
  qed
qed

text \<open>Integers of at most 53 bits are exact.\<close>

lemma fround_of_nat:
  assumes "n < 2 ^ 53" shows "fround (of_nat n) = of_nat n"
proof (cases "n = 0")
  case False
  define e where "e = ilog2 (of_nat n)"
  have pos: "0 < (of_nat n :: rat)" using False by simp
  have "(of_nat n :: rat) < 2 powi 53"
    using assms by (simp add: power_int_def)
  then have e: "e \<le> 52" using ilog2_less [OF pos] by (fastforce simp: e_def)
  have "(of_nat n :: rat) / 2 powi (e - 52) = of_nat n * 2 powi (52 - e)"
    by (simp add: power_int_diff field_simps)
  also have "\<dots> = of_int (int n * 2 ^ nat (52 - e))"
    using e by (simp add: power_int_def)
  finally have "fround (of_nat n) = of_int (int n * 2 ^ nat (52 - e)) * 2 powi (e - 52)"
    unfolding fround_pos_eq [OF pos] e_def [symmetric] by (simp only: rne_of_int)
  also have "\<dots> = of_nat n * (2 powi (52 - e) * 2 powi (e - 52))"
    using e by (simp add: power_int_def)
  also have "\<dots> = of_nat n"
    by (simp flip: power_int_add)
  finally show ?thesis .
qed simp

subsection \<open>Values and operations\<close>

datatype dbl = NaN | Infty bool | Fin rat

definition dbl_of_nat :: "nat \<Rightarrow> dbl" where
  "dbl_of_nat n = Fin (fround (of_nat n))"

fun dbl_div :: "dbl \<Rightarrow> dbl \<Rightarrow> dbl" where
  "dbl_div (Fin a) (Fin b) =
     (if b = 0 then (if a = 0 then NaN else Infty (a < 0)) else Fin (fround (a / b)))"
| "dbl_div (Infty s) (Fin b) = Infty (s \<noteq> (b < 0))"
| "dbl_div (Fin a) (Infty s) = Fin 0"
| "dbl_div _ _ = NaN"

fun dbl_add :: "dbl \<Rightarrow> dbl \<Rightarrow> dbl" where
  "dbl_add (Fin a) (Fin b) = Fin (fround (a + b))"
| "dbl_add (Infty s) (Fin b) = Infty s"
| "dbl_add (Fin a) (Infty t) = Infty t"
| "dbl_add (Infty s) (Infty t) = (if s = t then Infty s else NaN)"
| "dbl_add _ _ = NaN"

fun dbl_minus :: "dbl \<Rightarrow> dbl" where
  "dbl_minus (Fin a) = Fin (- a)"
| "dbl_minus (Infty s) = Infty (\<not> s)"
| "dbl_minus NaN = NaN"

definition dbl_sub :: "dbl \<Rightarrow> dbl \<Rightarrow> dbl" where
  "dbl_sub a b = dbl_add a (dbl_minus b)"

definition dbl_of_int :: "int \<Rightarrow> dbl" where
  "dbl_of_int n = Fin (fround (of_int n))"

text \<open>
  The conversion to a 64-bit unsigned integer cuts the fraction off; it is undefined where the
  result does not fit, here \<open>None\<close>.
\<close>

fun dbl_to_u64 :: "dbl \<Rightarrow> nat option" where
  "dbl_to_u64 (Fin r) =
     (if r \<le> -1 \<or> 2 ^ 64 \<le> r then None else Some (nat \<lfloor>r\<rfloor>))"
| "dbl_to_u64 _ = None"

text \<open>The comparison \<open>x < y\<close>, false as soon as one side is NaN; \<open>Infty True\<close> is negative.\<close>

fun dbl_less :: "dbl \<Rightarrow> dbl \<Rightarrow> bool" where
  "dbl_less (Fin a) (Fin b) = (a < b)"
| "dbl_less (Fin a) (Infty s) = (\<not> s)"
| "dbl_less (Infty s) (Fin b) = s"
| "dbl_less (Infty s) (Infty t) = (s \<and> \<not> t)"
| "dbl_less _ _ = False"

text \<open>A rational is a value of the type when rounding leaves it alone.\<close>

definition is_double :: "rat \<Rightarrow> bool" where
  "is_double r \<longleftrightarrow> fround r = r"

lemma dbl_of_nat_exact: "n < 2 ^ 53 \<Longrightarrow> dbl_of_nat n = Fin (of_nat n)"
  by (simp add: dbl_of_nat_def fround_of_nat)

lemma fround_ge_double: "is_double r \<Longrightarrow> 0 \<le> r \<Longrightarrow> r \<le> x \<Longrightarrow> r \<le> fround x"
  using fround_mono [of r x] by (simp add: is_double_def)

text \<open>A quotient below one by a margin of one in \<open>n < 2 ^ 53\<close> does not round up to one.\<close>

lemma below_one_double: "fround (1 - 1 / 2 ^ 53) = 1 - 1 / 2 ^ 53"
  by code_simp

lemma fround_below_one:
  assumes "0 \<le> x" "x \<le> 1 - 1 / 2 ^ 53" shows "fround x < 1"
proof -
  have "fround x \<le> 1 - 1 / 2 ^ 53"
    using fround_mono [OF assms] by (simp only: below_one_double)
  then show ?thesis by simp
qed

subsection \<open>The bounds of the exponent\<close>

text \<open>
  Numbers that users type can be out of range: \<open>ieee_round\<close> is the rounding of binary64 with its
  bounds, the subnormal numbers below \<open>2 ^ -1022\<close> and the overflow to an infinity.
\<close>

definition ieee_round :: "rat \<Rightarrow> dbl" where
  "ieee_round x =
     (if x = 0 then Fin 0
      else let u = 2 powi (max (ilog2 \<bar>x\<bar> - 52) (- 1074)); r = of_int (rne (x / u)) * u
           in if 2 ^ 1024 \<le> \<bar>r\<bar> then Infty (r < 0) else Fin r)"

fun dbl_mult :: "dbl \<Rightarrow> dbl \<Rightarrow> dbl" where
  "dbl_mult (Fin a) (Fin b) = ieee_round (a * b)"
| "dbl_mult (Infty s) (Fin b) = (if b = 0 then NaN else Infty (s \<noteq> (b < 0)))"
| "dbl_mult (Fin a) (Infty t) = (if a = 0 then NaN else Infty ((a < 0) \<noteq> t))"
| "dbl_mult (Infty s) (Infty t) = Infty (s \<noteq> t)"
| "dbl_mult _ _ = NaN"

text \<open>Within the bounds the rounding is the one without them.\<close>

lemma ieee_round_normal:
  assumes "2 powi (- 1022) \<le> x" "x < 2 ^ 1023" shows "ieee_round x = Fin (fround x)"
proof -
  have x: "0 < x" using assms(1) zero_less_power_int [of "2::rat" "- 1022"] by linarith
  have hi: "x < 2 powi 1023" using assms(2) by (simp add: power_int_def)
  have il: "- 1022 \<le> ilog2 x" "ilog2 x < 1023"
    using ilog2_ge [OF assms(1)] ilog2_less [OF x hi] by simp_all
  have "fround x \<le> 2 powi (ilog2 x + 1)" by (rule fround_bounds(2) [OF x])
  also have "\<dots> \<le> 2 powi 1023" using il by (simp add: powi_le_iff del: power_int_numeral)
  also have "\<dots> < (2::rat) ^ 1024"
    using power_strict_increasing [of 1023 1024 "2::rat"] by (simp only: power_int_numeral)
  finally have "fround x < 2 ^ 1024" .
  moreover have "0 < fround x"
    using fround_bounds(1) [OF x] zero_less_power_int [of "2::rat" "ilog2 x"] by linarith
  moreover have "max (ilog2 \<bar>x\<bar> - 52) (- 1074) = ilog2 x - 52" "x \<noteq> 0"
    using x il by simp_all
  ultimately show ?thesis
    unfolding ieee_round_def Let_def fround_pos_eq [OF x]
    by (simp only: abs_of_pos if_False not_le if_not_P)
qed

lemma ieee_round_0 [simp]: "ieee_round 0 = Fin 0"
  by (simp add: ieee_round_def)

lemma rne_le: "0 \<le> y \<Longrightarrow> 0 \<le> rne y" "of_int (rne y) \<le> y + 1"
proof -
  show "0 \<le> y \<Longrightarrow> 0 \<le> rne y" using rne_bounds(1) [of y] by linarith
  have "of_int (rne y) \<le> (of_int (\<lfloor>y\<rfloor> + 1) :: rat)" using rne_bounds(2) by (simp only: of_int_le_iff)
  also have "\<dots> \<le> y + 1" by simp
  finally show "of_int (rne y) \<le> y + 1" .
qed

lemma ieee_round_finite:
  assumes "0 \<le> x" "x < 2 ^ 1023" shows "\<exists>r. ieee_round x = Fin r"
proof (cases "x = 0")
  case False
  then have x: "0 < x" using assms(1) by simp
  have hi: "x < 2 powi 1023" using assms(2) by (simp add: power_int_def)
  define u :: rat where "u = 2 powi (max (ilog2 \<bar>x\<bar> - 52) (- 1074))"
  have u: "0 < u" by (simp add: u_def)
  have ub: "u \<le> 2 powi 1023"
    using ilog2_less [OF x hi] x by (simp add: u_def powi_le_iff del: power_int_numeral)
  have "of_int (rne (x / u)) * u \<le> (x / u + 1) * u"
    using u rne_le(2) [of "x / u"] by (intro mult_right_mono) simp_all
  also have "\<dots> = x + u" using u by (simp add: field_simps)
  also have "\<dots> < 2 powi 1023 + 2 powi 1023" using hi ub by simp
  also have "\<dots> = (2::rat) ^ 1024"
    by (simp only: power_int_numeral mult_2 [symmetric] power_Suc [symmetric]) simp
  finally have "of_int (rne (x / u)) * u < 2 ^ 1024" .
  moreover have "0 \<le> of_int (rne (x / u)) * u" using rne_le(1) [of "x / u"] u x by simp
  ultimately have "\<not> 2 ^ 1024 \<le> \<bar>of_int (rne (x / u)) * u\<bar>" by (simp only: abs_of_nonneg not_le)
  then show ?thesis
    using False unfolding ieee_round_def Let_def u_def by (simp only: if_False) blast
qed simp

lemma ieee_round_of_nat:
  assumes "n < 2 ^ 53" shows "ieee_round (of_nat n) = Fin (of_nat n)"
proof (cases "n = 0")
  case False
  have "(of_nat n :: rat) < of_nat (2 ^ 53)" using assms by (simp only: of_nat_less_iff)
  also have "\<dots> \<le> 2 ^ 1023" using power_increasing [of 53 1023 "2::rat"] by simp
  finally have "(of_nat n :: rat) < 2 ^ 1023" .
  moreover have "2 powi (- 1022) \<le> (of_nat n :: rat)"
  proof -
    have "2 powi (- 1022) \<le> (2::rat) powi 0" by (simp only: powi_le_iff)
    also have "\<dots> \<le> of_nat n" using False by simp
    finally show ?thesis .
  qed
  ultimately show ?thesis using ieee_round_normal fround_of_nat [OF assms] by simp
qed simp

lemma rne_minus: "rne (- y) = - rne y"
proof (cases "of_int \<lfloor>y\<rfloor> = y")
  case True
  then obtain n where "y = of_int n" by metis
  then show ?thesis using rne_of_int [of n] rne_of_int [of "- n"] by simp
next
  case False
  then have "\<lfloor>- y\<rfloor> = - \<lfloor>y\<rfloor> - 1" by linarith
  then show ?thesis by (auto simp: rne_def Let_def)
qed

lemma ieee_round_minus: "ieee_round (- x) = dbl_minus (ieee_round x)"
proof -
  define big :: rat where "big = 2 ^ 1024"
  have "0 < big" unfolding big_def by (rule zero_less_power) simp
  then show ?thesis
    unfolding ieee_round_def Let_def abs_minus_cancel minus_divide_left [symmetric] rne_minus of_int_minus
      mult_minus_left neg_equal_0_iff_equal big_def [symmetric]
    by auto
qed

end
