(* ===== verification/Encoder.thy ===== *)
theory Encoder
  imports Proto Wirehair Double
begin

section \<open>The encoder: the first half of \<open>src/lib/encoding.c\<close>\<close>

text \<open>
  A chunk is a piece of the input stream; it is encoded once (\<open>hgap_enc_chunk_init\<close>) and then
  emits as many packets as wanted (\<open>hgap_enc_chunk_emit\<close>). \<open>struct hgap_enc_chunk\<close> is used by
  the decoder too. A pointer to a buffer is the bytes from it to the end of its object, the
  pointers \<open>data\<close> and \<open>wh_state\<close> of the struct are options (\<open>None\<close> is \<open>NULL\<close>). Allocation is
  taken to succeed (\<open>xmalloc\<close> ends the process otherwise), and \<open>free\<close> has no effect on the
  values modelled.
\<close>

subsection \<open>Data\<close>

record 's enc_chunk =
  ck_num :: u64
  ck_len :: u64
  ck_pkt_size :: u64
  ck_next_pkt_id :: u64
  ck_wh_state :: "'s option"
  ck_data :: "bytes option"
  ck_total_gen :: u64

record hgap_encoder =
  enc_pkt_size :: u64
  next_chunk_num :: u64

subsection \<open>Operations on chunks\<close>

definition hgap_enc_chunk_pkt_payload_size :: "'s enc_chunk \<Rightarrow> u64" where
  "hgap_enc_chunk_pkt_payload_size chunk = ck_pkt_size chunk - HGAP_HEADER_LEN"

definition hgap_enc_chunk_is_small :: "'s enc_chunk \<Rightarrow> bool" where
  "hgap_enc_chunk_is_small chunk \<longleftrightarrow> ck_len chunk \<le> hgap_enc_chunk_pkt_payload_size chunk"

definition hgap_enc_chunk_purge :: "'s enc_chunk \<Rightarrow> 's enc_chunk" where
  "hgap_enc_chunk_purge chunk =
     (if ck_data chunk \<noteq> None then chunk\<lparr>ck_data := None\<rparr> else chunk)"

definition hgap_enc_chunk_new :: "'s enc_chunk" where
  "hgap_enc_chunk_new =
     \<lparr>ck_num = 0, ck_len = 0, ck_pkt_size = 0, ck_next_pkt_id = 0, ck_wh_state = None,
      ck_data = None, ck_total_gen = 0\<rparr>"

definition hgap_enc_chunk_init ::
  "'s wirehair \<Rightarrow> hgap_encoder \<Rightarrow> 's enc_chunk \<Rightarrow> bytes \<Rightarrow> u64 \<Rightarrow>
     (hgap_err \<times> hgap_encoder \<times> 's enc_chunk) outcome" where
  "hgap_enc_chunk_init W enc chunk to_enc sz =
     (let chunk1 = chunk\<lparr>ck_data := None, ck_num := next_chunk_num enc, ck_len := sz,
            ck_pkt_size := min (enc_pkt_size enc) (sz + HGAP_HEADER_LEN), ck_next_pkt_id := 0\<rparr>;
          enc1 = enc\<lparr>next_chunk_num := next_chunk_num enc + 1\<rparr>
      in obind (mem_read (unat sz) to_enc) (\<lambda>copy.
           let chunk2 = chunk1\<lparr>ck_data := Some copy\<rparr>
           in if \<not> hgap_enc_chunk_is_small chunk2
              then let wh_block_size = hgap_enc_chunk_pkt_payload_size chunk2;
                       st = wh_encode W (ck_wh_state chunk2) copy wh_block_size;
                       chunk3 = chunk2\<lparr>ck_wh_state := st\<rparr>
                   in if st = None then Ret (HGAP_ERR_WIREHAIR_ERROR, enc1, chunk3)
                      else Ret (HGAP_SUCCESS, enc1, chunk3)
              else Ret (HGAP_SUCCESS, enc1, chunk2)))"

text \<open>
  The payload of the next packet: the buffer after it has been written, and the size of the
  payload; \<open>None\<close> where \<open>wirehair_write\<close> fails.
\<close>

definition emit_payload ::
  "'s wirehair \<Rightarrow> 's enc_chunk \<Rightarrow> u64 \<Rightarrow> bytes \<Rightarrow> (bytes \<times> u64) option outcome" where
  "emit_payload W chunk pkt_id pkt =
     (if hgap_enc_chunk_is_small chunk
      then let payload_size = ck_len chunk
           in CHK (payload_size + HGAP_HEADER_LEN = ck_pkt_size chunk)
                (obind (mem_write 0 (replicate (unat (ck_pkt_size chunk)) 0) pkt) (\<lambda>pkt1.
                  case ck_data chunk of
                    None \<Rightarrow> Undef
                  | Some d \<Rightarrow>
                      obind (mem_read (unat payload_size) d) (\<lambda>payload.
                      obind (mem_write (unat HGAP_HEADER_LEN) payload pkt1) (\<lambda>pkt2.
                        Ret (Some (pkt2, payload_size))))))
      else let payload_size = hgap_enc_chunk_pkt_payload_size chunk
           in case wh_write W (ck_wh_state chunk) (ucast pkt_id) of
                None \<Rightarrow> Ret None
              | Some block \<Rightarrow>
                  obind (mem_write (unat HGAP_HEADER_LEN) block pkt) (\<lambda>pkt1.
                    Ret (Some (pkt1, payload_size))))"

text \<open>The result is the redundancy, the chunk, the packet buffer and the value of \<open>*size\<close>.\<close>

definition hgap_enc_chunk_emit ::
  "'s wirehair \<Rightarrow> 's enc_chunk \<Rightarrow> bytes \<Rightarrow> u64 \<Rightarrow>
     (dbl \<times> 's enc_chunk \<times> bytes \<times> u64) outcome" where
  "hgap_enc_chunk_emit W chunk pkt sz =
     (let pkt_id = ck_next_pkt_id chunk;
          chunk1 = chunk\<lparr>ck_next_pkt_id := pkt_id + 1\<rparr>
      in obind (emit_payload W chunk1 pkt_id pkt) (\<lambda>res.
           case res of
             None \<Rightarrow> Ret (Fin (-1), chunk1, pkt, sz)
           | Some (pkt1, payload_size) \<Rightarrow>
               let h = \<lparr>chunk_num = ck_num chunk1, chunk_size = ck_len chunk1,
                        data_id = ucast pkt_id, data_size = ucast payload_size\<rparr>
               in obind (hgap_write_header h pkt1) (\<lambda>pkt2.
                    let chunk2 = chunk1\<lparr>ck_total_gen := ck_total_gen chunk1 + payload_size\<rparr>;
                        redund = dbl_div (dbl_of_nat (unat (ck_total_gen chunk2)))
                                         (dbl_of_nat (unat (ck_len chunk2)))
                    in Ret (redund, chunk2, pkt2, ck_pkt_size chunk2))))"

subsection \<open>Operations on the encoder\<close>

definition hgap_encoder_new :: "u64 \<Rightarrow> hgap_encoder" where
  "hgap_encoder_new psz = \<lparr>enc_pkt_size = psz, next_chunk_num = 0\<rparr>"

definition hgap_encoder_handwave ::
  "hgap_encoder \<Rightarrow> bytes \<Rightarrow> u64 \<Rightarrow> (hgap_err \<times> bytes \<times> u64) outcome" where
  "hgap_encoder_handwave enc pkt sz =
     (if sz < HGAP_MIN_BUF then Ret (HGAP_ERR_BUFFER_TOO_SMALL, pkt, sz)
      else obind (hgap_write_header hgap_header_begin pkt) (\<lambda>pkt1.
             Ret (HGAP_SUCCESS, pkt1, HGAP_HEADER_LEN)))"

definition hgap_encoder_teardown ::
  "hgap_encoder \<Rightarrow> bytes \<Rightarrow> u64 \<Rightarrow> (hgap_err \<times> bytes \<times> u64) outcome" where
  "hgap_encoder_teardown enc pkt sz =
     (if sz < HGAP_MIN_BUF then Ret (HGAP_ERR_BUFFER_TOO_SMALL, pkt, sz)
      else obind (hgap_write_header hgap_header_end pkt) (\<lambda>pkt1.
             Ret (HGAP_SUCCESS, pkt1, HGAP_HEADER_LEN)))"

subsection \<open>The contract of a chunk\<close>

text \<open>
  The abstract view: chunk \<open>num\<close> of the stream carries the message \<open>m\<close> in packets of payload
  size \<open>chunk_payload psz m\<close>, where \<open>psz\<close> is the packet size of the encoder; packet \<open>i\<close> of
  it is a header and either the whole message or the block \<open>i\<close> of wirehair's encoding \<open>E\<close>.
\<close>

definition chunk_payload :: "u64 \<Rightarrow> bytes \<Rightarrow> nat" where
  "chunk_payload psz m = min (unat psz - 24) (length m)"

definition chunk_header :: "u64 \<Rightarrow> u64 \<Rightarrow> bytes \<Rightarrow> u32 \<Rightarrow> hgap_header" where
  "chunk_header psz num m i =
     \<lparr>chunk_num = num, chunk_size = of_nat (length m), data_id = i,
      data_size = of_nat (chunk_payload psz m)\<rparr>"

definition chunk_block :: "'s wirehair \<Rightarrow> u64 \<Rightarrow> bytes \<Rightarrow> 's option \<Rightarrow> u32 \<Rightarrow> bytes option" where
  "chunk_block W psz m E i =
     (if length m \<le> unat psz - 24 then Some m else wh_write W E i)"

definition chunk_packet ::
  "'s wirehair \<Rightarrow> u64 \<Rightarrow> u64 \<Rightarrow> bytes \<Rightarrow> 's option \<Rightarrow> u32 \<Rightarrow> bytes option" where
  "chunk_packet W psz num m E i =
     map_option (\<lambda>b. header_bytes (chunk_header psz num m i) @ b) (chunk_block W psz m E i)"

text \<open>\<open>encodes\<close>: the concrete chunk is ready to emit the packets of the abstract one.\<close>

definition encodes ::
  "'s wirehair \<Rightarrow> u64 \<Rightarrow> u64 \<Rightarrow> bytes \<Rightarrow> 's enc_chunk \<Rightarrow> bool" where
  "encodes W psz num m chunk \<longleftrightarrow>
     24 \<le> unat psz \<and> length m + 24 < 2 ^ 64 \<and> (m \<noteq> [] \<longrightarrow> 24 < unat psz) \<and>
     ck_num chunk = num \<and> ck_len chunk = of_nat (length m) \<and> ck_data chunk = Some m \<and>
     unat (ck_pkt_size chunk) = chunk_payload psz m + 24 \<and>
     (unat psz - 24 < length m \<longrightarrow>
        (\<exists>re E. ck_wh_state chunk = Some E \<and> wh_encode W re m (psz - 24) = Some E))"

lemma unat_of_length: "length m < 2 ^ 64 \<Longrightarrow> unat (of_nat (length m) :: u64) = length m"
  by (simp add: unat_of_nat take_bit_nat_eq_self)

lemma ucast_of_nat32: "ucast (of_nat n :: u64) = (of_nat n :: u32)"
  by (rule bit_word_eqI) (auto simp: bit_simps)

lemma encodes_sizes:
  assumes "encodes W psz num m chunk"
  shows "unat (ck_len chunk) = length m"
    and "unat (hgap_enc_chunk_pkt_payload_size chunk) = chunk_payload psz m"
    and "hgap_enc_chunk_is_small chunk \<longleftrightarrow> length m \<le> unat psz - 24"
proof -
  show len: "unat (ck_len chunk) = length m"
    using assms by (simp add: encodes_def unat_of_length)
  have "HGAP_HEADER_LEN \<le> ck_pkt_size chunk"
    using assms by (simp add: encodes_def word_le_nat_alt)
  then show pay: "unat (hgap_enc_chunk_pkt_payload_size chunk) = chunk_payload psz m"
    using assms
    by (simp add: hgap_enc_chunk_pkt_payload_size_def unat_sub encodes_def)
  show "hgap_enc_chunk_is_small chunk \<longleftrightarrow> length m \<le> unat psz - 24"
    by (auto simp: hgap_enc_chunk_is_small_def word_le_nat_alt len pay chunk_payload_def)
qed

text \<open>Initialising a chunk.\<close>

lemma init_pkt_size:
  assumes "24 \<le> unat psz" "unat sz + 24 < 2 ^ 64"
  shows "unat (min psz (sz + HGAP_HEADER_LEN)) = min (unat psz - 24) (unat sz) + 24"
proof -
  have "unat (sz + HGAP_HEADER_LEN) = unat sz + 24"
    using assms(2) by (simp add: unat_word_ariths)
  then show ?thesis
    using assms(1) by (auto simp: min_def word_le_nat_alt)
qed

lemma hgap_enc_chunk_init_cases:
  assumes psz: "24 < unat (enc_pkt_size enc)" and sz: "unat sz \<le> length to_enc"
    and room: "unat sz + 24 < 2 ^ 64"
  defines "psz \<equiv> enc_pkt_size enc" and "m \<equiv> take (unat sz) to_enc"
  shows "\<exists>e chunk'. hgap_enc_chunk_init W enc chunk to_enc sz =
      Ret (e, enc\<lparr>next_chunk_num := next_chunk_num enc + 1\<rparr>, chunk') \<and>
      ck_next_pkt_id chunk' = 0 \<and> ck_total_gen chunk' = ck_total_gen chunk \<and>
      ck_wh_state chunk' = (if unat psz - 24 < length m
        then wh_encode W (ck_wh_state chunk) m (psz - 24) else ck_wh_state chunk) \<and>
      (if unat psz - 24 < length m \<and> wh_encode W (ck_wh_state chunk) m (psz - 24) = None
       then e = HGAP_ERR_WIREHAIR_ERROR
       else e = HGAP_SUCCESS \<and> encodes W psz (next_chunk_num enc) m chunk')"
proof -
  define c where "c = chunk\<lparr>ck_data := Some m, ck_num := next_chunk_num enc, ck_len := sz,
    ck_pkt_size := min psz (sz + HGAP_HEADER_LEN), ck_next_pkt_id := 0\<rparr>"
  have len: "length m = unat sz" using sz by (simp add: m_def)
  have pkt: "unat (ck_pkt_size c) = chunk_payload psz m + 24"
    using init_pkt_size [of psz sz] psz room by (simp add: c_def chunk_payload_def len psz_def)
  have pay: "unat (hgap_enc_chunk_pkt_payload_size c) = chunk_payload psz m"
    using pkt by (simp add: hgap_enc_chunk_pkt_payload_size_def unat_sub word_le_nat_alt)
  have small: "hgap_enc_chunk_is_small c \<longleftrightarrow> \<not> unat psz - 24 < length m"
    by (auto simp: hgap_enc_chunk_is_small_def word_le_nat_alt pay chunk_payload_def len)
      (simp_all add: c_def)
  have big: "hgap_enc_chunk_pkt_payload_size c = psz - 24" if "unat psz - 24 < length m"
    using that psz
    by (simp add: word_unat_eq_iff) (simp add: pay chunk_payload_def unat_sub word_le_nat_alt psz_def)
  have c: "ck_num c = next_chunk_num enc" "ck_len c = of_nat (length m)" "ck_data c = Some m"
    "ck_wh_state c = ck_wh_state chunk" "ck_next_pkt_id c = 0"
    "ck_total_gen c = ck_total_gen chunk"
    by (simp_all add: c_def len)
  have c1: "chunk\<lparr>ck_data := None, ck_num := next_chunk_num enc, ck_len := sz,
      ck_pkt_size := min (enc_pkt_size enc) (sz + HGAP_HEADER_LEN), ck_next_pkt_id := 0\<rparr>
      \<lparr>ck_data := Some (take (unat sz) to_enc)\<rparr> = c"
    by (simp add: c_def m_def psz_def)
  have eq: "hgap_enc_chunk_init W enc chunk to_enc sz =
      (let enc' = enc\<lparr>next_chunk_num := next_chunk_num enc + 1\<rparr> in
       if unat psz - 24 < length m
       then (case wh_encode W (ck_wh_state chunk) m (psz - 24) of
               None \<Rightarrow> Ret (HGAP_ERR_WIREHAIR_ERROR, enc', c\<lparr>ck_wh_state := None\<rparr>)
             | Some E \<Rightarrow> Ret (HGAP_SUCCESS, enc', c\<lparr>ck_wh_state := Some E\<rparr>))
       else Ret (HGAP_SUCCESS, enc', c))"
    unfolding hgap_enc_chunk_init_def Let_def mem_read_def if_P [OF sz] obind.simps c1
    using small big by (simp add: c(3,4) m_def [symmetric] split: option.splits)
  show ?thesis
    unfolding eq using psz room c pkt len
    by (auto simp: Let_def encodes_def psz_def split: option.splits)
qed

text \<open>Emitting a packet refines the abstract view: the packet is the one of the chunk.\<close>

definition redundancy :: "nat \<Rightarrow> nat \<Rightarrow> dbl" where
  "redundancy sent n = dbl_div (dbl_of_nat sent) (dbl_of_nat n)"

lemma chunk_block_length:
  assumes enc: "encodes W psz num m chunk" and wh: "wh_block_size W"
    and b: "chunk_block W psz m (ck_wh_state chunk) i = Some b"
  shows "length b = chunk_payload psz m"
proof (cases "length m \<le> unat psz - 24")
  case True
  then show ?thesis using b by (simp add: chunk_block_def chunk_payload_def)
next
  case False
  then obtain re E where E: "ck_wh_state chunk = Some E" "wh_encode W re m (psz - 24) = Some E"
    using enc by (auto simp: encodes_def)
  have "24 < unat psz" "unat (psz - 24) = unat psz - 24"
    using enc False by (auto simp: encodes_def unat_sub word_le_nat_alt)
  then show ?thesis
    using wh_block_sizeD [OF wh _ E(2)] b False E(1)
    by (simp add: chunk_block_def chunk_payload_def)
qed

lemma emit_payload_eq:
  assumes enc: "encodes W psz num m chunk" and wh: "wh_block_size W"
    and room: "chunk_payload psz m + 24 \<le> length pkt"
  shows "\<exists>hole. length hole = 24 \<and>
    emit_payload W chunk i pkt =
      Ret (map_option (\<lambda>b. (hole @ b @ drop (24 + length b) pkt, of_nat (length b)))
             (chunk_block W psz m (ck_wh_state chunk) (ucast i)))"
proof (cases "length m \<le> unat psz - 24")
  case True
  have small: "hgap_enc_chunk_is_small chunk" using encodes_sizes(3) [OF enc] True by simp
  have pay: "chunk_payload psz m = length m" using True by (simp add: chunk_payload_def)
  have "ck_len chunk + HGAP_HEADER_LEN = ck_pkt_size chunk"
    using enc True encodes_sizes(1) [OF enc]
    by (simp add: word_unat_eq_iff unat_word_ariths encodes_def pay)
  moreover have "unat (ck_pkt_size chunk) = length m + 24" "ck_data chunk = Some m"
    using enc by (simp_all add: encodes_def pay)
  ultimately show ?thesis
    using small room True encodes_sizes(1) [OF enc] enc
    by (intro exI [of _ "replicate 24 0"])
      (simp add: emit_payload_def Let_def mem_write_def mem_read_def pay chunk_block_def
        encodes_def min_def add.commute)
next
  case False
  have small: "\<not> hgap_enc_chunk_is_small chunk" using encodes_sizes(3) [OF enc] False by simp
  have "hgap_enc_chunk_pkt_payload_size chunk = of_nat (chunk_payload psz m)"
    using encodes_sizes(2) [OF enc, symmetric] by simp
  note pay = this
  have blk: "chunk_block W psz m (ck_wh_state chunk) (ucast i) =
      wh_write W (ck_wh_state chunk) (ucast i)"
    using False by (simp add: chunk_block_def)
  show ?thesis
  proof (cases "wh_write W (ck_wh_state chunk) (ucast i)")
    case None
    then show ?thesis
      using small by (intro exI [of _ "replicate 24 0"]) (simp add: emit_payload_def Let_def blk)
  next
    case (Some b)
    have b: "length b = chunk_payload psz m"
      using chunk_block_length [OF enc wh] blk Some by simp
    then show ?thesis
      using small room Some pay
      by (intro exI [of _ "take 24 pkt"])
        (simp add: emit_payload_def Let_def mem_write_def blk add.commute)
  qed
qed

lemma hgap_enc_chunk_emit_eq:
  assumes enc: "encodes W psz num m chunk" and wh: "wh_block_size W"
    and room: "chunk_payload psz m + 24 \<le> length pkt"
  defines "i \<equiv> ck_next_pkt_id chunk"
  defines "chunk1 \<equiv> chunk\<lparr>ck_next_pkt_id := i + 1\<rparr>"
    and "gen \<equiv> ck_total_gen chunk + of_nat (chunk_payload psz m)"
  shows "hgap_enc_chunk_emit W chunk pkt sz =
    (case chunk_packet W psz num m (ck_wh_state chunk) (ucast i) of
       None \<Rightarrow> Ret (Fin (-1), chunk1, pkt, sz)
     | Some raw \<Rightarrow> Ret (redundancy (unat gen) (length m), chunk1\<lparr>ck_total_gen := gen\<rparr>,
                     raw @ drop (length raw) pkt, ck_pkt_size chunk))"
proof -
  have enc1: "encodes W psz num m chunk1" using enc by (simp add: encodes_def chunk1_def)
  obtain hole where hole: "length hole = 24" and
    eq: "emit_payload W chunk1 i pkt =
      Ret (map_option (\<lambda>b. (hole @ b @ drop (24 + length b) pkt, of_nat (length b)))
             (chunk_block W psz m (ck_wh_state chunk) (ucast i)))"
    using emit_payload_eq [OF enc1 wh room, of i] by (auto simp: chunk1_def)
  show ?thesis
  proof (cases "chunk_block W psz m (ck_wh_state chunk) (ucast i)")
    case None
    then show ?thesis
      using eq by (simp add: hgap_enc_chunk_emit_def Let_def i_def chunk1_def chunk_packet_def)
  next
    case (Some b)
    have b: "length b = chunk_payload psz m" by (rule chunk_block_length [OF enc wh Some])
    show ?thesis
      using eq Some hole b enc
      by (simp add: hgap_enc_chunk_emit_def Let_def i_def chunk1_def chunk_packet_def gen_def
          hgap_write_header_def mem_write_def chunk_header_def redundancy_def encodes_def
          unat_of_length ucast_of_nat32)
  qed
qed

subsection \<open>Properties\<close>

text \<open>Initialising a chunk, for every encoder, message and earlier content of the chunk, stays
  inside the message, takes the next chunk number, and either leaves a chunk ready to emit the
  packets of the message from id 0, or reports wirehair's failure to encode a message too long
  for one packet. The count \<open>total_gen\<close> of an earlier use is kept.\<close>

theorem chunk_init_result:
  assumes "24 < unat (enc_pkt_size enc)" and "unat sz \<le> length to_enc"
    and "unat sz + 24 < 2 ^ 64"
  shows "\<exists>e chunk'. hgap_enc_chunk_init W enc chunk to_enc sz =
      Ret (e, enc\<lparr>next_chunk_num := next_chunk_num enc + 1\<rparr>, chunk') \<and>
    ck_next_pkt_id chunk' = 0 \<and> ck_total_gen chunk' = ck_total_gen chunk \<and>
    (if unat (enc_pkt_size enc) - 24 < unat sz \<and>
        wh_encode W (ck_wh_state chunk) (take (unat sz) to_enc) (enc_pkt_size enc - 24) = None
     then e = HGAP_ERR_WIREHAIR_ERROR
     else e = HGAP_SUCCESS \<and>
       encodes W (enc_pkt_size enc) (next_chunk_num enc) (take (unat sz) to_enc) chunk')"
  using hgap_enc_chunk_init_cases [OF assms, of W chunk] assms(2) by (simp only: length_take min_absorb2) blast

theorem chunk_init_result_witness:
  "\<exists>chunk'. hgap_enc_chunk_init cyclic (hgap_encoder_new 27) hgap_enc_chunk_new [1, 2, 3, 4, 5, 6] 5 =
      Ret (HGAP_SUCCESS, \<lparr>enc_pkt_size = 27, next_chunk_num = 1\<rparr>, chunk') \<and>
    encodes cyclic 27 0 [1, 2, 3, 4, 5] chunk'"
  using chunk_init_result [of "hgap_encoder_new 27" 5 "[1, 2, 3, 4, 5, 6]" cyclic hgap_enc_chunk_new]
  by (auto simp: hgap_encoder_new_def cyclic_def)

text \<open>C18: emitting refines the abstract view of a chunk: the buffer receives the packet of the next
  id, padded nowhere, no longer than the configured packet size, inside the buffer; the packet
  parses back to the chunk's header and block; the result is the redundancy reached.\<close>

theorem emit_writes_the_chunk_packet:
  assumes "encodes W psz num m chunk" and "wh_block_size W" and "psz \<le> HGAP_MAX_PKT_SIZE"
    and "unat psz \<le> length pkt"
    and "chunk_block W psz m (ck_wh_state chunk) (ucast (ck_next_pkt_id chunk)) = Some b"
  defines "h \<equiv> chunk_header psz num m (ucast (ck_next_pkt_id chunk))"
    and "gen \<equiv> ck_total_gen chunk + of_nat (length b)"
  shows "hgap_enc_chunk_emit W chunk pkt sz =
      Ret (redundancy (unat gen) (length m),
        chunk\<lparr>ck_next_pkt_id := ck_next_pkt_id chunk + 1, ck_total_gen := gen\<rparr>,
        header_bytes h @ b @ drop (24 + length b) pkt, ck_pkt_size chunk) \<and>
    unat (ck_pkt_size chunk) = 24 + length b \<and> 24 + length b \<le> unat psz \<and>
    hgap_pkt_parse (header_bytes h @ b) (ck_pkt_size chunk) =
      Ret (HGAP_SUCCESS, Some \<lparr>hdr = h, pkt_data = b\<rparr>)"
proof -
  have b: "length b = chunk_payload psz m"
    by (rule chunk_block_length [OF assms(1,2,5)])
  have pkt: "unat (ck_pkt_size chunk) = 24 + length b" "24 \<le> unat psz"
    using assms(1) b by (simp_all add: encodes_def)
  have le: "chunk_payload psz m + 24 \<le> unat psz" using pkt(2) by (simp add: chunk_payload_def)
  have "unat psz \<le> 1500" using assms(3) by (simp add: word_le_nat_alt HGAP_MAX_PKT_SIZE_def)
  then have "unat (data_size h) = length b"
    using le b by (simp add: h_def chunk_header_def unat_of_nat take_bit_nat_eq_self)
  then have parse: "hgap_pkt_parse (header_bytes h @ b) (ck_pkt_size chunk) =
      Ret (HGAP_SUCCESS, Some \<lparr>hdr = h, pkt_data = b\<rparr>)"
    using pkt by (intro parse_written) simp_all
  have "chunk_packet W psz num m (ck_wh_state chunk) (ucast (ck_next_pkt_id chunk)) =
      Some (header_bytes h @ b)"
    using assms(5) by (simp add: chunk_packet_def h_def)
  then have "hgap_enc_chunk_emit W chunk pkt sz =
      Ret (redundancy (unat gen) (length m),
        chunk\<lparr>ck_next_pkt_id := ck_next_pkt_id chunk + 1, ck_total_gen := gen\<rparr>,
        header_bytes h @ b @ drop (24 + length b) pkt, ck_pkt_size chunk)"
    using hgap_enc_chunk_emit_eq [OF assms(1,2), of pkt sz] le assms(4) b
    by (simp add: gen_def)
  then show ?thesis using parse pkt le b by simp
qed

theorem emit_writes_the_chunk_packet_witness:
  "let chunk = \<lparr>ck_num = 4, ck_len = 3, ck_pkt_size = 27, ck_next_pkt_id = 0,
      ck_wh_state = (None :: cyc option), ck_data = Some [1, 2, 3], ck_total_gen = 0\<rparr>
   in hgap_pkt_parse (header_bytes (chunk_header 1400 4 [1, 2, 3] 0) @ [1, 2, 3]) 27 =
        Ret (HGAP_SUCCESS, Some \<lparr>hdr = chunk_header 1400 4 [1, 2, 3] 0, pkt_data = [1, 2, 3]\<rparr>)"
  unfolding Let_def
  using emit_writes_the_chunk_packet [of cyclic 1400 4 "[1, 2, 3]"
      "\<lparr>ck_num = 4, ck_len = 3, ck_pkt_size = 27, ck_next_pkt_id = 0, ck_wh_state = None,
        ck_data = Some [1, 2, 3], ck_total_gen = 0\<rparr>" "replicate 1400 0" "[1, 2, 3]" 0]
  by (simp add: encodes_def chunk_payload_def chunk_block_def cyclic_block_size
      HGAP_MAX_PKT_SIZE_def)

text \<open>The control packets at the two ends of a transfer: with room for a header in the buffer
  both are written, have the length of a header and the type announced; with less, nothing is written.\<close>

theorem control_packets:
  assumes "unat sz \<le> length pkt"
  shows "if unat sz < 24
    then hgap_encoder_handwave enc pkt sz = Ret (HGAP_ERR_BUFFER_TOO_SMALL, pkt, sz) \<and>
      hgap_encoder_teardown enc pkt sz = Ret (HGAP_ERR_BUFFER_TOO_SMALL, pkt, sz)
    else \<exists>p q. hgap_encoder_handwave enc pkt sz = Ret (HGAP_SUCCESS, p, 24) \<and>
      hgap_encoder_teardown enc pkt sz = Ret (HGAP_SUCCESS, q, 24) \<and>
      hgap_pkt_type p 24 = Ret HGAP_PKT_BEGIN \<and> hgap_pkt_type q 24 = Ret HGAP_PKT_END \<and>
      drop 24 p = drop 24 pkt \<and> drop 24 q = drop 24 pkt"
proof -
  have w: "hgap_write_header h pkt = Ret (header_bytes h @ drop 24 pkt)" if "24 \<le> unat sz" for h
    using assms that by (simp add: hgap_write_header_Ret_iff)
  show ?thesis
    using w
    by (auto simp: hgap_encoder_handwave_def hgap_encoder_teardown_def HGAP_MIN_BUF_def
        HGAP_HEADER_LEN_def word_less_nat_alt type_written)
qed

theorem control_packets_witness:
  "\<exists>p. hgap_encoder_handwave (hgap_encoder_new 1400) (replicate 1400 0) 1400 =
     Ret (HGAP_SUCCESS, p, 24) \<and> hgap_pkt_type p 24 = Ret HGAP_PKT_BEGIN"
  using control_packets [of 1400 "replicate 1400 0" "hgap_encoder_new 1400"] by auto

end
