(* ===== verification/Limiter.thy ===== *)
theory Limiter
  imports Prelude Double
begin

section \<open>The rate limiter: \<open>src/lib/limiter.h\<close>, \<open>src/lib/limiter.c\<close>\<close>

text \<open>
  The clock is a parameter: \<open>clock k\<close> is what the \<open>k\<close>-th call of \<open>gettimeofday\<close> gives; an
  operation takes the number of readings so far and returns the new one. The waiting loop is
  option-valued: \<open>None\<close> is that it never ends.
\<close>

record timeval =
  tv_sec :: int
  tv_usec :: int

record hgap_limiter =
  hl_byterate :: dbl
  n_pkt_sent :: u64
  n_bytes_sent :: u64
  since :: timeval
  total_data_sent :: u64

definition HLIM_CHK_PERIOD :: u64 where "HLIM_CHK_PERIOD = 1000"

definition time_in_seconds :: "timeval \<Rightarrow> dbl" where
  "time_in_seconds t = dbl_add (dbl_of_int (tv_sec t)) (dbl_div (dbl_of_int (tv_usec t)) (Fin 1000000))"

definition time_diff :: "timeval \<Rightarrow> timeval \<Rightarrow> dbl" where
  "time_diff before after = dbl_sub (time_in_seconds after) (time_in_seconds before)"

definition hgap_limiter_reset_rate :: "timeval \<Rightarrow> hgap_limiter \<Rightarrow> hgap_limiter" where
  "hgap_limiter_reset_rate now hlim = hlim\<lparr>since := now, n_pkt_sent := 0, n_bytes_sent := 0\<rparr>"

definition hgap_limiter_get_current_rate :: "timeval \<Rightarrow> hgap_limiter \<Rightarrow> dbl" where
  "hgap_limiter_get_current_rate now hlim =
     (let diff = time_diff (since hlim) now
      in if diff = Fin 0 then Fin 0 else dbl_div (dbl_of_nat (unat (n_bytes_sent hlim))) diff)"

definition hgap_limiter_new :: "timeval \<Rightarrow> dbl \<Rightarrow> hgap_limiter" where
  "hgap_limiter_new now rate =
     \<lparr>hl_byterate = rate, n_pkt_sent = 0, n_bytes_sent = 0, since = now, total_data_sent = 0\<rparr>"

text \<open>The loop around \<open>usleep\<close>: the number of readings when the rate has fallen far enough.\<close>

partial_function (option) limiter_wait :: "(nat \<Rightarrow> timeval) \<Rightarrow> nat \<Rightarrow> hgap_limiter \<Rightarrow> nat option" where
  "limiter_wait clock k hlim =
     (if dbl_less (hl_byterate hlim) (hgap_limiter_get_current_rate (clock k) hlim)
      then limiter_wait clock (k + 1) hlim
      else Some (k + 1))"

definition hgap_limiter_limit ::
  "(nat \<Rightarrow> timeval) \<Rightarrow> nat \<Rightarrow> hgap_limiter \<Rightarrow> u64 \<Rightarrow> (nat \<times> hgap_limiter) option" where
  "hgap_limiter_limit clock k hlim len =
     (let hlim1 = hlim\<lparr>total_data_sent := total_data_sent hlim + len,
                       n_pkt_sent := n_pkt_sent hlim + 1,
                       n_bytes_sent := n_bytes_sent hlim + len\<rparr>
      in if hl_byterate hlim1 \<noteq> Fin 0 \<and> n_pkt_sent hlim1 > HLIM_CHK_PERIOD
         then (case limiter_wait clock k hlim1 of
                 None \<Rightarrow> None
               | Some k1 \<Rightarrow> Some (k1 + 1, hgap_limiter_reset_rate (clock k1) hlim1))
         else Some (k, hlim1))"

subsection \<open>Lemmas\<close>

lemma limiter_wait_found:
  assumes "k \<le> j" and "\<not> dbl_less (hl_byterate hlim) (hgap_limiter_get_current_rate (clock j) hlim)"
    and "\<And>i. k \<le> i \<Longrightarrow> i < j \<Longrightarrow>
      dbl_less (hl_byterate hlim) (hgap_limiter_get_current_rate (clock i) hlim)"
  shows "limiter_wait clock k hlim = Some (j + 1)"
  using assms
proof (induction "j - k" arbitrary: k)
  case 0
  then show ?case by (subst limiter_wait.simps) simp
next
  case (Suc n)
  then have "k < j" by simp
  then have "dbl_less (hl_byterate hlim) (hgap_limiter_get_current_rate (clock k) hlim)"
    using Suc.prems(3) [of k] by simp
  moreover have "limiter_wait clock (k + 1) hlim = Some (j + 1)"
    using Suc \<open>k < j\<close> by (intro Suc.hyps(1)) auto
  ultimately show ?case by (subst limiter_wait.simps) simp
qed

lemma limiter_wait_returns:
  assumes "k \<le> j" and "\<not> dbl_less (hl_byterate hlim) (hgap_limiter_get_current_rate (clock j) hlim)"
  shows "\<exists>i. k \<le> i \<and> i \<le> j \<and> limiter_wait clock k hlim = Some (i + 1) \<and>
    \<not> dbl_less (hl_byterate hlim) (hgap_limiter_get_current_rate (clock i) hlim)"
proof -
  let ?P = "\<lambda>i. k \<le> i \<and> \<not> dbl_less (hl_byterate hlim) (hgap_limiter_get_current_rate (clock i) hlim)"
  define i where "i = (LEAST i. ?P i)"
  have pj: "?P j" using assms by simp
  have i: "?P i" "i \<le> j"
    unfolding i_def using LeastI [of ?P j] Least_le [of ?P j] pj by blast+
  have "dbl_less (hl_byterate hlim) (hgap_limiter_get_current_rate (clock h) hlim)"
    if "k \<le> h" "h < i" for h
    using that not_less_Least [of h ?P] by (auto simp: i_def)
  then show ?thesis using i limiter_wait_found [of k i hlim clock] by blast
qed

lemma limiter_wait_result:
  "limiter_wait clock k hlim = Some k' \<Longrightarrow> k < k' \<and>
    \<not> dbl_less (hl_byterate hlim) (hgap_limiter_get_current_rate (clock (k' - 1)) hlim)"
  by (rule limiter_wait.raw_induct [where P = "\<lambda>clock k hlim k'. k < k' \<and>
        \<not> dbl_less (hl_byterate hlim) (hgap_limiter_get_current_rate (clock (k' - 1)) hlim)"])
    (fastforce split: if_splits)+

text \<open>Enough elapsed time brings the rate down to the limit.\<close>

lemma rate_below:
  assumes "hl_byterate hlim = Fin b" "is_double b" "0 < b"
    and "time_diff (since hlim) now = Fin d" "0 < d"
    and "n_bytes_sent hlim < 2 ^ 53" and "of_nat (unat (n_bytes_sent hlim)) \<le> b * d"
  shows "\<not> dbl_less (hl_byterate hlim) (hgap_limiter_get_current_rate now hlim)"
proof -
  let ?n = "of_nat (unat (n_bytes_sent hlim)) :: rat"
  have "unat (n_bytes_sent hlim) < 2 ^ 53" using assms(6) by (simp add: word_less_nat_alt)
  then have "dbl_of_nat (unat (n_bytes_sent hlim)) = Fin ?n" by (rule dbl_of_nat_exact)
  then have rate: "hgap_limiter_get_current_rate now hlim = Fin (fround (?n / d))"
    using assms(4,5) by (simp add: hgap_limiter_get_current_rate_def Let_def)
  have "?n / d \<le> b" using assms(5,7) by (simp add: divide_le_eq)
  then have "fround (?n / d) \<le> fround b" using assms(5) by (intro fround_mono) (simp_all del: of_nat_unat)
  then show ?thesis using assms(1,2) by (simp add: rate is_double_def not_less)
qed

text \<open>
  A clock that goes on: it passes every time. With it the limiter always returns, however small
  the positive limit is.
\<close>

definition clock_runs :: "(nat \<Rightarrow> timeval) \<Rightarrow> bool" where
  "clock_runs clock \<longleftrightarrow> (\<forall>T k. \<exists>j t. k \<le> j \<and> time_in_seconds (clock j) = Fin t \<and> T \<le> t)"

lemma fround_half: "0 < x \<Longrightarrow> x / 2 \<le> fround x"
proof -
  assume x: "0 < x"
  have "2 powi (ilog2 x + 1) = 2 * (2::rat) powi (ilog2 x)" by (simp add: power_int_add)
  then show ?thesis using ilog2_bounds(2) [OF x] fround_bounds(1) [OF x] by linarith
qed

lemma limit_returns:
  assumes b: "hl_byterate hlim = Fin b" "is_double b" "0 < b" and clock: "clock_runs clock"
  shows "\<exists>k' hlim'. hgap_limiter_limit clock k hlim len = Some (k', hlim')"
proof -
  let ?l = "hlim\<lparr>total_data_sent := total_data_sent hlim + len,
    n_pkt_sent := n_pkt_sent hlim + 1, n_bytes_sent := n_bytes_sent hlim + len\<rparr>"
  define N where "N = fround (of_nat (unat (n_bytes_sent ?l)))"
  have N: "0 \<le> N"
    using fround_mono [OF order_refl of_nat_0_le_iff [of "unat (n_bytes_sent ?l)"]]
    by (simp add: N_def del: of_nat_unat)
  obtain t0 where t0: "time_in_seconds (since hlim) = Fin t0"
    by (simp add: time_in_seconds_def dbl_of_int_def)
  define q where "q = N / b"
  have q: "0 \<le> q" using N b(3) by (simp add: q_def)
  obtain j t where j: "k \<le> j" "time_in_seconds (clock j) = Fin t" "t0 + 2 * (q + 1) \<le> t"
    using clock unfolding clock_runs_def by blast
  define d where "d = fround (t - t0)"
  have "(t - t0) / 2 \<le> d" using j(3) q fround_half [of "t - t0"] by (simp add: d_def)
  then have d: "q < d" using j(3) q by (simp add: field_simps)
  then have pos: "0 < d" using q by linarith
  have "N / b < d" using d by (simp add: q_def)
  then have "N \<le> b * d" using b(3) by (simp add: divide_less_eq mult.commute)
  then have "N / d \<le> b" using pos by (simp add: divide_le_eq)
  then have "fround (N / d) \<le> fround b" using N pos by (intro fround_mono) simp_all
  moreover have "hgap_limiter_get_current_rate (clock j) ?l = Fin (fround (N / d))"
    using pos t0 j(2)
    by (simp add: hgap_limiter_get_current_rate_def time_diff_def dbl_sub_def Let_def d_def
        dbl_of_nat_def N_def del: of_nat_unat)
  ultimately have "\<not> dbl_less (hl_byterate ?l) (hgap_limiter_get_current_rate (clock j) ?l)"
    using b by (simp add: is_double_def not_less)
  from limiter_wait_returns [of k j ?l clock, OF j(1) this]
  show ?thesis by (auto simp: hgap_limiter_limit_def Let_def)
qed

lemma limit_unlimited:
  "hl_byterate hlim = Fin 0 \<Longrightarrow>
    hgap_limiter_limit clock k hlim len =
      Some (k, hlim\<lparr>total_data_sent := total_data_sent hlim + len,
        n_pkt_sent := n_pkt_sent hlim + 1, n_bytes_sent := n_bytes_sent hlim + len\<rparr>)"
  by (simp add: hgap_limiter_limit_def Let_def)

subsection \<open>Properties\<close>

text \<open>C23: where the limiter returns, either no check was due (no limit set, or at most a thousand packets since
  the last one) and only the counters moved, or the last rate measured was not above the
  limit and the counters restart at zero; the total only ever grows by the bytes sent.\<close>

theorem limiter_enforces_the_rate:
  assumes "hgap_limiter_limit clock k hlim len = Some (k', hlim')"
  shows "hl_byterate hlim' = hl_byterate hlim \<and>
    total_data_sent hlim' = total_data_sent hlim + len \<and>
    (if hl_byterate hlim = Fin 0 \<or> n_pkt_sent hlim + 1 \<le> 1000
     then k' = k \<and> n_pkt_sent hlim' = n_pkt_sent hlim + 1 \<and>
       n_bytes_sent hlim' = n_bytes_sent hlim + len \<and> since hlim' = since hlim
     else n_pkt_sent hlim' = 0 \<and> n_bytes_sent hlim' = 0 \<and> since hlim' = clock (k' - 1) \<and>
       \<not> dbl_less (hl_byterate hlim) (hgap_limiter_get_current_rate (clock (k' - 2))
           (hlim\<lparr>n_bytes_sent := n_bytes_sent hlim + len\<rparr>)))"
proof -
  have rate: "hgap_limiter_get_current_rate now
      (hlim\<lparr>total_data_sent := a, n_pkt_sent := b, n_bytes_sent := c\<rparr>) =
      hgap_limiter_get_current_rate now (hlim\<lparr>n_bytes_sent := c\<rparr>)" for now a b c
    by (simp add: hgap_limiter_get_current_rate_def Let_def)
  show ?thesis
    using assms
    by (auto simp: hgap_limiter_limit_def Let_def HLIM_CHK_PERIOD_def hgap_limiter_reset_rate_def
        not_le rate dest!: limiter_wait_result split: if_splits option.splits)
qed

theorem limiter_enforces_the_rate_witness:
  "\<exists>hlim'. hgap_limiter_limit (\<lambda>k. \<lparr>tv_sec = int k, tv_usec = 0\<rparr>) 1
      (hgap_limiter_new \<lparr>tv_sec = 0, tv_usec = 0\<rparr> (Fin 100)) 7 = Some (1, hlim') \<and>
    total_data_sent hlim' = 7"
proof -
  let ?l = "hgap_limiter_new \<lparr>tv_sec = 0, tv_usec = 0\<rparr> (Fin 100)"
  obtain k' l' where l: "hgap_limiter_limit (\<lambda>k. \<lparr>tv_sec = int k, tv_usec = 0\<rparr>) 1 ?l 7 = Some (k', l')"
    by (simp add: hgap_limiter_limit_def Let_def HLIM_CHK_PERIOD_def hgap_limiter_new_def)
  show ?thesis
    using limiter_enforces_the_rate [OF l] l by (auto simp: hgap_limiter_new_def)
qed

text \<open>C24: the limiter lets the sender go on: with a positive limit it returns as soon as the clock shows,
  at some later reading, a time in which the bytes sent would be within the limit.\<close>

theorem limiter_returns_in_time:
  fixes hlim :: hgap_limiter
  assumes "hl_byterate hlim = Fin b" and "is_double b" and "0 < b"
    and "n_bytes_sent hlim + len < 2 ^ 53" and "k \<le> j"
    and "time_diff (since hlim) (clock j) = Fin d" and "0 < d"
    and "of_nat (unat (n_bytes_sent hlim + len)) \<le> b * d"
  shows "\<exists>k' hlim'. hgap_limiter_limit clock k hlim len = Some (k', hlim') \<and> k' \<le> j + 2"
proof -
  let ?l = "hlim\<lparr>total_data_sent := total_data_sent hlim + len,
    n_pkt_sent := n_pkt_sent hlim + 1, n_bytes_sent := n_bytes_sent hlim + len\<rparr>"
  have "\<not> dbl_less (hl_byterate ?l) (hgap_limiter_get_current_rate (clock j) ?l)"
    by (rule rate_below [of _ b _ d]) (use assms in simp_all)
  from limiter_wait_returns [of k j ?l clock, OF assms(5) this]
  obtain i where "i \<le> j" "limiter_wait clock k ?l = Some (i + 1)" by blast
  then show ?thesis
    using assms(5) by (simp add: hgap_limiter_limit_def Let_def)
qed

theorem limiter_returns_in_time_witness:
  "\<exists>k' hlim'. hgap_limiter_limit (\<lambda>k. \<lparr>tv_sec = int k, tv_usec = 0\<rparr>) 1
     (hgap_limiter_new \<lparr>tv_sec = 0, tv_usec = 0\<rparr> (Fin 100)) 500 = Some (k', hlim') \<and> k' \<le> 7"
proof -
  have "is_double 100" unfolding is_double_def by code_simp
  moreover have "time_diff \<lparr>tv_sec = 0, tv_usec = 0\<rparr> \<lparr>tv_sec = 5, tv_usec = 0\<rparr> = Fin 5"
    by code_simp
  ultimately show ?thesis
    using limiter_returns_in_time [of "hgap_limiter_new \<lparr>tv_sec = 0, tv_usec = 0\<rparr> (Fin 100)" 100 500 1 5
        "\<lambda>k. \<lparr>tv_sec = int k, tv_usec = 0\<rparr>" 5]
    by (simp add: hgap_limiter_new_def)
qed

end
