(* ===== verification/Sender.thy ===== *)
theory Sender
  imports Proto Limiter
begin

section \<open>The sender: \<open>src/lib/sender.h\<close>, \<open>src/lib/sender.c\<close>\<close>

text \<open>
  A sender wraps a socket, a limiter and the keepalive thread. The system is a parameter:
  \<open>env_clock k\<close> is the \<open>k\<close>-th reading of the clock, \<open>env_sendto k d\<close> the result of the \<open>k\<close>-th
  \<open>sendto\<close>, of the datagram \<open>d\<close>. The state of the model also records the datagrams that the
  system took (\<open>hs_wire\<close>) and the numbers of calls and readings so far.
\<close>

record sender_env =
  env_clock :: "nat \<Rightarrow> timeval"
  env_sendto :: "nat \<Rightarrow> bytes \<Rightarrow> int"

record hgap_sender =
  hs_dst :: "u32 \<times> 16 word"
  hs_keepalive :: u32
  hs_lim :: hgap_limiter
  hs_cont :: bool
  hs_wire :: "bytes list"
  hs_calls :: nat
  hs_reads :: nat

text \<open>
  \<open>sock_ok\<close>, \<open>dst\<close> and \<open>thread_ok\<close> are what \<open>socket\<close>, \<open>inet_addr\<close> and \<open>pthread_create\<close> give;
  \<open>inet_addr\<close> answers a name it cannot read with \<open>INADDR_NONE\<close>, which is not zero.
\<close>

definition INADDR_NONE :: u32 where "INADDR_NONE = 0xffffffff"

definition hgap_sender_new ::
  "sender_env \<Rightarrow> bool \<Rightarrow> u32 \<Rightarrow> bool \<Rightarrow> 16 word \<Rightarrow> u64 \<Rightarrow> u32 \<Rightarrow> hgap_sender option" where
  "hgap_sender_new env sock_ok dst thread_ok prt rate ka =
     (let lm = hgap_limiter_new (env_clock env 0) (dbl_of_nat (unat rate))
      in if \<not> sock_ok then None
         else if dst = 0 then None
         else let hs = \<lparr>hs_dst = (dst, prt), hs_keepalive = ka, hs_lim = lm, hs_cont = False,
                        hs_wire = [], hs_calls = 0, hs_reads = 1\<rparr>
              in if ka \<noteq> 0 then (if \<not> thread_ok then None else Some (hs\<lparr>hs_cont := True\<rparr>))
                 else Some hs)"

definition hgap_sender_send ::
  "sender_env \<Rightarrow> hgap_sender \<Rightarrow> bytes \<Rightarrow> u64 \<Rightarrow> (int \<times> hgap_sender) outcome" where
  "hgap_sender_send env hs pkt sz =
     obind (mem_read (unat sz) pkt) (\<lambda>d.
       let ret = env_sendto env (hs_calls hs) d;
           hs1 = hs\<lparr>hs_calls := hs_calls hs + 1\<rparr>
       in if ret \<ge> 0
          then let hs2 = hs1\<lparr>hs_wire := hs_wire hs1 @ [d]\<rparr>
               in case hgap_limiter_limit (env_clock env) (hs_reads hs2) (hs_lim hs2) (of_int ret) of
                    None \<Rightarrow> Loop
                  | Some (k, lm) \<Rightarrow> Ret (ret, hs2\<lparr>hs_reads := k, hs_lim := lm\<rparr>)
          else Ret (ret, hs1))"

text \<open>The loop of \<open>hgap_sender_control\<close>, with the number of turns left.\<close>

fun control_salve :: "sender_env \<Rightarrow> nat \<Rightarrow> hgap_sender \<Rightarrow> bytes \<Rightarrow> u64 \<Rightarrow> (int \<times> hgap_sender) outcome" where
  "control_salve env 0 hs pkt sz = Ret (0, hs)"
| "control_salve env (Suc n) hs pkt sz =
     obind (hgap_sender_send env hs pkt sz) (\<lambda>(ret, hs').
       if ret < 0 then Ret (ret, hs') else control_salve env n hs' pkt sz)"

definition hgap_sender_control ::
  "sender_env \<Rightarrow> hgap_sender \<Rightarrow> bytes \<Rightarrow> u64 \<Rightarrow> (int \<times> hgap_sender) outcome" where
  "hgap_sender_control env hs pkt sz = control_salve env HGAP_SALVE_LEN hs pkt sz"

text \<open>A null sender is dereferenced.\<close>

definition hgap_sender_free :: "hgap_sender option \<Rightarrow> hgap_sender outcome" where
  "hgap_sender_free hs =
     (case hs of
        None \<Rightarrow> Undef
      | Some s \<Rightarrow> Ret (if hs_cont s then s\<lparr>hs_cont := False\<rparr> else s))"

subsection \<open>The keepalive thread\<close>

definition keepalive_sleep_us :: "u32 \<Rightarrow> nat" where
  "keepalive_sleep_us ka =
     (if ka \<ge> 1000 then unat (ka div 1000) * 1000000 else unat (ka * 1000))"

text \<open>\<open>conts\<close> are the values the thread reads from the shared flag.\<close>

fun keepalive_loop :: "sender_env \<Rightarrow> bytes \<Rightarrow> bool list \<Rightarrow> hgap_sender \<Rightarrow> hgap_sender outcome" where
  "keepalive_loop env ka_pkt [] hs = Ret hs"
| "keepalive_loop env ka_pkt (cont # conts) hs =
     (if \<not> cont then Ret hs
      else obind (hgap_sender_send env hs ka_pkt HGAP_HEADER_LEN) (\<lambda>(ret, hs').
             CHK (ret \<ge> 0) (keepalive_loop env ka_pkt conts hs')))"

definition keepalive_loop_thread :: "sender_env \<Rightarrow> bool list \<Rightarrow> hgap_sender \<Rightarrow> hgap_sender outcome" where
  "keepalive_loop_thread env conts hs =
     obind (hgap_write_header hgap_header_keepalive (replicate 24 0)) (\<lambda>ka_pkt.
       keepalive_loop env ka_pkt conts hs)"

subsection \<open>Lemmas\<close>

text \<open>A network that takes every datagram, and a rate limit the limiter can wait for.\<close>

definition sends_all :: "sender_env \<Rightarrow> bool" where
  "sends_all env \<longleftrightarrow> (\<forall>k d. env_sendto env k d = int (length d))"

definition rate_ok :: "sender_env \<Rightarrow> dbl \<Rightarrow> bool" where
  "rate_ok env rate \<longleftrightarrow>
     (case rate of Fin b \<Rightarrow> b = 0 \<or> (is_double b \<and> 0 < b \<and> clock_runs (env_clock env)) | _ \<Rightarrow> False)"

definition good_env :: "sender_env \<Rightarrow> hgap_sender \<Rightarrow> bool" where
  "good_env env hs \<longleftrightarrow> sends_all env \<and> rate_ok env (hl_byterate (hs_lim hs))"

lemma send_ok:
  assumes env: "good_env env hs" and sz: "unat sz \<le> length pkt"
  shows "\<exists>hs'. hgap_sender_send env hs pkt sz = Ret (int (unat sz), hs') \<and> good_env env hs' \<and>
    hs_wire hs' = hs_wire hs @ [take (unat sz) pkt] \<and> hs_cont hs' = hs_cont hs"
proof -
  have len: "length (take (unat sz) pkt) = unat sz" using sz by simp
  obtain p where p: "hgap_limiter_limit (env_clock env) (hs_reads hs) (hs_lim hs)
      (of_int (int (unat sz))) = Some p"
    using env limit_unlimited limit_returns
    by (fastforce simp: good_env_def rate_ok_def split: dbl.splits)
  then have "hl_byterate (hs_lim hs) = hl_byterate (snd p)"
    by (auto simp: hgap_limiter_limit_def Let_def hgap_limiter_reset_rate_def
        split: if_splits option.splits)
  then show ?thesis
    using p env len sz
    by (cases p) (auto simp: hgap_sender_send_def mem_read_def Let_def good_env_def sends_all_def)
qed

lemma salve_ok:
  assumes "good_env env hs" "unat sz \<le> length pkt"
  shows "\<exists>hs'. control_salve env n hs pkt sz = Ret (0, hs') \<and> good_env env hs' \<and>
    hs_wire hs' = hs_wire hs @ replicate n (take (unat sz) pkt) \<and> hs_cont hs' = hs_cont hs"
  using assms(1)
proof (induction n arbitrary: hs)
  case 0
  then show ?case by simp
next
  case (Suc n)
  obtain hs1 where hs1: "hgap_sender_send env hs pkt sz = Ret (int (unat sz), hs1)" "good_env env hs1"
    "hs_wire hs1 = hs_wire hs @ [take (unat sz) pkt]" "hs_cont hs1 = hs_cont hs"
    using send_ok [OF Suc.prems assms(2)] by blast
  have "\<not> int (unat sz) < 0" by simp
  then have "control_salve env (Suc n) hs pkt sz = control_salve env n hs1 pkt sz"
    using hs1(1) by (simp del: int_nat_eq)
  then show ?case using Suc.IH [OF hs1(2)] hs1(3,4) by auto
qed

lemmas control_ok = salve_ok [where n = HGAP_SALVE_LEN, folded hgap_sender_control_def]

subsection \<open>Properties\<close>

text \<open>A control packet is sent as a salve: where the system takes all datagrams, exactly 32 equal
  copies of the packet's bytes reach the wire and the call returns zero.\<close>

theorem control_sends_a_salve:
  assumes "good_env env hs" and "unat sz \<le> length pkt"
  shows "\<exists>hs'. hgap_sender_control env hs pkt sz = Ret (0, hs') \<and>
    hs_wire hs' = hs_wire hs @ replicate 32 (take (unat sz) pkt)"
  using control_ok [OF assms] by (auto simp: HGAP_SALVE_LEN_def)

theorem control_sends_a_salve_witness:
  "\<exists>hs hs'. hgap_sender_new \<lparr>env_clock = \<lambda>_. \<lparr>tv_sec = 0, tv_usec = 0\<rparr>, env_sendto = \<lambda>_ d. int (length d)\<rparr>
       True 1 True 11011 0 0 = Some hs \<and>
     hgap_sender_control \<lparr>env_clock = \<lambda>_. \<lparr>tv_sec = 0, tv_usec = 0\<rparr>, env_sendto = \<lambda>_ d. int (length d)\<rparr>
       hs [1, 2, 3] 2 = Ret (0, hs') \<and> hs_wire hs' = replicate 32 [1, 2]"
proof -
  let ?env = "\<lparr>env_clock = \<lambda>_. \<lparr>tv_sec = 0, tv_usec = 0\<rparr>, env_sendto = \<lambda>_ d. int (length d)\<rparr>"
  obtain hs where hs: "hgap_sender_new ?env True 1 True 11011 0 0 = Some hs"
    "good_env ?env hs" "hs_wire hs = []"
    by (auto simp: hgap_sender_new_def Let_def good_env_def sends_all_def rate_ok_def hgap_limiter_new_def
        dbl_of_nat_def)
  then show ?thesis using control_sends_a_salve [OF hs(2), of 2 "[1, 2, 3]"] by auto
qed

text \<open>A salve stops at the first datagram the system refuses and hands on its error; the
  copies sent before stay sent.\<close>

theorem salve_stops_at_the_first_error:
  assumes "hgap_sender_control env hs pkt sz = Ret (ret, hs')"
  shows "ret \<le> 0 \<and> (\<exists>n \<le> 32. hs_wire hs' = hs_wire hs @ replicate n (take (unat sz) pkt) \<and>
    (ret = 0 \<longleftrightarrow> n = 32))"
proof -
  have "control_salve env m hs pkt sz = Ret (ret, hs') \<Longrightarrow> ret \<le> 0 \<and>
    (\<exists>n \<le> m. hs_wire hs' = hs_wire hs @ replicate n (take (unat sz) pkt) \<and> (ret = 0 \<longleftrightarrow> n = m))"
    for m
  proof (induction m arbitrary: hs)
    case 0
    then show ?case by simp
  next
    case (Suc m)
    obtain r hs1 where r: "hgap_sender_send env hs pkt sz = Ret (r, hs1)"
      and rest: "(if r < 0 then Ret (r, hs1) else control_salve env m hs1 pkt sz) = Ret (ret, hs')"
      using Suc.prems by (auto simp: obind_Ret_iff)
    have wire: "hs_wire hs1 = hs_wire hs @ (if r < 0 then [] else [take (unat sz) pkt])"
      using r by (auto simp: hgap_sender_send_def obind_Ret_iff mem_read_Ret_iff Let_def
          split: if_splits option.splits)
    show ?case
    proof (cases "r < 0")
      case True
      then show ?thesis using rest wire by auto
    next
      case False
      then obtain n where "ret \<le> 0" "n \<le> m" "ret = 0 \<longleftrightarrow> n = m"
        "hs_wire hs' = hs_wire hs1 @ replicate n (take (unat sz) pkt)"
        using Suc.IH [of hs1] rest by auto
      then show ?thesis
        using wire False by (intro conjI exI [of _ "Suc n"]) simp_all
    qed
  qed
  from this [of HGAP_SALVE_LEN] assms show ?thesis
    by (simp add: hgap_sender_control_def HGAP_SALVE_LEN_def)
qed

theorem salve_stops_at_the_first_error_witness:
  "\<exists>hs'. hgap_sender_control
      \<lparr>env_clock = \<lambda>_. \<lparr>tv_sec = 0, tv_usec = 0\<rparr>, env_sendto = \<lambda>k d. if k < 2 then 1 else -1\<rparr>
      \<lparr>hs_dst = (1, 1), hs_keepalive = 0, hs_lim = hgap_limiter_new \<lparr>tv_sec = 0, tv_usec = 0\<rparr> (Fin 0),
        hs_cont = False, hs_wire = [], hs_calls = 0, hs_reads = 0\<rparr> [7] 1 = Ret (-1, hs') \<and>
    (\<exists>n \<le> 32. hs_wire hs' = replicate n [7] \<and> n \<noteq> 32)"
proof -
  let ?env = "\<lparr>env_clock = \<lambda>_. \<lparr>tv_sec = 0, tv_usec = 0\<rparr>, env_sendto = \<lambda>k d. if k < 2 then 1 else -1\<rparr>"
  let ?hs = "\<lparr>hs_dst = (1, 1), hs_keepalive = 0,
    hs_lim = hgap_limiter_new \<lparr>tv_sec = 0, tv_usec = 0\<rparr> (Fin 0),
    hs_cont = False, hs_wire = [], hs_calls = 0, hs_reads = 0\<rparr>"
  obtain hs' where r: "hgap_sender_control ?env ?hs [7] 1 = Ret (-1, hs')"
    by (simp add: hgap_sender_control_def HGAP_SALVE_LEN_def numeral_eq_Suc hgap_sender_send_def
        mem_read_def Let_def hgap_limiter_limit_def hgap_limiter_new_def)
  show ?thesis using salve_stops_at_the_first_error [OF r] r by auto
qed

text \<open>The keepalive thread sleeps the configured number of milliseconds below one second; from
  there on the fraction of a second is cut off, so the pause is up to a second too short.\<close>

theorem keepalive_pause:
  "keepalive_sleep_us ka = (if unat ka < 1000 then unat ka * 1000 else unat ka div 1000 * 1000000) \<and>
   keepalive_sleep_us ka \<le> unat ka * 1000 \<and> unat ka * 1000 < keepalive_sleep_us ka + 1000000"
proof -
  have "unat (ka * 1000) = unat ka * 1000" if "unat ka < 1000"
    using that by (simp add: unat_word_ariths(2))
  then have eq: "keepalive_sleep_us ka =
      (if unat ka < 1000 then unat ka * 1000 else unat ka div 1000 * 1000000)"
    by (simp add: keepalive_sleep_us_def word_le_nat_alt unat_div)
  have "unat ka = unat ka div 1000 * 1000 + unat ka mod 1000" "unat ka mod 1000 < 1000"
    by simp_all
  then show ?thesis using eq by (simp split: if_split) linarith
qed

text \<open>An address that \<open>inet_addr\<close> cannot read, such as a host name, is not noticed: the sender is
  created with the broadcast address as its destination.\<close>

theorem unreadable_address_is_accepted:
  "\<exists>hs. hgap_sender_new env True INADDR_NONE True prt rate 0 = Some hs \<and>
     fst (hs_dst hs) = 0xffffffff"
  by (simp add: hgap_sender_new_def Let_def INADDR_NONE_def)

end
