(* ===== verification/Config.thy ===== *)
theory Config
  imports Proto Double
begin

section \<open>The configuration: \<open>src/lib/hairgap.h\<close>, \<open>src/lib/config.c\<close>\<close>

text \<open>
  \<open>struct hgap_config\<close> with files of any type \<open>'f\<close> (\<open>None\<close> is a null \<open>FILE *\<close>) and addresses as
  strings. The calls into the C library are parameters: \<open>ferror\<close> says whether a file is in an
  error state, \<open>resolves\<close> whether \<open>getaddrinfo\<close> accepts a name.
\<close>

record 'f hgap_config =
  cfg_in :: "'f option"
  cfg_out :: "'f option"
  n_pkt :: u32
  pkt_size :: u64
  redund :: dbl
  addr :: "string option"
  port :: "16 word"
  byterate :: dbl
  keepalive :: u64
  timeout :: u64
  mem_limit :: u64

text \<open>The configuration is written over whatever it held; a null pointer is refused.\<close>

definition hgap_defaults ::
  "'f \<Rightarrow> 'f \<Rightarrow> 'f hgap_config option \<Rightarrow> hgap_err \<times> 'f hgap_config option" where
  "hgap_defaults stdin stdout config =
     (case config of
        None \<Rightarrow> (HGAP_ERR_NO_CONFIG, None)
      | Some _ \<Rightarrow>
          (HGAP_SUCCESS, Some
            \<lparr>cfg_in = Some stdin, cfg_out = Some stdout, n_pkt = 1000, pkt_size = 1400,
             redund = Fin (fround (12 / 10)), addr = None, port = 11011, byterate = Fin 0,
             keepalive = 500, timeout = 1 * 1000 * 1000, mem_limit = 100 * 1024 * 1024\<rparr>))"

definition check_addr :: "(string \<Rightarrow> bool) \<Rightarrow> string option \<Rightarrow> hgap_err" where
  "check_addr resolves a =
     (case a of
        None \<Rightarrow> HGAP_ERR_INVALID_ADDR
      | Some name \<Rightarrow> if \<not> resolves name then HGAP_ERR_INVALID_ADDR else HGAP_SUCCESS)"

definition check_file :: "('f \<Rightarrow> bool) \<Rightarrow> 'f option \<Rightarrow> hgap_err" where
  "check_file ferror file =
     (case file of
        None \<Rightarrow> HGAP_ERR_BAD_FD
      | Some f \<Rightarrow> if ferror f then HGAP_ERR_BAD_FD else HGAP_SUCCESS)"

definition hgap_check_config_sender ::
  "(string \<Rightarrow> bool) \<Rightarrow> ('f \<Rightarrow> bool) \<Rightarrow> 'f hgap_config \<Rightarrow> hgap_err" where
  "hgap_check_config_sender resolves ferror config =
     (if pkt_size config \<le> HGAP_HEADER_LEN then HGAP_ERR_MTU_TOO_SMALL
      else if pkt_size config > HGAP_MAX_PKT_SIZE then HGAP_ERR_MTU_TOO_BIG
      else let ret = check_addr resolves (addr config)
           in if ret \<noteq> HGAP_SUCCESS then ret
              else if check_file ferror (cfg_in config) \<noteq> HGAP_SUCCESS then HGAP_ERR_BAD_IN_FD
              else if n_pkt config < 1 \<or> ucast (n_pkt config) > HGAP_MAX_N_PKT
              then HGAP_ERR_BAD_N_PKT
              else if dbl_less (redund config) (Fin 1) then HGAP_ERR_BAD_REDUND
              else HGAP_SUCCESS)"

definition hgap_check_config_receiver ::
  "(string \<Rightarrow> bool) \<Rightarrow> ('f \<Rightarrow> bool) \<Rightarrow> 'f hgap_config \<Rightarrow> hgap_err" where
  "hgap_check_config_receiver resolves ferror config =
     (if check_file ferror (cfg_out config) \<noteq> HGAP_SUCCESS then HGAP_ERR_BAD_OUT_FD
      else check_addr resolves (addr config))"

text \<open>The size of the pieces \<open>hgap_send\<close> reads, in \<open>size_t\<close> arithmetic.\<close>

definition send_buf_size :: "'f hgap_config \<Rightarrow> u64" where
  "send_buf_size config = ucast (n_pkt config) * (pkt_size config - HGAP_HEADER_LEN)"

text \<open>The element size of \<open>chan_in2enc\<close>: a \<open>struct sized_buf\<close>, 16 bytes, and a piece.\<close>

definition send_elt_size :: "'f hgap_config \<Rightarrow> u64" where
  "send_elt_size config = 16 + send_buf_size config"

subsection \<open>Lemmas\<close>

lemma check_addr_SUCCESS [simp]:
  "check_addr resolves a = HGAP_SUCCESS \<longleftrightarrow> (\<exists>name. a = Some name \<and> resolves name)"
  by (auto simp: check_addr_def split: option.splits)

lemma check_file_SUCCESS [simp]:
  "check_file ferror f = HGAP_SUCCESS \<longleftrightarrow> (\<exists>x. f = Some x \<and> \<not> ferror x)"
  by (auto simp: check_file_def split: option.splits)

lemma n_pkt_bounds:
  "\<not> (n < 1 \<or> ucast (n :: u32) > HGAP_MAX_N_PKT) \<longleftrightarrow> 1 \<le> unat n \<and> unat n \<le> 64000"
proof -
  have "unat (ucast n :: u64) = unat n"
    using unsigned_less [of n, where 'a = nat] by (simp add: unsigned_ucast_eq take_bit_nat_eq_self)
  then show ?thesis
    by (simp add: word_less_nat_alt HGAP_MAX_N_PKT_def not_less) linarith
qed

lemma sender_config_SUCCESS:
  "hgap_check_config_sender resolves ferror config = HGAP_SUCCESS \<longleftrightarrow>
     24 < unat (pkt_size config) \<and> unat (pkt_size config) \<le> 1500 \<and>
     (\<exists>name. addr config = Some name \<and> resolves name) \<and>
     (\<exists>f. cfg_in config = Some f \<and> \<not> ferror f) \<and>
     1 \<le> unat (n_pkt config) \<and> unat (n_pkt config) \<le> 64000 \<and>
     \<not> dbl_less (redund config) (Fin 1)"
proof -
  have size: "pkt_size config \<le> HGAP_HEADER_LEN \<longleftrightarrow> \<not> 24 < unat (pkt_size config)"
    "HGAP_MAX_PKT_SIZE < pkt_size config \<longleftrightarrow> \<not> unat (pkt_size config) \<le> 1500"
    by (auto simp: word_le_nat_alt word_less_nat_alt HGAP_MAX_PKT_SIZE_def)
  show ?thesis
    using n_pkt_bounds [of "n_pkt config"]
    by (simp add: hgap_check_config_sender_def Let_def size) blast
qed

lemma send_buf_size_bounds:
  assumes "hgap_check_config_sender resolves ferror config = HGAP_SUCCESS"
  shows "unat (send_buf_size config) = unat (n_pkt config) * (unat (pkt_size config) - 24)"
    and "0 < unat (send_buf_size config)" and "unat (send_buf_size config) \<le> 94464000"
proof -
  have c: "24 < unat (pkt_size config)" "unat (pkt_size config) \<le> 1500"
    "1 \<le> unat (n_pkt config)" "unat (n_pkt config) \<le> 64000"
    using assms by (simp_all add: sender_config_SUCCESS)
  have p: "unat (pkt_size config - HGAP_HEADER_LEN) = unat (pkt_size config) - 24"
    using c by (simp add: unat_sub word_le_nat_alt)
  have n: "unat (ucast (n_pkt config) :: u64) = unat (n_pkt config)"
    using c(4) by (simp add: unsigned_ucast_eq take_bit_nat_eq_self)
  have le: "unat (n_pkt config) * (unat (pkt_size config) - 24) \<le> 64000 * 1476"
    using c by (intro mult_le_mono) simp_all
  then show eq: "unat (send_buf_size config) = unat (n_pkt config) * (unat (pkt_size config) - 24)"
    by (simp add: send_buf_size_def unat_word_ariths(2) p n)
  show "0 < unat (send_buf_size config)" "unat (send_buf_size config) \<le> 94464000"
    using c le by (simp_all add: eq)
qed

subsection \<open>Properties\<close>

text \<open>The sender accepts a configuration exactly when the packet size is above the header's and at
  most 1500, the address resolves, the input file is open and without error, a chunk has 1 to
  64000 packets and the redundancy is not below 1 (a NaN is let through: it is not below 1).\<close>

theorem sender_config_accepted:
  "hgap_check_config_sender resolves ferror config = HGAP_SUCCESS \<longleftrightarrow>
     24 < unat (pkt_size config) \<and> unat (pkt_size config) \<le> 1500 \<and>
     (\<exists>name. addr config = Some name \<and> resolves name) \<and>
     (\<exists>f. cfg_in config = Some f \<and> \<not> ferror f) \<and>
     1 \<le> unat (n_pkt config) \<and> unat (n_pkt config) \<le> 64000 \<and>
     (redund config = NaN \<or> redund config = Infty False \<or> (\<exists>r \<ge> 1. redund config = Fin r))"
proof -
  have "\<not> dbl_less (redund config) (Fin 1) \<longleftrightarrow>
      redund config = NaN \<or> redund config = Infty False \<or> (\<exists>r \<ge> 1. redund config = Fin r)"
    by (cases "redund config") (auto simp: not_less)
  then show ?thesis by (simp only: sender_config_SUCCESS)
qed

text \<open>C25: for an accepted configuration the size of the pieces the sender reads does not wrap: it is
  the number of packets times the payload size, positive, and within the limit on chunks
  the receiver accepts.\<close>

theorem sender_chunks_are_receivable:
  assumes "hgap_check_config_sender resolves ferror config = HGAP_SUCCESS"
  shows "unat (send_buf_size config) = unat (n_pkt config) * (unat (pkt_size config) - 24) \<and>
    0 < unat (send_buf_size config) \<and> send_buf_size config < HGAP_MAX_CHUNK_SIZE"
  using send_buf_size_bounds [OF assms] by (simp add: word_less_nat_alt)

theorem sender_chunks_are_receivable_witness:
  "unat (send_buf_size \<lparr>cfg_in = Some ''in'', cfg_out = None, n_pkt = 1000, pkt_size = 1400,
      redund = Fin 2, addr = Some ''10.0.0.2'', port = 11011, byterate = Fin 0, keepalive = 500,
      timeout = 0, mem_limit = 0\<rparr>) = 1376000"
  using sender_chunks_are_receivable [of "\<lambda>_. True" "\<lambda>_. False"
      "\<lparr>cfg_in = Some ''in'', cfg_out = None, n_pkt = 1000, pkt_size = 1400,
      redund = Fin 2, addr = Some ''10.0.0.2'', port = 11011, byterate = Fin 0, keepalive = 500,
      timeout = 0, mem_limit = 0\<rparr>"]
  by (simp add: sender_config_SUCCESS)

text \<open>The defaults are a valid configuration for both sides once an address is set, and a null
  pointer is refused.\<close>

theorem defaults_need_only_an_address:
  "hgap_defaults stdin stdout None = (HGAP_ERR_NO_CONFIG, None) \<and>
   (\<exists>d. hgap_defaults stdin stdout (Some c) = (HGAP_SUCCESS, Some d) \<and>
      (hgap_check_config_sender resolves ferror (d\<lparr>addr := Some a\<rparr>) = HGAP_SUCCESS \<longleftrightarrow>
         resolves a \<and> \<not> ferror stdin) \<and>
      (hgap_check_config_receiver resolves ferror (d\<lparr>addr := Some a\<rparr>) = HGAP_SUCCESS \<longleftrightarrow>
         resolves a \<and> \<not> ferror stdout) \<and>
      hgap_check_config_sender resolves ferror d = HGAP_ERR_INVALID_ADDR)"
proof -
  have "\<not> fround (12 / 10) < 1" by code_simp
  then show ?thesis
    by (auto simp: hgap_defaults_def sender_config_SUCCESS hgap_check_config_receiver_def
        hgap_check_config_sender_def check_addr_def HGAP_HEADER_LEN_def HGAP_MAX_PKT_SIZE_def
        HGAP_MAX_N_PKT_def)
qed

end
