(* ===== verification/SendLoop.thy ===== *)
theory SendLoop
  imports Encoder Sender Config
begin

section \<open>The sending threads: \<open>src/lib/hgap_send.c\<close>\<close>

text \<open>
  Three threads: \<open>read_loop\<close> cuts the input into pieces, \<open>encode_loop\<close> turns each into a chunk,
  \<open>send_loop\<close> sends packets of each chunk until the redundancy is reached. As in theory
  \<open>ReceiveLoop\<close> a thread is a function of the results of its channel operations, one entry per
  turn of its loop. The two loops whose end is not obvious are recursive functions: the
  one of \<open>read_chunk\<close> with a termination proof, the one that emits packets as a partial function.
\<close>

subsection \<open>The reader\<close>

text \<open>
  A \<open>FILE\<close> of the C library: what is left to read, the two indicators, and the point at which
  reading fails, if any. \<open>fread\<close> gives as many bytes as asked for unless it meets the end or
  the failure, and then sets the indicator.
\<close>

record infile =
  f_rest :: bytes
  f_fail_at :: "nat option"
  f_eof :: bool
  f_err :: bool

definition fread :: "nat \<Rightarrow> infile \<Rightarrow> bytes \<times> infile" where
  "fread n f =
     (let fails = (case f_fail_at f of None \<Rightarrow> False | Some k \<Rightarrow> k \<le> length (f_rest f));
          avail = (case f_fail_at f of None \<Rightarrow> length (f_rest f) | Some k \<Rightarrow> min k (length (f_rest f)));
          d = take (min n avail) (f_rest f);
          short = length d < n
      in (d, f\<lparr>f_rest := drop (length d) (f_rest f),
               f_fail_at := map_option (\<lambda>k. k - length d) (f_fail_at f),
               f_eof := f_eof f \<or> (short \<and> \<not> fails), f_err := f_err f \<or> (short \<and> fails)\<rparr>))"

function read_chunk_loop :: "nat \<Rightarrow> infile \<Rightarrow> bytes \<Rightarrow> bytes \<times> infile" where
  "read_chunk_loop to_read f got =
     (if to_read > 0
      then let (d, f') = fread to_read f
           in if length d > 0 then read_chunk_loop (to_read - length d) f' (got @ d) else (got, f')
      else (got, f))"
  by pat_completeness auto

termination
  by (relation "measure (\<lambda>(to_read, f, got). to_read)") auto

declare read_chunk_loop.simps [simp del]

text \<open>The buffer after the call: the bytes read over what the slot held, and the count.\<close>

definition read_chunk :: "infile \<Rightarrow> nat \<Rightarrow> bytes \<Rightarrow> sized_buf \<times> infile" where
  "read_chunk f n slot =
     (let (got, f') = read_chunk_loop n f []
      in (\<lparr>sb_size = of_nat (length got), sb_data = Some (got @ drop (length got) slot)\<rparr>, f'))"

text \<open>One turn: whether the reservation succeeded, what the slot held, whether the send succeeded.\<close>

record read_turn =
  rt_reserved :: bool
  rt_slot :: bytes
  rt_sent :: bool

record read_state =
  rl_out :: "sized_buf list"     \<comment> \<open>sent into \<open>chan_in2enc\<close>\<close>
  rl_ret :: retval

definition read_closing :: "bool \<times> bool \<Rightarrow> hgap_err \<Rightarrow> read_state \<Rightarrow> read_state" where
  "read_closing pill retval st =
     (if \<not> fst pill then st\<lparr>rl_ret := Retval (err_num retval)\<rparr>
      else if snd pill then st\<lparr>rl_out := rl_out st @ [SBUF_NULL], rl_ret := Retval (err_num retval)\<rparr>
      else st\<lparr>rl_ret := Retval (err_num HGAP_ERR_IPC)\<rparr>)"

fun read_turns ::
  "nat \<Rightarrow> bool \<times> bool \<Rightarrow> read_turn list \<Rightarrow> infile \<Rightarrow> read_state \<Rightarrow> read_state outcome" where
  "read_turns buf_size pill [] f st = Ret st"
| "read_turns buf_size pill (t # ts) f st =
     CHK (rt_reserved t)
       (let (buf, f') = read_chunk f buf_size (rt_slot t)
        in if f_err f' then Ret (read_closing pill HGAP_ERR_FILE_READ st)
           else if \<not> rt_sent t then Ret (read_closing pill HGAP_ERR_IPC st)
           else let st1 = st\<lparr>rl_out := rl_out st @ [buf]\<rparr>
                in if f_eof f' then Ret (read_closing pill HGAP_SUCCESS st1)
                   else read_turns buf_size pill ts f' st1)"

definition read_loop ::
  "u64 \<Rightarrow> bool \<times> bool \<Rightarrow> read_turn list \<Rightarrow> infile option \<Rightarrow> read_state outcome" where
  "read_loop elt_size pill turns in_file =
     (let buf_size = unat (elt_size - 16); st = \<lparr>rl_out = [], rl_ret = Waiting\<rparr>
      in case in_file of
           None \<Rightarrow> Ret (read_closing pill HGAP_ERR_BAD_IN_FD st)
         | Some f \<Rightarrow> read_turns buf_size pill turns f st)"

subsection \<open>The encoder thread\<close>

record encode_turn =
  et_peek :: "sized_buf option"
  et_sent :: bool

text \<open>\<open>None\<close> in the output is the null chunk that ends the transfer.\<close>

record 's encode_state =
  el_enc :: hgap_encoder
  el_out :: "'s enc_chunk option list"   \<comment> \<open>sent into \<open>chan_enc2net\<close>\<close>
  el_ret :: retval

definition encode_closing :: "bool \<Rightarrow> hgap_err \<Rightarrow> 's encode_state \<Rightarrow> 's encode_state" where
  "encode_closing pill_sent retval st =
     (if pill_sent then st\<lparr>el_out := el_out st @ [None], el_ret := Retval (err_num retval)\<rparr>
      else st\<lparr>el_ret := Retval (err_num HGAP_ERR_IPC)\<rparr>)"

fun encode_loop ::
  "'s wirehair \<Rightarrow> bool \<Rightarrow> encode_turn list \<Rightarrow> 's encode_state \<Rightarrow> 's encode_state outcome" where
  "encode_loop W pill [] st = Ret st"
| "encode_loop W pill (t # ts) st =
     (case et_peek t of
        None \<Rightarrow> Ret (encode_closing pill HGAP_SUCCESS st)
      | Some to_enc \<Rightarrow>
          (case sb_data to_enc of
             None \<Rightarrow> Ret (encode_closing pill HGAP_SUCCESS st)
           | Some data \<Rightarrow>
               obind (hgap_enc_chunk_init W (el_enc st) hgap_enc_chunk_new data (sb_size to_enc))
                 (\<lambda>(ret, enc, chunk).
                   let st1 = st\<lparr>el_enc := enc\<rparr>
                   in if ret \<noteq> HGAP_SUCCESS then Ret (encode_closing pill ret st1)
                      else if \<not> et_sent t then Ret (encode_closing pill HGAP_ERR_IPC st1)
                      else encode_loop W pill ts (st1\<lparr>el_out := el_out st1 @ [Some chunk]\<rparr>))))"

definition encode_start :: "u64 \<Rightarrow> 's encode_state" where
  "encode_start psz = \<lparr>el_enc = hgap_encoder_new psz, el_out = [], el_ret = Waiting\<rparr>"

subsection \<open>The sending thread\<close>

record send_state =
  sl_sender :: hgap_sender
  sl_pkt :: bytes             \<comment> \<open>the packet buffer\<close>
  sl_data_sent :: u64
  sl_ret :: hgap_err
  sl_more :: bool

text \<open>One turn of the loop that emits packets; \<open>cur_redund\<close> is the first result.\<close>

definition emit_turn ::
  "sender_env \<Rightarrow> 's wirehair \<Rightarrow> u64 \<Rightarrow> 's enc_chunk \<Rightarrow> send_state \<Rightarrow>
     (dbl \<times> 's enc_chunk \<times> send_state) outcome" where
  "emit_turn env W psz chunk st =
     obind (hgap_enc_chunk_emit W chunk (sl_pkt st) psz) (\<lambda>(cur_redund, chunk', pkt', send_size).
       let st1 = st\<lparr>sl_pkt := pkt'\<rparr>
       in if dbl_less cur_redund (Fin 0)
          then Ret (cur_redund, chunk', st1\<lparr>sl_ret := HGAP_ERR_WIREHAIR_ERROR, sl_more := False\<rparr>)
          else obind (hgap_sender_send env (sl_sender st1) pkt' send_size) (\<lambda>(sent, hs).
                 Ret (cur_redund, chunk',
                   st1\<lparr>sl_sender := hs, sl_data_sent := sl_data_sent st1 + of_int sent\<rparr>)))"

partial_function (option) emit_loop ::
  "sender_env \<Rightarrow> 's wirehair \<Rightarrow> dbl \<Rightarrow> u64 \<Rightarrow> 's enc_chunk \<Rightarrow> send_state \<Rightarrow>
     ('s enc_chunk \<times> send_state) outcome option" where
  "emit_loop env W wanted psz chunk st =
     (case emit_turn env W psz chunk st of
        Ret (cur_redund, chunk', st') \<Rightarrow>
          if dbl_less cur_redund wanted then emit_loop env W wanted psz chunk' st'
          else Some (Ret (chunk', st'))
      | Exit \<Rightarrow> Some Exit
      | Undef \<Rightarrow> Some Undef
      | Loop \<Rightarrow> Some Loop)"

text \<open>
  The loop over the chunks, with what \<open>channel_recv\<close> gave each time: \<open>None\<close> where it failed,
  else the chunk or the null pointer. It ends, gives up on the channel, or waits.
\<close>

datatype chunks_end = Chunks_done | Chunks_failed | Chunks_wait

fun send_chunks ::
  "sender_env \<Rightarrow> 's wirehair \<Rightarrow> dbl \<Rightarrow> u64 \<Rightarrow> 's enc_chunk option option list \<Rightarrow> send_state \<Rightarrow>
     (chunks_end \<times> send_state) outcome" where
  "send_chunks env W wanted psz [] st = Ret (Chunks_wait, st)"
| "send_chunks env W wanted psz (r # rs) st =
     (case r of
        None \<Rightarrow> Ret (Chunks_failed, st\<lparr>sl_ret := HGAP_ERR_IPC\<rparr>)
      | Some None \<Rightarrow> Ret (Chunks_done, st\<lparr>sl_more := False\<rparr>)
      | Some (Some chunk) \<Rightarrow>
          obind (returns (emit_loop env W wanted psz chunk st)) (\<lambda>(chunk', st').
            if sl_more st' then send_chunks env W wanted psz rs st' else Ret (Chunks_done, st')))"

text \<open>At the label \<open>send_loop_fail\<close>: the sender is freed, null or not.\<close>

definition send_loop_end ::
  "hgap_err \<Rightarrow> hgap_sender option \<Rightarrow> (retval \<times> hgap_sender) outcome" where
  "send_loop_end retval hs =
     obind (hgap_sender_free hs) (\<lambda>s. Ret (Retval (err_num retval), s))"

definition send_loop ::
  "sender_env \<Rightarrow> 's wirehair \<Rightarrow> dbl \<Rightarrow> u64 \<Rightarrow> hgap_encoder \<Rightarrow> hgap_sender option \<Rightarrow>
     's enc_chunk option option list \<Rightarrow> (retval \<times> hgap_sender) outcome" where
  "send_loop env W wanted psz enc hs inputs =
     (case hs of
        None \<Rightarrow> send_loop_end HGAP_ERR_INTERNAL None
      | Some s \<Rightarrow>
          obind (hgap_encoder_handwave enc (replicate (unat psz) 0) psz) (\<lambda>(ret, pkt, send_size).
            if ret \<noteq> HGAP_SUCCESS then send_loop_end HGAP_ERR_BUFFER_TOO_SMALL (Some s)
            else obind (hgap_sender_control env s pkt send_size) (\<lambda>(sent, s1).
              if sent \<noteq> 0 then send_loop_end HGAP_ERR_NETWORK (Some s1)
              else obind (send_chunks env W wanted psz inputs
                      \<lparr>sl_sender = s1, sl_pkt = pkt, sl_data_sent = 0, sl_ret = HGAP_SUCCESS,
                       sl_more = True\<rparr>) (\<lambda>(fin, st).
                case fin of
                  Chunks_wait \<Rightarrow> Ret (Waiting, sl_sender st)
                | Chunks_failed \<Rightarrow> send_loop_end (sl_ret st) (Some (sl_sender st))
                | Chunks_done \<Rightarrow>
                    obind (hgap_encoder_teardown enc (sl_pkt st) psz) (\<lambda>(_, pkt2, size2).
                    obind (hgap_sender_control env (sl_sender st) pkt2 size2) (\<lambda>(_, s2).
                      send_loop_end (sl_ret st) (Some s2)))))))"

text \<open>
  \<open>hgap_send\<close>: the checks, then the result of \<open>send_loop\<close> joined with those of the two threads.
\<close>

definition hgap_send :: "hgap_err \<Rightarrow> bool \<Rightarrow> hgap_err \<Rightarrow> hgap_err \<Rightarrow> hgap_err \<Rightarrow> hgap_err" where
  "hgap_send config_err wirehair_init send_ret read_ret encode_ret =
     (if config_err \<noteq> HGAP_SUCCESS then config_err
      else if \<not> wirehair_init then HGAP_ERR_WIREHAIR_ERROR
      else join_results send_ret [read_ret, encode_ret])"

subsection \<open>Cutting the input\<close>

text \<open>The specification of the reader: full pieces, then one that is shorter, possibly empty.\<close>

function chunks_of :: "nat \<Rightarrow> 'a list \<Rightarrow> 'a list list" where
  "chunks_of n xs = (if n = 0 \<or> length xs < n then [xs] else take n xs # chunks_of n (drop n xs))"
  by pat_completeness auto

termination
  by (relation "measure (\<lambda>(n, xs). length xs)") auto

declare chunks_of.simps [simp del]

lemma concat_chunks_of: "concat (chunks_of n xs) = xs"
  by (induction n xs rule: chunks_of.induct) (subst chunks_of.simps, auto)

lemma chunks_of_lengths: "0 < n \<Longrightarrow> \<exists>cs c. chunks_of n xs = cs @ [c] \<and>
    list_all (\<lambda>x. length x = n) cs \<and> length c < n"
proof (induction n xs rule: chunks_of.induct)
  case (1 n xs)
  show ?case
  proof (cases "length xs < n")
    case True
    then show ?thesis by (subst chunks_of.simps) auto
  next
    case False
    then obtain cs c where "chunks_of n (drop n xs) = cs @ [c]" "list_all (\<lambda>x. length x = n) cs"
      "length c < n"
      using 1 by auto
    then show ?thesis
      using False 1(2) by (intro exI [of _ "take n xs # cs"] exI [of _ c])
        (subst chunks_of.simps, simp)
  qed
qed

lemma chunks_of_bound: "0 < n \<Longrightarrow> m \<in> set (chunks_of n xs) \<Longrightarrow> length m \<le> n"
  using chunks_of_lengths [of n xs] by (auto simp: list_all_iff)

lemma read_chunk_ok:
  assumes "f_fail_at f = None" "0 < n"
  shows "read_chunk_loop n f [] = (take n (f_rest f),
    f\<lparr>f_rest := drop n (f_rest f), f_eof := f_eof f \<or> length (f_rest f) < n\<rparr>)"
proof -
  have fread: "fread k g = (take k (f_rest g), g\<lparr>f_rest := drop k (f_rest g),
      f_eof := f_eof g \<or> length (f_rest g) < k\<rparr>)" if "f_fail_at g = None" for k g
    using that by (cases g) (auto simp: fread_def Let_def min_def)
  show ?thesis
  proof (cases "length (f_rest f) < n")
    case True
    then have "fread n f = (f_rest f, f\<lparr>f_rest := [], f_eof := True\<rparr>)"
      using fread [OF assms(1), of n] by simp
    moreover have "read_chunk_loop (n - length (f_rest f)) (f\<lparr>f_rest := [], f_eof := True\<rparr>) (f_rest f) =
        (f_rest f, f\<lparr>f_rest := [], f_eof := True\<rparr>)"
      using True fread [of "f\<lparr>f_rest := [], f_eof := True\<rparr>" "n - length (f_rest f)"] assms(1)
      by (subst read_chunk_loop.simps) (simp add: Let_def)
    ultimately show ?thesis
      using True assms(2) by (subst read_chunk_loop.simps) (simp add: Let_def)
  next
    case False
    have "read_chunk_loop 0 g acc = (acc, g)" for g acc
      by (subst read_chunk_loop.simps) simp
    then show ?thesis
      using False assms fread [OF assms(1), of n]
      by (subst read_chunk_loop.simps) (auto simp: Let_def)
  qed
qed

definition piece_buf :: "bytes \<Rightarrow> bytes \<Rightarrow> sized_buf" where
  "piece_buf m slot = \<lparr>sb_size = of_nat (length m), sb_data = Some (m @ drop (length m) slot)\<rparr>"

definition read_turn_of :: "bytes \<Rightarrow> read_turn" where
  "read_turn_of slot = \<lparr>rt_reserved = True, rt_slot = slot, rt_sent = True\<rparr>"

lemma read_chunk_piece:
  assumes "f_fail_at f = None" "0 < n"
  shows "read_chunk f n slot = (piece_buf (take n (f_rest f)) slot,
    f\<lparr>f_rest := drop n (f_rest f), f_eof := f_eof f \<or> length (f_rest f) < n\<rparr>)"
  using read_chunk_ok [OF assms] by (simp add: read_chunk_def piece_buf_def)

lemma read_turns_ok:
  assumes "0 < n" and "f_fail_at f = None" "\<not> f_err f" "\<not> f_eof f"
    and "length slots = length (chunks_of n (f_rest f))"
  shows "read_turns n (True, True) (map read_turn_of slots @ ts) f st =
    Ret (read_closing (True, True) HGAP_SUCCESS
      (st\<lparr>rl_out := rl_out st @ map2 piece_buf (chunks_of n (f_rest f)) slots\<rparr>))"
  using assms(2-5)
proof (induction "length (f_rest f)" arbitrary: f slots st rule: less_induct)
  case less
  let ?xs = "f_rest f"
  have rd: "read_chunk f n slot = (piece_buf (take n ?xs) slot,
      f\<lparr>f_rest := drop n ?xs, f_eof := length ?xs < n\<rparr>)" for slot
    using less.prems(3) read_chunk_piece [OF less.prems(1) assms(1)] by simp
  have err: "f_err (f\<lparr>f_rest := drop n ?xs, f_eof := e\<rparr>) = f_err f" for e by simp
  show ?case
  proof (cases "length ?xs < n")
    case True
    then have ch: "chunks_of n ?xs = [?xs]" by (subst chunks_of.simps) simp
    with less.prems(4) obtain slot where slots: "slots = [slot]"
      by (cases slots) auto
    show ?thesis
      using True rd [of slot] less.prems(2) by (simp add: ch slots read_turn_of_def)
  next
    case False
    then have ch: "chunks_of n ?xs = take n ?xs # chunks_of n (drop n ?xs)"
      using assms(1) by (subst chunks_of.simps) simp
    with less.prems(4) obtain slot slots' where slots: "slots = slot # slots'"
      "length slots' = length (chunks_of n (drop n ?xs))"
      by (cases slots) auto
    let ?f = "f\<lparr>f_rest := drop n ?xs, f_eof := False\<rparr>"
    have "read_turns n (True, True) (map read_turn_of slots @ ts) f st =
        read_turns n (True, True) (map read_turn_of slots' @ ts) ?f
          (st\<lparr>rl_out := rl_out st @ [piece_buf (take n ?xs) slot]\<rparr>)"
      using False rd [of slot] less.prems(2) by (simp add: slots read_turn_of_def)
    also have "\<dots> = Ret (read_closing (True, True) HGAP_SUCCESS
      (st\<lparr>rl_out := rl_out st @ map2 piece_buf (chunks_of n ?xs) slots\<rparr>))"
      using less.hyps [of ?f slots'] False assms(1) less.prems slots(2)
      by (simp add: ch slots(1))
    finally show ?thesis .
  qed
qed

lemma read_loop_ok:
  assumes "unat (elt_size - 16) = n" "0 < n"
    and "length slots = length (chunks_of n data)"
  shows "\<exists>st. read_loop elt_size (True, True) (map read_turn_of slots @ ts)
      (Some \<lparr>f_rest = data, f_fail_at = None, f_eof = False, f_err = False\<rparr>) = Ret st \<and>
    rl_out st = map2 piece_buf (chunks_of n data) slots @ [SBUF_NULL] \<and> rl_ret st = Retval 0"
  using read_turns_ok [of n "\<lparr>f_rest = data, f_fail_at = None, f_eof = False, f_err = False\<rparr>"
      slots ts "\<lparr>rl_out = [], rl_ret = Waiting\<rparr>"] assms
  by (simp add: read_loop_def Let_def read_closing_def)

subsection \<open>Encoding the pieces\<close>

definition encode_turn_of :: "sized_buf \<Rightarrow> encode_turn" where
  "encode_turn_of b = \<lparr>et_peek = Some b, et_sent = True\<rparr>"

definition chunk_encoder :: "'s wirehair \<Rightarrow> u64 \<Rightarrow> bytes \<Rightarrow> 's option" where
  "chunk_encoder W psz m =
     (if unat psz - 24 < length m then wh_encode W None m (psz - 24) else None)"

text \<open>The chunks of a list of messages, numbered from \<open>num\<close>, none of them used yet.\<close>

fun encoded :: "'s wirehair \<Rightarrow> u64 \<Rightarrow> u64 \<Rightarrow> bytes list \<Rightarrow> 's enc_chunk list \<Rightarrow> bool" where
  "encoded W psz num [] [] \<longleftrightarrow> True"
| "encoded W psz num (m # ms) (c # cs) \<longleftrightarrow>
     encodes W psz num m c \<and> ck_next_pkt_id c = 0 \<and> ck_total_gen c = 0 \<and>
     ck_wh_state c = chunk_encoder W psz m \<and> encoded W psz (num + 1) ms cs"
| "encoded W psz num _ _ \<longleftrightarrow> False"

text \<open>Wirehair encodes every message that is too long for a packet, from a fresh state.\<close>

definition encodable :: "'s wirehair \<Rightarrow> u64 \<Rightarrow> bytes \<Rightarrow> bool" where
  "encodable W psz m \<longleftrightarrow>
     length m + 24 < 2 ^ 64 \<and> (unat psz - 24 < length m \<longrightarrow> wh_encode W None m (psz - 24) \<noteq> None)"

lemma encode_loop_ok:
  assumes "24 < unat psz" and "list_all (encodable W psz) ms" and "length slots = length ms"
    and "enc_pkt_size (el_enc st) = psz"
  shows "\<exists>cs. encoded W psz (next_chunk_num (el_enc st)) ms cs \<and>
    (\<exists>enc. encode_loop W True (map encode_turn_of (map2 piece_buf ms slots) @ ts) st =
      encode_loop W True ts (st\<lparr>el_enc := enc, el_out := el_out st @ map Some cs\<rparr>))"
  using assms(2-4)
proof (induction ms arbitrary: slots st)
  case Nil
  then show ?case by (intro exI [of _ "[]"]) (auto intro: exI [of _ "el_enc st"])
next
  case (Cons m ms)
  obtain slot slots' where slots: "slots = slot # slots'" "length slots' = length ms"
    using Cons.prems(2) by (cases slots) auto
  have ok: "length m + 24 < 2 ^ 64"
    "unat psz - 24 < length m \<longrightarrow> wh_encode W None m (psz - 24) \<noteq> None"
    using Cons.prems(1) by (simp_all add: encodable_def)
  have len: "unat (of_nat (length m) :: u64) = length m"
    using ok(1) by (intro unat_of_length) simp
  have psz: "24 < unat (enc_pkt_size (el_enc st))" using assms(1) Cons.prems(3) by simp
  obtain c where init: "hgap_enc_chunk_init W (el_enc st) hgap_enc_chunk_new
      (m @ drop (length m) slot) (of_nat (length m)) =
      Ret (HGAP_SUCCESS, (el_enc st)\<lparr>next_chunk_num := next_chunk_num (el_enc st) + 1\<rparr>, c)"
    and c: "encodes W psz (next_chunk_num (el_enc st)) m c" "ck_next_pkt_id c = 0" "ck_total_gen c = 0"
      "ck_wh_state c = chunk_encoder W psz m"
    using hgap_enc_chunk_init_cases [OF psz, of "of_nat (length m)" "m @ drop (length m) slot" W
        hgap_enc_chunk_new] ok len Cons.prems(3)
    by (auto simp: hgap_enc_chunk_new_def chunk_encoder_def split: if_splits)
  let ?enc = "(el_enc st)\<lparr>next_chunk_num := next_chunk_num (el_enc st) + 1\<rparr>"
  let ?st = "st\<lparr>el_enc := ?enc, el_out := el_out st @ [Some c]\<rparr>"
  have turn: "encode_loop W True (map encode_turn_of (map2 piece_buf (m # ms) slots) @ ts) st =
      encode_loop W True (map encode_turn_of (map2 piece_buf ms slots') @ ts) ?st"
    using init by (simp add: slots(1) encode_turn_of_def piece_buf_def Let_def)
  obtain cs enc where "encoded W psz (next_chunk_num (el_enc st) + 1) ms cs"
    "encode_loop W True (map encode_turn_of (map2 piece_buf ms slots') @ ts) ?st =
      encode_loop W True ts (?st\<lparr>el_enc := enc, el_out := el_out ?st @ map Some cs\<rparr>)"
    using Cons.IH [of slots' ?st] Cons.prems slots(2) by auto
  then show ?case
    unfolding turn using c by (intro exI [of _ "c # cs"]) (auto intro!: exI [of _ enc])
qed

subsection \<open>Emitting the packets of a chunk\<close>

text \<open>
  \<open>stops\<close>: after \<open>k\<close> packets the wanted redundancy is reached. \<open>n_packets\<close> is the number of
  packets the loop sends: it tests after each packet, so it is at least one.
\<close>

definition stops :: "dbl \<Rightarrow> nat \<Rightarrow> nat \<Rightarrow> nat \<Rightarrow> bool" where
  "stops wanted payload n k \<longleftrightarrow> \<not> dbl_less (redundancy (k * payload) n) wanted"

definition n_packets :: "dbl \<Rightarrow> nat \<Rightarrow> nat \<Rightarrow> nat" where
  "n_packets wanted payload n = (LEAST k. 0 < k \<and> stops wanted payload n k)"

text \<open>The packets with ids from \<open>i\<close> to before \<open>j\<close>.\<close>

definition packets ::
  "'s wirehair \<Rightarrow> u64 \<Rightarrow> u64 \<Rightarrow> bytes \<Rightarrow> 's option \<Rightarrow> nat \<Rightarrow> nat \<Rightarrow> bytes list" where
  "packets W psz num m E i j = map (\<lambda>k. the (chunk_packet W psz num m E (of_nat k))) [i..<j]"

definition writes_all :: "'s wirehair \<Rightarrow> u64 \<Rightarrow> bytes \<Rightarrow> 's option \<Rightarrow> bool" where
  "writes_all W psz m E \<longleftrightarrow> (unat psz - 24 < length m \<longrightarrow> (\<forall>i. wh_write W E i \<noteq> None))"

definition send_ready :: "sender_env \<Rightarrow> u64 \<Rightarrow> send_state \<Rightarrow> bool" where
  "send_ready env psz st \<longleftrightarrow> good_env env (sl_sender st) \<and> length (sl_pkt st) = unat psz"

lemma redundancy_not_negative: "\<not> dbl_less (redundancy a n) (Fin 0)"
proof -
  have f: "0 \<le> fround (of_nat k)" for k using fround_mono [of 0 "of_nat k"] by simp
  have "0 \<le> fround (fround (of_nat a) / fround (of_nat n))"
    using fround_mono [of 0 "fround (of_nat a) / fround (of_nat n)"] f [of a] f [of n] by simp
  then show ?thesis using f [of a] by (auto simp: redundancy_def dbl_of_nat_def)
qed

lemma emit_turn_ok:
  assumes enc: "encodes W psz num m chunk" and wh: "wh_block_size W"
    and p: "chunk_packet W psz num m (ck_wh_state chunk) (ucast (ck_next_pkt_id chunk)) = Some raw"
    and ready: "send_ready env psz st"
  shows "\<exists>st'. emit_turn env W psz chunk st =
      Ret (redundancy (unat (ck_total_gen chunk + of_nat (chunk_payload psz m))) (length m),
        chunk\<lparr>ck_next_pkt_id := ck_next_pkt_id chunk + 1,
          ck_total_gen := ck_total_gen chunk + of_nat (chunk_payload psz m)\<rparr>, st') \<and>
    send_ready env psz st' \<and> hs_wire (sl_sender st') = hs_wire (sl_sender st) @ [raw] \<and>
    sl_ret st' = sl_ret st \<and> sl_more st' = sl_more st \<and>
    hs_cont (sl_sender st') = hs_cont (sl_sender st)"
proof -
  obtain b where b: "chunk_block W psz m (ck_wh_state chunk) (ucast (ck_next_pkt_id chunk)) = Some b"
    and raw: "raw = header_bytes (chunk_header psz num m (ucast (ck_next_pkt_id chunk))) @ b"
    using p by (auto simp: chunk_packet_def)
  have len: "length raw = chunk_payload psz m + 24"
    using chunk_block_length [OF enc wh b] raw by simp
  have sz: "unat (ck_pkt_size chunk) = length raw" "24 \<le> unat psz"
    using enc len by (simp_all add: encodes_def)
  have le: "chunk_payload psz m + 24 \<le> unat psz" using sz(2) by (simp add: chunk_payload_def)
  then have room: "chunk_payload psz m + 24 \<le> length (sl_pkt st)"
    using ready by (simp add: send_ready_def)
  let ?pkt = "raw @ drop (length raw) (sl_pkt st)"
  have lp: "length ?pkt = unat psz"
    using len le ready by (simp add: send_ready_def)
  obtain hs where hs: "hgap_sender_send env (sl_sender st) ?pkt (ck_pkt_size chunk) =
      Ret (int (unat (ck_pkt_size chunk)), hs)" "good_env env hs"
    "hs_wire hs = hs_wire (sl_sender st) @ [take (unat (ck_pkt_size chunk)) ?pkt]"
    "hs_cont hs = hs_cont (sl_sender st)"
    using send_ok [of env "sl_sender st" "ck_pkt_size chunk" ?pkt] ready sz lp len le
    by (auto simp: send_ready_def)
  show ?thesis
    using hgap_enc_chunk_emit_eq [OF enc wh room, of psz] p hs sz lp redundancy_not_negative
    by (simp add: emit_turn_def Let_def send_ready_def)
qed

lemma unat_of_nat_small: "k < 2 ^ 64 \<Longrightarrow> unat (of_nat k :: u64) = k"
  by (simp add: unat_of_nat take_bit_nat_eq_self)

lemma encodes_next:
  "encodes W psz num m chunk \<Longrightarrow>
    encodes W psz num m (chunk\<lparr>ck_next_pkt_id := i, ck_total_gen := g\<rparr>)"
  by (simp add: encodes_def)

lemma packets_step: "i < j \<Longrightarrow>
    packets W psz num m E i j = the (chunk_packet W psz num m E (of_nat i)) # packets W psz num m E (Suc i) j"
  by (simp add: packets_def upt_conv_Cons)

lemma writes_all_packet:
  "writes_all W psz m E \<Longrightarrow> \<exists>raw. chunk_packet W psz num m E i = Some raw"
  by (auto simp: writes_all_def chunk_packet_def chunk_block_def not_le)

lemma emit_loop_ok:
  assumes wh: "wh_block_size W" and wr: "writes_all W psz m E"
    and room: "K * chunk_payload psz m < 2 ^ 64"
    and last: "stops wanted (chunk_payload psz m) (length m) K"
    and "\<And>k. j < k \<Longrightarrow> k < K \<Longrightarrow> \<not> stops wanted (chunk_payload psz m) (length m) k"
    and "j < K" and "encodes W psz num m chunk" and "ck_wh_state chunk = E"
    and "ck_next_pkt_id chunk = of_nat j"
    and "ck_total_gen chunk = of_nat (j * chunk_payload psz m)"
    and "send_ready env psz st"
  shows "\<exists>chunk' st'. emit_loop env W wanted psz chunk st = Some (Ret (chunk', st')) \<and>
    send_ready env psz st' \<and>
    hs_wire (sl_sender st') = hs_wire (sl_sender st) @ packets W psz num m E j K \<and>
    sl_ret st' = sl_ret st \<and> sl_more st' = sl_more st \<and>
    hs_cont (sl_sender st') = hs_cont (sl_sender st)"
  using assms(5-)
proof (induction "K - j" arbitrary: j chunk st)
  case 0
  then show ?case by simp
next
  case (Suc d)
  let ?P = "chunk_payload psz m"
  have id: "ucast (ck_next_pkt_id chunk) = (of_nat j :: u32)"
    by (simp add: Suc.prems(5) ucast_of_nat32)
  obtain raw where raw: "chunk_packet W psz num m E (of_nat j) = Some raw"
    using writes_all_packet [OF wr] by blast
  have gen: "ck_total_gen chunk + of_nat ?P = of_nat (Suc j * ?P)"
    by (simp add: Suc.prems(6) algebra_simps)
  have "Suc j * ?P \<le> K * ?P" using Suc.prems(2) by (intro mult_le_mono1) simp
  then have ugen: "unat (of_nat (Suc j * ?P) :: u64) = Suc j * ?P"
    using room by (intro unat_of_nat_small) linarith
  let ?c = "chunk\<lparr>ck_next_pkt_id := ck_next_pkt_id chunk + 1,
    ck_total_gen := ck_total_gen chunk + of_nat ?P\<rparr>"
  obtain st1 where turn: "emit_turn env W psz chunk st =
      Ret (redundancy (Suc j * ?P) (length m), ?c, st1)"
    and st1: "send_ready env psz st1" "hs_wire (sl_sender st1) = hs_wire (sl_sender st) @ [raw]"
    "sl_ret st1 = sl_ret st" "sl_more st1 = sl_more st" "hs_cont (sl_sender st1) = hs_cont (sl_sender st)"
    using emit_turn_ok [OF Suc.prems(3) wh _ Suc.prems(7), of raw] id raw Suc.prems(4) gen ugen
    by auto
  show ?case
  proof (cases "Suc j = K")
    case True
    then have "\<not> dbl_less (redundancy (Suc j * ?P) (length m)) wanted"
      using last by (simp add: stops_def)
    then have "emit_loop env W wanted psz chunk st = Some (Ret (?c, st1))"
      by (subst emit_loop.simps) (simp add: turn)
    then show ?thesis
      using st1 raw True by (auto simp: packets_def)
  next
    case False
    then have less: "Suc j < K" using Suc.prems(2) by simp
    then have "dbl_less (redundancy (Suc j * ?P) (length m)) wanted"
      using Suc.prems(1) [of "Suc j"] by (simp add: stops_def)
    then have step: "emit_loop env W wanted psz chunk st = emit_loop env W wanted psz ?c st1"
      by (subst emit_loop.simps) (simp add: turn)
    have "\<exists>chunk' st'. emit_loop env W wanted psz ?c st1 = Some (Ret (chunk', st')) \<and>
      send_ready env psz st' \<and>
      hs_wire (sl_sender st') = hs_wire (sl_sender st1) @ packets W psz num m E (Suc j) K \<and>
      sl_ret st' = sl_ret st1 \<and> sl_more st' = sl_more st1 \<and>
      hs_cont (sl_sender st') = hs_cont (sl_sender st1)"
    proof (rule Suc.hyps(1))
      show "d = K - Suc j" using Suc.hyps(2) by simp
      show "\<not> stops wanted ?P (length m) k" if "Suc j < k" "k < K" for k
        using Suc.prems(1) [of k] that by simp
      show "ck_total_gen ?c = of_nat (Suc j * ?P)" using gen by simp
    qed (use less Suc.prems st1 in \<open>simp_all add: encodes_next\<close>)
    then show ?thesis
      using st1 raw packets_step [OF Suc.prems(2), of W psz num m E] by (auto simp: step)
  qed
qed

text \<open>How many packets there are.\<close>

lemma n_packets_least:
  assumes "0 < k" "stops wanted payload n k"
  shows "0 < n_packets wanted payload n" "stops wanted payload n (n_packets wanted payload n)"
    "n_packets wanted payload n \<le> k"
    "0 < i \<Longrightarrow> i < n_packets wanted payload n \<Longrightarrow> \<not> stops wanted payload n i"
proof -
  let ?P = "\<lambda>k. 0 < k \<and> stops wanted payload n k"
  have "?P k" using assms by simp
  then have "?P (n_packets wanted payload n)" unfolding n_packets_def by (rule LeastI)
  then show "0 < n_packets wanted payload n" "stops wanted payload n (n_packets wanted payload n)"
    by simp_all
  show "n_packets wanted payload n \<le> k"
    unfolding n_packets_def by (rule Least_le) (use assms in simp)
  show "\<not> stops wanted payload n i" if "0 < i" "i < n_packets wanted payload n"
    using not_less_Least [of i ?P] that by (auto simp: n_packets_def)
qed

lemma redundancy_exact:
  assumes "0 < n" "n < 2 ^ 53" "a < 2 ^ 53"
  shows "redundancy a n = Fin (fround (of_nat a / of_nat n))"
  using assms by (simp add: redundancy_def dbl_of_nat_exact)

lemma stops_enough:
  assumes r: "is_double r" "0 \<le> r" and n: "0 < n" "n < 2 ^ 53" and k: "k * payload < 2 ^ 53"
    and ge: "r * of_nat n \<le> of_nat (k * payload)"
  shows "stops (Fin r) payload n k"
proof -
  have "r \<le> of_nat (k * payload) / of_nat n"
    using ge n by (simp add: le_divide_eq)
  then have "r \<le> fround (of_nat (k * payload) / of_nat n)"
    by (rule fround_ge_double [OF r])
  then show ?thesis
    by (simp add: stops_def redundancy_exact [OF n k] not_less)
qed

lemma stops_needs_all:
  assumes r: "1 \<le> r" and n: "0 < n" "n < 2 ^ 53" and k: "k * payload < 2 ^ 53"
    and st: "stops (Fin r) payload n k"
  shows "n \<le> k * payload"
proof (rule ccontr)
  assume "\<not> n \<le> k * payload"
  then have lt: "k * payload + 1 \<le> n" by simp
  then have "(of_nat (k * payload + 1) :: rat) \<le> of_nat n" by (simp only: of_nat_le_iff)
  then have "(of_nat (k * payload) :: rat) \<le> of_nat n - 1" by simp
  then have "(of_nat (k * payload) :: rat) / of_nat n \<le> (of_nat n - 1) / of_nat n"
    by (rule divide_right_mono) simp
  also have "\<dots> = 1 - 1 / of_nat n" using n by (simp add: diff_divide_distrib)
  also have "\<dots> \<le> 1 - 1 / 2 ^ 53"
  proof -
    have "n \<le> 2 ^ 53" using n(2) by simp
    then have "(of_nat n :: rat) \<le> of_nat (2 ^ 53)" by (simp only: of_nat_le_iff)
    then have "(of_nat n :: rat) \<le> 2 ^ 53" by simp
    then have "(1 :: rat) / 2 ^ 53 \<le> 1 / of_nat n"
      using n(1) by (intro divide_left_mono) simp_all
    then show ?thesis by simp
  qed
  finally have "fround (of_nat (k * payload) / of_nat n) < 1"
    by (intro fround_below_one) simp_all
  then show False
    using st r by (simp add: stops_def redundancy_exact [OF n k] not_less)
qed

definition enough_packets :: "rat \<Rightarrow> nat \<Rightarrow> nat \<Rightarrow> nat" where
  "enough_packets r payload n = nat \<lceil>r * of_nat n / of_nat payload\<rceil>"

lemma enough_packets_bounds:
  assumes "1 \<le> r" "0 < n" "0 < payload"
  shows "0 < enough_packets r payload n"
    and "r * of_nat n \<le> of_nat (enough_packets r payload n * payload)"
    and "of_nat (enough_packets r payload n * payload) < r * of_nat n + of_nat payload"
proof -
  let ?q = "r * of_nat n / of_nat payload"
  have pos: "0 < ?q" using assms by simp
  then have c: "0 < \<lceil>?q\<rceil>" by simp
  then show "0 < enough_packets r payload n" by (simp add: enough_packets_def)
  have k: "(of_nat (enough_packets r payload n) :: rat) = of_int \<lceil>?q\<rceil>"
    using c by (simp add: enough_packets_def)
  have "?q \<le> of_int \<lceil>?q\<rceil>" "of_int \<lceil>?q\<rceil> < ?q + 1"
    using ceiling_correct [of ?q] by linarith+
  then have "?q \<le> of_nat (enough_packets r payload n)" "of_nat (enough_packets r payload n) < ?q + 1"
    by (simp_all only: k)
  then show "r * of_nat n \<le> of_nat (enough_packets r payload n * payload)"
    "of_nat (enough_packets r payload n * payload) < r * of_nat n + of_nat payload"
    using assms(3) by (simp_all add: divide_le_eq less_divide_eq field_simps)
qed

text \<open>The wanted redundancies for which the counts stay exact.\<close>

definition wanted_ok :: "dbl \<Rightarrow> bool" where
  "wanted_ok wanted \<longleftrightarrow> (case wanted of Fin r \<Rightarrow> is_double r \<and> 1 \<le> r \<and> r \<le> 1048576 | _ \<Rightarrow> False)"

lemma n_packets_bounds:
  assumes w: "is_double r" "1 \<le> r" "r \<le> 1048576"
    and n: "0 < n" "n \<le> 96000000" and p: "0 < payload" "payload \<le> 1500"
  defines "K \<equiv> n_packets (Fin r) payload n"
  shows "0 < K" "stops (Fin r) payload n K" "\<And>k. 0 < k \<Longrightarrow> k < K \<Longrightarrow> \<not> stops (Fin r) payload n k"
    "n \<le> K * payload" "K \<le> enough_packets r payload n" "K * payload < 2 ^ 53"
proof -
  let ?k = "enough_packets r payload n"
  note e = enough_packets_bounds [OF w(2) n(1) p(1)]
  have "(of_nat (?k * payload) :: rat) < 1048576 * 96000000 + 1500"
  proof -
    have "r * of_nat n \<le> 1048576 * (96000000 :: rat)"
    proof (rule mult_mono)
      have "(of_nat n :: rat) \<le> of_nat 96000000" using n(2) by (simp only: of_nat_le_iff)
      then show "(of_nat n :: rat) \<le> 96000000" by simp
    qed (use w in simp_all)
    moreover have "(of_nat payload :: rat) \<le> 1500"
    proof -
      have "(of_nat payload :: rat) \<le> of_nat 1500" using p(2) by (simp only: of_nat_le_iff)
      then show ?thesis by simp
    qed
    ultimately show ?thesis using e(3) by linarith
  qed
  then have "(of_nat (?k * payload) :: rat) < of_nat (2 ^ 53)" by simp
  then have k: "?k * payload < 2 ^ 53" by (simp only: of_nat_less_iff)
  have n53: "n < 2 ^ 53" using n by simp
  have st: "stops (Fin r) payload n ?k"
    using stops_enough [OF w(1) _ n(1) n53 k e(2)] w(2) by simp
  note l = n_packets_least [OF e(1) st, folded K_def]
  show "0 < K" "stops (Fin r) payload n K" "\<And>k. 0 < k \<Longrightarrow> k < K \<Longrightarrow> \<not> stops (Fin r) payload n k"
    "K \<le> ?k"
    using l by auto
  have "K * payload \<le> ?k * payload" using l(3) by (rule mult_le_mono1)
  then show K: "K * payload < 2 ^ 53" using k by linarith
  show "n \<le> K * payload" by (rule stops_needs_all [OF w(2) n(1) n53 K l(2)])
qed

lemma n_packets_empty: "n_packets wanted payload 0 = 1 \<and> stops wanted payload 0 1" if "payload = 0"
proof -
  have "fround (0 :: rat) = 0" by simp
  then have "stops wanted payload 0 k" for k
    using that by (simp add: stops_def redundancy_def dbl_of_nat_def)
  then show ?thesis
    using n_packets_least [of 1 wanted payload 0] by (metis le_antisym less_one not_le zero_less_one)
qed

subsection \<open>The sender as a whole\<close>

definition chunk_packets ::
  "'s wirehair \<Rightarrow> u64 \<Rightarrow> dbl \<Rightarrow> u64 \<Rightarrow> bytes \<Rightarrow> 's option \<Rightarrow> bytes list" where
  "chunk_packets W psz wanted num m E =
     packets W psz num m E 0 (n_packets wanted (chunk_payload psz m) (length m))"

fun all_packets ::
  "'s wirehair \<Rightarrow> u64 \<Rightarrow> dbl \<Rightarrow> u64 \<Rightarrow> bytes list \<Rightarrow> 's enc_chunk list \<Rightarrow> bytes list" where
  "all_packets W psz wanted num (m # ms) (c # cs) =
     chunk_packets W psz wanted num m (ck_wh_state c) @ all_packets W psz wanted (num + 1) ms cs"
| "all_packets W psz wanted num _ _ = []"

lemma chunk_emission:
  assumes wh: "wh_block_size W" and wr: "writes_all W psz m (ck_wh_state chunk)"
    and w: "wanted_ok wanted" and psz: "24 < unat psz" "unat psz \<le> 1500"
    and len: "length m \<le> 96000000"
    and enc: "encodes W psz num m chunk" "ck_next_pkt_id chunk = 0" "ck_total_gen chunk = 0"
    and ready: "send_ready env psz st"
  shows "\<exists>chunk' st'. emit_loop env W wanted psz chunk st = Some (Ret (chunk', st')) \<and>
    send_ready env psz st' \<and>
    hs_wire (sl_sender st') = hs_wire (sl_sender st) @
      chunk_packets W psz wanted num m (ck_wh_state chunk) \<and>
    sl_ret st' = sl_ret st \<and> sl_more st' = sl_more st \<and>
    hs_cont (sl_sender st') = hs_cont (sl_sender st)"
proof -
  let ?P = "chunk_payload psz m" and ?n = "length m"
  let ?K = "n_packets wanted ?P ?n"
  obtain r where r: "wanted = Fin r" "is_double r" "1 \<le> r" "r \<le> 1048576"
    using w by (auto simp: wanted_ok_def split: dbl.splits)
  have K: "0 < ?K \<and> stops wanted ?P ?n ?K \<and> ?K * ?P < 2 ^ 64 \<and>
      (\<forall>k. 0 < k \<longrightarrow> k < ?K \<longrightarrow> \<not> stops wanted ?P ?n k)"
  proof (cases "m = []")
    case True
    then have P: "?P = 0" by (simp add: chunk_payload_def)
    then show ?thesis using True n_packets_empty [OF P, of wanted] by simp
  next
    case False
    then have P: "0 < ?P" "?P \<le> 1500" using psz by (auto simp: chunk_payload_def)
    have n: "0 < ?n" using False by simp
    show ?thesis using n_packets_bounds [OF r(2-4) n len P] by (simp add: r(1))
  qed
  then have "stops wanted ?P ?n ?K" "?K * ?P < 2 ^ 64" "0 < ?K"
    "\<And>k. 0 < k \<Longrightarrow> k < ?K \<Longrightarrow> \<not> stops wanted ?P ?n k"
    by blast+
  from emit_loop_ok [OF wh wr this(2,1,4,3) enc(1) refl, of env st] enc(2,3) ready
  show ?thesis by (simp add: chunk_packets_def)
qed

lemma send_chunks_ok:
  assumes wh: "wh_block_size W" and w: "wanted_ok wanted"
    and psz: "24 < unat psz" "unat psz \<le> 1500"
    and "encoded W psz num ms cs" "list_all (\<lambda>m. length m \<le> 96000000) ms"
    and "list_all2 (\<lambda>m c. writes_all W psz m (ck_wh_state c)) ms cs"
    and "send_ready env psz st" "sl_more st"
  shows "\<exists>st'. send_chunks env W wanted psz (map (\<lambda>c. Some (Some c)) cs @ Some None # rs) st =
      Ret (Chunks_done, st') \<and> send_ready env psz st' \<and>
    hs_wire (sl_sender st') = hs_wire (sl_sender st) @ all_packets W psz wanted num ms cs \<and>
    sl_ret st' = sl_ret st \<and> hs_cont (sl_sender st') = hs_cont (sl_sender st)"
  using assms(5-)
proof (induction ms arbitrary: cs num st)
  case Nil
  then show ?case by (cases cs) (simp_all add: send_ready_def)
next
  case (Cons m ms)
  then obtain c cs' where cs: "cs = c # cs'" by (cases cs) auto
  have enc: "encodes W psz num m c" "ck_next_pkt_id c = 0" "ck_total_gen c = 0"
    "encoded W psz (num + 1) ms cs'"
    using Cons.prems(1) by (simp_all add: cs)
  have len: "length m \<le> 96000000" and wr: "writes_all W psz m (ck_wh_state c)"
    using Cons.prems(2,3) by (simp_all add: cs)
  obtain c' st1 where run: "emit_loop env W wanted psz c st = Some (Ret (c', st1))"
    and st1: "send_ready env psz st1"
    "hs_wire (sl_sender st1) = hs_wire (sl_sender st) @ chunk_packets W psz wanted num m (ck_wh_state c)"
    "sl_ret st1 = sl_ret st" "sl_more st1 = sl_more st"
    "hs_cont (sl_sender st1) = hs_cont (sl_sender st)"
    using chunk_emission [OF wh wr w psz len enc(1-3) Cons.prems(4)] by blast
  obtain st2 where
    "send_chunks env W wanted psz (map (\<lambda>c. Some (Some c)) cs' @ Some None # rs) st1 = Ret (Chunks_done, st2)"
    "send_ready env psz st2"
    "hs_wire (sl_sender st2) = hs_wire (sl_sender st1) @ all_packets W psz wanted (num + 1) ms cs'"
    "sl_ret st2 = sl_ret st1" "hs_cont (sl_sender st2) = hs_cont (sl_sender st1)"
    using Cons.IH [OF enc(4) _ _ st1(1)] Cons.prems st1(4) by (auto simp: cs)
  then show ?case using run st1 Cons.prems(5) by (simp add: cs)
qed

lemma handwave_eq: "24 \<le> unat psz \<Longrightarrow> length pkt = unat psz \<Longrightarrow>
    hgap_encoder_handwave enc pkt psz =
      Ret (HGAP_SUCCESS, header_bytes hgap_header_begin @ drop 24 pkt, HGAP_HEADER_LEN)"
  by (simp add: hgap_encoder_handwave_def HGAP_MIN_BUF_def HGAP_HEADER_LEN_def word_less_nat_alt
      hgap_write_header_Ret_iff obind_Ret_iff)

lemma teardown_eq: "24 \<le> unat psz \<Longrightarrow> length pkt = unat psz \<Longrightarrow>
    hgap_encoder_teardown enc pkt psz =
      Ret (HGAP_SUCCESS, header_bytes hgap_header_end @ drop 24 pkt, HGAP_HEADER_LEN)"
  by (simp add: hgap_encoder_teardown_def HGAP_MIN_BUF_def HGAP_HEADER_LEN_def word_less_nat_alt
      hgap_write_header_Ret_iff obind_Ret_iff)

lemma send_loop_ok:
  assumes wh: "wh_block_size W" and w: "wanted_ok wanted"
    and psz: "24 < unat psz" "unat psz \<le> 1500"
    and enc: "encoded W psz num ms cs" "list_all (\<lambda>m. length m \<le> 96000000) ms"
    and wr: "list_all2 (\<lambda>m c. writes_all W psz m (ck_wh_state c)) ms cs"
    and env: "good_env env s" and wire: "hs_wire s = []"
  shows "\<exists>s'. send_loop env W wanted psz e (Some s) (map (\<lambda>c. Some (Some c)) cs @ Some None # rs) =
      Ret (Retval 0, s') \<and>
    hs_wire s' = replicate 32 (header_bytes hgap_header_begin) @ all_packets W psz wanted num ms cs @
      replicate 32 (header_bytes hgap_header_end)"
proof -
  let ?p1 = "header_bytes hgap_header_begin @ drop 24 (replicate (unat psz) 0)"
  have l1: "length ?p1 = unat psz" using psz by simp
  obtain s1 where s1: "hgap_sender_control env s ?p1 HGAP_HEADER_LEN = Ret (0, s1)" "good_env env s1"
    "hs_wire s1 = replicate 32 (header_bytes hgap_header_begin)"
    using control_ok [OF env, of HGAP_HEADER_LEN ?p1] wire by (auto simp: HGAP_SALVE_LEN_def)
  let ?st = "\<lparr>sl_sender = s1, sl_pkt = ?p1, sl_data_sent = 0, sl_ret = HGAP_SUCCESS, sl_more = True\<rparr>"
  have ready: "send_ready env psz ?st" using s1(2) l1 by (simp add: send_ready_def)
  obtain st where st: "send_chunks env W wanted psz (map (\<lambda>c. Some (Some c)) cs @ Some None # rs) ?st =
      Ret (Chunks_done, st)" "send_ready env psz st" "sl_ret st = HGAP_SUCCESS"
    "hs_wire (sl_sender st) = hs_wire s1 @ all_packets W psz wanted num ms cs"
    using send_chunks_ok [OF wh w psz enc wr ready] by auto
  let ?p2 = "header_bytes hgap_header_end @ drop 24 (sl_pkt st)"
  have good: "good_env env (sl_sender st)" "length (sl_pkt st) = unat psz"
    using st(2) by (simp_all add: send_ready_def)
  obtain s2 where s2: "hgap_sender_control env (sl_sender st) ?p2 HGAP_HEADER_LEN = Ret (0, s2)"
    "hs_wire s2 = hs_wire (sl_sender st) @ replicate 32 (header_bytes hgap_header_end)"
    using control_ok [OF good(1), of HGAP_HEADER_LEN ?p2] by (auto simp: HGAP_SALVE_LEN_def)
  have hw: "hgap_encoder_handwave e (replicate (unat psz) 0) psz = Ret (HGAP_SUCCESS, ?p1, HGAP_HEADER_LEN)"
    using psz by (intro handwave_eq) simp_all
  have td: "hgap_encoder_teardown e (sl_pkt st) psz = Ret (HGAP_SUCCESS, ?p2, HGAP_HEADER_LEN)"
    using psz good by (intro teardown_eq) simp_all
  show ?thesis
    using s1 s2 st hw td by (simp add: send_loop_def send_loop_end_def hgap_sender_free_def)
qed

lemma encodes_step:
  "encodes W psz num m chunk \<Longrightarrow> encodes W psz num m (chunk\<lparr>ck_next_pkt_id := i\<rparr>)"
  by (simp add: encodes_def)

text \<open>A loop whose every turn misses the wanted redundancy and keeps an invariant never ends.\<close>

lemma emit_loop_diverges:
  assumes "I chunk st"
    and "\<And>c s. I c s \<Longrightarrow> \<exists>cur c' s'. emit_turn env W psz c s = Ret (cur, c', s') \<and>
      dbl_less cur wanted \<and> I c' s'"
  shows "emit_loop env W wanted psz chunk st = None"
proof -
  let ?P = "\<lambda>env' W' wanted' psz' c s (x :: ('a enc_chunk \<times> send_state) outcome).
    env' = env \<longrightarrow> W' = W \<longrightarrow> wanted' = wanted \<longrightarrow> psz' = psz \<longrightarrow> \<not> I c s"
  have "?P env W wanted psz chunk st x" if "emit_loop env W wanted psz chunk st = Some x" for x
  proof (rule emit_loop.raw_induct [where P = ?P, OF _ that], intro impI notI)
    fix loop env' W' wanted' psz' c s x
    assume IH: "\<And>W wanted psz chunk st b y. loop W wanted psz chunk st b = Some y \<Longrightarrow>
        ?P W wanted psz chunk st b y"
      and run: "(case emit_turn env' W' psz' c s of
          Ret (cur_redund, chunk', st') \<Rightarrow>
            if dbl_less cur_redund wanted' then loop env' W' wanted' psz' chunk' st'
            else Some (Ret (chunk', st'))
        | Exit \<Rightarrow> Some Exit | Undef \<Rightarrow> Some Undef | Loop \<Rightarrow> Some Loop) = Some x"
      and eq: "env' = env" "W' = W" "wanted' = wanted" "psz' = psz" and "I c s"
    from assms(2) [OF this(7)] obtain cur c' s' where
      "emit_turn env W psz c s = Ret (cur, c', s')" "dbl_less cur wanted" "I c' s'"
      by blast
    then show False using IH [of env W wanted psz c' s' x] run eq by simp
  qed
  then show ?thesis using assms(1) by (cases "emit_loop env W wanted psz chunk st") auto
qed

subsection \<open>Properties\<close>

text \<open>C19: the reader cuts the input into pieces of the slot size, in order and without loss; every piece is
  full but the last, which is shorter and empty exactly when the size divides the input's length.\<close>

theorem reader_cuts_the_input:
  assumes "0 < unat (elt_size - 16)"
    and "length slots = length (chunks_of (unat (elt_size - 16)) data)"
  shows "\<exists>st pieces rest. read_loop elt_size (True, True) (map read_turn_of slots @ ts)
      (Some \<lparr>f_rest = data, f_fail_at = None, f_eof = False, f_err = False\<rparr>) = Ret st \<and>
    rl_ret st = Retval (err_num HGAP_SUCCESS) \<and>
    rl_out st = map2 piece_buf (pieces @ [rest]) slots @ [SBUF_NULL] \<and>
    concat (pieces @ [rest]) = data \<and>
    list_all (\<lambda>m. length m = unat (elt_size - 16)) pieces \<and> length rest < unat (elt_size - 16)"
proof -
  obtain pieces rest where c: "chunks_of (unat (elt_size - 16)) data = pieces @ [rest]"
    "list_all (\<lambda>m. length m = unat (elt_size - 16)) pieces" "length rest < unat (elt_size - 16)"
    using chunks_of_lengths [OF assms(1)] by blast
  show ?thesis
    using read_loop_ok [OF refl assms, of ts] c concat_chunks_of [of "unat (elt_size - 16)" data]
    by auto
qed

theorem reader_cuts_the_input_witness:
  "\<exists>st pieces rest. read_loop 18 (True, True) (map read_turn_of [[0, 0], [0, 0], [0, 0]])
      (Some \<lparr>f_rest = [1, 2, 3, 4, 5], f_fail_at = None, f_eof = False, f_err = False\<rparr>) = Ret st \<and>
    rl_out st = map2 piece_buf (pieces @ [rest]) [[0, 0], [0, 0], [0, 0]] @ [SBUF_NULL] \<and>
    concat (pieces @ [rest]) = [1, 2, 3, 4, 5] \<and> length rest < 2"
proof -
  have c: "length (chunks_of 2 [1, 2, 3, 4, 5 :: u8]) = 3" by code_simp
  show ?thesis
    using reader_cuts_the_input [of 18 "[[0, 0], [0, 0], [0, 0]]" "[1, 2, 3, 4, 5]" "[]"] c
    by auto
qed

text \<open>C20: for a finite wanted redundancy from 1 to 2^20 the loop that sends a chunk ends (a larger one
  may be more than the 64 bits of \<open>total_gen\<close> can reach), for every chunk that is not empty, when
  wirehair writes every packet and the network takes every datagram: it sends exactly the packets with
  ids from zero up to a number \<open>K\<close>, which carry at least as many bytes as the message and are no more
  than the redundancy asks for.\<close>

theorem emission_ends_with_enough_packets:
  assumes "wh_block_size W" and "writes_all W psz m (ck_wh_state chunk)"
    and "is_double r" and "1 \<le> r" and "r \<le> 1048576"
    and "24 < unat psz" and "unat psz \<le> 1500" and "m \<noteq> []" and "length m \<le> 96000000"
    and "encodes W psz num m chunk" and "ck_next_pkt_id chunk = 0" and "ck_total_gen chunk = 0"
    and "good_env env (sl_sender st)" and "length (sl_pkt st) = unat psz"
  defines "P \<equiv> chunk_payload psz m" and "K \<equiv> n_packets (Fin r) (chunk_payload psz m) (length m)"
  shows "\<exists>chunk' st'. emit_loop env W (Fin r) psz chunk st = Some (Ret (chunk', st')) \<and>
      hs_wire (sl_sender st') =
        hs_wire (sl_sender st) @ packets W psz num m (ck_wh_state chunk) 0 K \<and>
      sl_ret st' = sl_ret st \<and>
    length m \<le> K * P \<and> K \<le> enough_packets r P (length m)"
proof -
  have P: "0 < P" "P \<le> 1500" using assms(6-8) by (auto simp: P_def chunk_payload_def)
  have n: "0 < length m" using assms(8) by simp
  have w: "wanted_ok (Fin r)" using assms(3-5) by (simp add: wanted_ok_def)
  have ready: "send_ready env psz st" using assms(13,14) by (simp add: send_ready_def)
  show ?thesis
    using chunk_emission [OF assms(1,2) w assms(6,7,9-12) ready]
      n_packets_bounds(4,5) [OF assms(3-5) n assms(9) P]
    by (auto simp: chunk_packets_def K_def P_def)
qed

theorem emission_ends_with_enough_packets_witness:
  "let env = \<lparr>env_clock = \<lambda>_. \<lparr>tv_sec = 0, tv_usec = 0\<rparr>, env_sendto = \<lambda>_ d. int (length d)\<rparr>;
       hs = \<lparr>hs_dst = (1, 11011), hs_keepalive = 0,
         hs_lim = hgap_limiter_new \<lparr>tv_sec = 0, tv_usec = 0\<rparr> (Fin 0), hs_cont = False, hs_wire = [],
         hs_calls = 0, hs_reads = 1\<rparr>;
       chunk = \<lparr>ck_num = 4, ck_len = 3, ck_pkt_size = 27, ck_next_pkt_id = 0,
         ck_wh_state = (None :: cyc option), ck_data = Some [1, 2, 3], ck_total_gen = 0\<rparr>
   in \<exists>chunk' st'. emit_loop env cyclic (Fin 2) 1400 chunk
        \<lparr>sl_sender = hs, sl_pkt = replicate 1400 0, sl_data_sent = 0, sl_ret = HGAP_SUCCESS,
         sl_more = True\<rparr> = Some (Ret (chunk', st')) \<and>
      hs_wire (sl_sender st') =
        packets cyclic 1400 4 [1, 2, 3] None 0 (n_packets (Fin 2) 3 3)"
proof -
  have "is_double 2" unfolding is_double_def by code_simp
  then show ?thesis
    unfolding Let_def
    using emission_ends_with_enough_packets [where m = "[1, 2, 3]" and W = cyclic and num = 4 and r = 2 and
        psz = 1400 and chunk = "\<lparr>ck_num = 4, ck_len = 3, ck_pkt_size = 27, ck_next_pkt_id = 0,
          ck_wh_state = (None :: cyc option), ck_data = Some [1, 2, 3], ck_total_gen = 0\<rparr>" and
        env = "\<lparr>env_clock = \<lambda>_. \<lparr>tv_sec = 0, tv_usec = 0\<rparr>, env_sendto = \<lambda>_ d. int (length d)\<rparr>" and
        st = "\<lparr>sl_sender = \<lparr>hs_dst = (1, 11011), hs_keepalive = 0,
            hs_lim = hgap_limiter_new \<lparr>tv_sec = 0, tv_usec = 0\<rparr> (Fin 0), hs_cont = False, hs_wire = [],
            hs_calls = 0, hs_reads = 1\<rparr>,
          sl_pkt = replicate 1400 0, sl_data_sent = 0, sl_ret = HGAP_SUCCESS, sl_more = True\<rparr>"]
    by (auto simp: encodes_def chunk_payload_def cyclic_block_size writes_all_def good_env_def
        sends_all_def rate_ok_def hgap_limiter_new_def numeral_3_eq_3)
qed

text \<open>C26: when wirehair fails to write packets, the loop that sends a chunk never ends: the error code
  minus one is below any redundancy, so the test that should end the loop repeats it.\<close>

theorem emission_never_ends_on_wirehair_failure:
  assumes "encodes W psz num m chunk" and "unat psz - 24 < length m"
    and "\<And>i. wh_write W (ck_wh_state chunk) i = None" and "wh_block_size W"
    and "length (sl_pkt st) = unat psz" and "dbl_less (Fin (-1)) wanted"
  shows "returns (emit_loop env W wanted psz chunk st) = Loop"
proof -
  let ?I = "\<lambda>c (s :: send_state). encodes W psz num m c \<and> ck_wh_state c = ck_wh_state chunk \<and>
    length (sl_pkt s) = unat psz"
  have "emit_loop env W wanted psz chunk st = None"
  proof (rule emit_loop_diverges [where I = ?I])
    show "?I chunk st" using assms by simp
    fix c and s :: send_state
    assume I: "?I c s"
    then have "24 \<le> unat psz" "length (sl_pkt s) = unat psz" by (simp_all add: encodes_def)
    then have "chunk_payload psz m + 24 \<le> length (sl_pkt s)"
      by (simp add: chunk_payload_def)
    moreover have "chunk_packet W psz num m (ck_wh_state c) (ucast (ck_next_pkt_id c)) = None"
      using I assms(2,3) by (simp add: chunk_packet_def chunk_block_def)
    ultimately have "hgap_enc_chunk_emit W c (sl_pkt s) psz =
        Ret (Fin (-1), c\<lparr>ck_next_pkt_id := ck_next_pkt_id c + 1\<rparr>, sl_pkt s, psz)"
      using hgap_enc_chunk_emit_eq [of W psz num m c "sl_pkt s" psz] I assms(4) by simp
    moreover have "encodes W psz num m (c\<lparr>ck_next_pkt_id := ck_next_pkt_id c + 1\<rparr>)"
      using encodes_step I by blast
    ultimately show "\<exists>cur c' s'. emit_turn env W psz c s = Ret (cur, c', s') \<and>
        dbl_less cur wanted \<and> ?I c' s'"
      using I assms(6) by (simp add: emit_turn_def Let_def)
  qed
  then show ?thesis by simp
qed

text \<open>A wirehair whose encoder starts and then fails at every packet.\<close>

theorem emission_never_ends_on_wirehair_failure_witness:
  "\<forall>env hs. returns (emit_loop env (cyclic\<lparr>wh_write := \<lambda>_ _. None\<rparr>) (Fin 2) 26
     \<lparr>ck_num = 4, ck_len = 3, ck_pkt_size = 26, ck_next_pkt_id = 0,
      ck_wh_state = Some (CycEnc [1, 2, 3] 2), ck_data = Some [1, 2, 3], ck_total_gen = 0\<rparr>
     \<lparr>sl_sender = hs, sl_pkt = replicate 26 0, sl_data_sent = 0, sl_ret = HGAP_SUCCESS,
      sl_more = True\<rparr>) = Loop"
  by (intro allI, rule emission_never_ends_on_wirehair_failure [where m = "[1, 2, 3]" and num = 4])
    (auto simp: encodes_def chunk_payload_def cyclic_def wh_block_size_def)

text \<open>With an infinite redundancy the loop that sends a chunk that is not empty never ends. Theory
  \<open>Programs\<close> shows that such a redundancy gets through the command line and the check.\<close>

lemma infinite_redundancy_loops:
  assumes "wh_block_size W" and "writes_all W psz m (ck_wh_state chunk)" and "m \<noteq> []"
    and "encodes W psz num m chunk" and "good_env env (sl_sender st)"
    and "length (sl_pkt st) = unat psz"
  shows "returns (emit_loop env W (Infty False) psz chunk st) = Loop"
proof -
  let ?I = "\<lambda>c s. encodes W psz num m c \<and> ck_wh_state c = ck_wh_state chunk \<and> send_ready env psz s"
  have "0 < (of_nat (length m) :: rat)" using assms(3) by simp
  from fround_half [OF this] this have "fround (of_nat (length m)) \<noteq> 0" by linarith
  then have less: "dbl_less (redundancy k (length m)) (Infty False)" for k
    by (simp add: redundancy_def dbl_of_nat_def)
  have "emit_loop env W (Infty False) psz chunk st = None"
  proof (rule emit_loop_diverges [where I = ?I])
    show "?I chunk st" using assms by (simp add: send_ready_def)
    fix c s
    assume I: "?I c s"
    then obtain raw where
      "chunk_packet W psz num m (ck_wh_state c) (ucast (ck_next_pkt_id c)) = Some raw"
      using writes_all_packet [OF assms(2)] by metis
    then obtain s' where "emit_turn env W psz c s =
        Ret (redundancy (unat (ck_total_gen c + of_nat (chunk_payload psz m))) (length m),
          c\<lparr>ck_next_pkt_id := ck_next_pkt_id c + 1,
            ck_total_gen := ck_total_gen c + of_nat (chunk_payload psz m)\<rparr>, s')"
      "send_ready env psz s'"
      using emit_turn_ok [OF _ assms(1), of psz num m c raw env s] I by blast
    then show "\<exists>cur c' s'. emit_turn env W psz c s = Ret (cur, c', s') \<and>
        dbl_less cur (Infty False) \<and> ?I c' s'"
      using less encodes_next I by auto
  qed
  then show ?thesis by simp
qed

text \<open>A sender that could not be created is freed all the same: \<open>send_loop\<close> dereferences the null
  pointer that \<open>hgap_sender_new\<close> returns when the socket or its thread cannot be had.\<close>

theorem null_sender_is_dereferenced:
  "hgap_sender_new env False dst thread_ok prt rate ka = None \<and>
   send_loop env W wanted psz enc None inputs = Undef"
  by (simp add: hgap_sender_new_def Let_def send_loop_def send_loop_end_def hgap_sender_free_def)

end
