(* ===== verification/Decoder.thy ===== *)
theory Decoder
  imports Encoder
begin

section \<open>The decoder: the second half of \<open>src/lib/encoding.c\<close>\<close>

text \<open>
  The decoder reads raw packets one by one, follows the state of the transfer
  (new, started, data, stopped) and reassembles one chunk at a time. A function of type
  \<open>ssize_t\<close> returns an \<open>int\<close>: a length, zero, or minus an error. The flags
  \<open>chunk_complete\<close> and \<open>chunk_emitted\<close> are booleans. Logging is left out.
\<close>

subsection \<open>Data\<close>

datatype hgap_decoder_state = T_NEW | T_STARTED | T_DATA | T_STOPPED

primrec state_num :: "hgap_decoder_state \<Rightarrow> nat" where
  "state_num T_NEW = 0"
| "state_num T_STARTED = 1"
| "state_num T_DATA = 2"
| "state_num T_STOPPED = 3"

record 's hgap_decoder =
  dec_pkt_size :: u64
  dec_chunk :: "'s enc_chunk"
  chunk_complete :: bool
  chunk_emitted :: bool
  dec_state :: hgap_decoder_state

subsection \<open>Chunks\<close>

definition hgap_dec_chunk_init ::
  "'s wirehair \<Rightarrow> 's enc_chunk \<Rightarrow> hgap_pkt \<Rightarrow> hgap_err \<times> 's enc_chunk" where
  "hgap_dec_chunk_init W chunk pkt =
     (let chunk1 = chunk\<lparr>ck_data := None, ck_num := chunk_num (hdr pkt),
            ck_len := chunk_size (hdr pkt),
            ck_pkt_size := ucast (data_size (hdr pkt)) + HGAP_HEADER_LEN,
            ck_next_pkt_id := ucast (data_id (hdr pkt))\<rparr>
      in if \<not> hgap_enc_chunk_is_small chunk1
         then let wh_block_size = hgap_enc_chunk_pkt_payload_size chunk1;
                  st = wh_decode W (ck_wh_state chunk1) (ck_len chunk1) wh_block_size;
                  chunk2 = chunk1\<lparr>ck_wh_state := st\<rparr>
              in if st = None then (HGAP_ERR_WIREHAIR_ERROR, chunk2) else (HGAP_SUCCESS, chunk2)
         else (HGAP_SUCCESS, chunk1))"

text \<open>
  \<open>wirehair_read\<close> takes a block of the size the decoder was created with, from the payload
  of the packet; the packet's own \<open>data_size\<close> is not looked at.
\<close>

definition hgap_dec_chunk_read ::
  "'s wirehair \<Rightarrow> 's enc_chunk \<Rightarrow> hgap_pkt \<Rightarrow> (int \<times> 's enc_chunk) outcome" where
  "hgap_dec_chunk_read W chunk pkt =
     (if ck_data chunk \<noteq> None then Ret (sint (ck_len chunk), chunk)
      else
        let pkt_id = ucast (data_id (hdr pkt)) :: u64;
            chunk1 = chunk\<lparr>ck_next_pkt_id := pkt_id + 1\<rparr>
        in if hgap_enc_chunk_is_small chunk1
           then obind (mem_read (unat (ck_len chunk1)) (pkt_data pkt)) (\<lambda>d.
                  Ret (sint (ck_len chunk1), chunk1\<lparr>ck_data := Some d\<rparr>))
           else
             case ck_wh_state chunk1 of
               None \<Rightarrow> Ret (-1, chunk1)
             | Some s \<Rightarrow>
                 obind (mem_read (unat (hgap_enc_chunk_pkt_payload_size chunk1)) (pkt_data pkt))
                   (\<lambda>block.
                     let (ready, s') = wh_read W s (ucast pkt_id) block;
                         chunk2 = chunk1\<lparr>ck_wh_state := Some s'\<rparr>
                     in Ret (if ready then sint (ck_len chunk2) else 0, chunk2)))"

subsection \<open>The decoder\<close>

definition hgap_decoder_new :: "'s hgap_decoder" where
  "hgap_decoder_new =
     \<lparr>dec_pkt_size = HGAP_MAX_PKT_SIZE, dec_chunk = hgap_enc_chunk_new\<lparr>ck_num := -1\<rparr>,
      chunk_complete = True, chunk_emitted = True, dec_state = T_NEW\<rparr>"

text \<open>The flag says whether the packet has to be handled.\<close>

definition hgap_decoder_update_state ::
  "'s hgap_decoder \<Rightarrow> bytes \<Rightarrow> u64 \<Rightarrow> (bool \<times> 's hgap_decoder) outcome" where
  "hgap_decoder_update_state dec raw_pkt sz =
     obind (hgap_pkt_type raw_pkt sz) (\<lambda>t.
       case t of
         HGAP_PKT_BEGIN \<Rightarrow>
           Ret (False, if dec_state dec = T_NEW then dec\<lparr>dec_state := T_STARTED\<rparr> else dec)
       | HGAP_PKT_DATA \<Rightarrow>
           Ret (True, if dec_state dec = T_STARTED then dec\<lparr>dec_state := T_DATA\<rparr> else dec)
       | HGAP_PKT_END \<Rightarrow>
           Ret (False, if state_num (dec_state dec) \<ge> state_num T_STARTED
                       then dec\<lparr>dec_state := T_STOPPED\<rparr> else dec)
       | HGAP_PKT_UNKNOWN \<Rightarrow> Ret (False, dec)
       | HGAP_PKT_KEEPALIVE \<Rightarrow> Ret (False, dec))"

text \<open>The part of \<open>hgap_decoder_read\<close> that incorporates a packet of the current chunk.\<close>

definition decoder_incorporate ::
  "'s wirehair \<Rightarrow> 's hgap_decoder \<Rightarrow> hgap_pkt \<Rightarrow> (int \<times> 's hgap_decoder) outcome" where
  "decoder_incorporate W dec pkt =
     obind (hgap_dec_chunk_read W (dec_chunk dec) pkt) (\<lambda>(ready, chunk).
       let dec1 = dec\<lparr>dec_chunk := chunk\<rparr>
       in Ret (ready, if ready > 0 then dec1\<lparr>chunk_complete := True\<rparr> else dec1))"

text \<open>The part that handles a data packet: a new chunk, a complete one, or a packet to add.\<close>

definition decoder_handle ::
  "'s wirehair \<Rightarrow> 's hgap_decoder \<Rightarrow> hgap_pkt \<Rightarrow> (int \<times> 's hgap_decoder) outcome" where
  "decoder_handle W dec pkt =
     (if chunk_num (hdr pkt) \<noteq> ck_num (dec_chunk dec)
      then
        if \<not> chunk_complete dec then Ret (- err_num HGAP_ERR_INCOMPLETE_CHUNK, dec)
        else if chunk_size (hdr pkt) > HGAP_MAX_CHUNK_SIZE
        then Ret (- err_num HGAP_ERR_BAD_CHUNK, dec)
        else let (_, chunk) = hgap_dec_chunk_init W (hgap_enc_chunk_purge (dec_chunk dec)) pkt
             in decoder_incorporate W
                  (dec\<lparr>dec_chunk := chunk, chunk_complete := False, chunk_emitted := False\<rparr>) pkt
      else if chunk_complete dec
      then Ret (if chunk_emitted dec then 0 else sint (ck_len (dec_chunk dec)), dec)
      else decoder_incorporate W dec pkt)"

text \<open>
  The result of \<open>hgap_pkt_parse\<close> is not looked at. Where the parser returns before it has
  written the packet, handling it would read an uninitialised local.
\<close>

definition hgap_decoder_read ::
  "'s wirehair \<Rightarrow> 's hgap_decoder \<Rightarrow> bytes \<Rightarrow> u64 \<Rightarrow> (int \<times> 's hgap_decoder) outcome" where
  "hgap_decoder_read W dec raw_pkt sz =
     obind (hgap_pkt_parse raw_pkt sz) (\<lambda>(_, pkt).
     obind (hgap_decoder_update_state dec raw_pkt sz) (\<lambda>(handle_pkt, dec1).
       if state_num (dec_state dec1) < state_num T_DATA then Ret (0, dec1)
       else if dec_state dec1 = T_STOPPED then Ret (- err_num HGAP_EOT, dec1)
       else if \<not> handle_pkt then Ret (0, dec1)
       else case pkt of None \<Rightarrow> Undef | Some p \<Rightarrow> decoder_handle W dec1 p))"

definition hgap_decoder_emit ::
  "'s wirehair \<Rightarrow> 's hgap_decoder \<Rightarrow> bytes \<Rightarrow> u64 \<Rightarrow>
     (hgap_err \<times> 's hgap_decoder \<times> bytes) outcome" where
  "hgap_decoder_emit W dec out_buf sz =
     (let chunk = dec_chunk dec
      in if \<not> chunk_complete dec then Ret (HGAP_ERR_INCOMPLETE_CHUNK, dec, out_buf)
         else if sz < ck_len chunk then Ret (HGAP_ERR_BUFFER_TOO_SMALL, dec, out_buf)
         else if hgap_enc_chunk_is_small chunk
         then CHK (ck_data chunk \<noteq> None)
                (obind (mem_read (unat (ck_len chunk)) (the (ck_data chunk))) (\<lambda>d.
                 obind (mem_write 0 d out_buf) (\<lambda>out.
                   Ret (HGAP_SUCCESS, dec\<lparr>chunk_emitted := True\<rparr>, out))))
         else case wh_reconstruct W (ck_wh_state chunk) of
                None \<Rightarrow> Ret (HGAP_ERR_WIREHAIR_ERROR, dec, out_buf)
              | Some m \<Rightarrow>
                  obind (mem_write 0 m out_buf) (\<lambda>out.
                    Ret (HGAP_SUCCESS, dec\<lparr>chunk_emitted := True\<rparr>, out)))"

subsection \<open>The protocol automaton\<close>

text \<open>What a packet of each type does to the state of the transfer.\<close>

fun next_state :: "hgap_pkt_t \<Rightarrow> hgap_decoder_state \<Rightarrow> hgap_decoder_state" where
  "next_state HGAP_PKT_BEGIN T_NEW = T_STARTED"
| "next_state HGAP_PKT_DATA T_STARTED = T_DATA"
| "next_state HGAP_PKT_END T_STARTED = T_STOPPED"
| "next_state HGAP_PKT_END T_DATA = T_STOPPED"
| "next_state _ st = st"

lemma state_num_simps [simp]:
  "state_num st < 2 \<longleftrightarrow> st = T_NEW \<or> st = T_STARTED"
  "Suc 0 \<le> state_num st \<longleftrightarrow> st \<noteq> T_NEW"
  by (cases st; simp)+

lemma next_state_mono: "state_num st \<le> state_num (next_state t st)"
  by (cases "(t, st)" rule: next_state.cases) auto

lemma update_state_eq:
  assumes "hgap_pkt_type raw sz = Ret t"
  shows "hgap_decoder_update_state dec raw sz =
    Ret (t = HGAP_PKT_DATA, dec\<lparr>dec_state := next_state t (dec_state dec)\<rparr>)"
  using assms
  by (cases t; cases "dec_state dec") (simp_all add: hgap_decoder_update_state_def)

definition raw_type :: "bytes \<Rightarrow> u64 \<Rightarrow> hgap_pkt_t" where
  "raw_type raw sz =
     (if unat sz < 24 then HGAP_PKT_UNKNOWN
      else type_of_num (chunk_num (read_header (take 24 raw))))"

definition raw_pkt :: "bytes \<Rightarrow> hgap_pkt" where
  "raw_pkt raw = \<lparr>hdr = read_header (take 24 raw), pkt_data = drop 24 raw\<rparr>"

text \<open>
  One packet, with the received bytes inside the object: the state first, then the handling.
  No uninitialised packet is ever used, because a packet too short to be parsed is unknown.
\<close>

lemma hgap_decoder_read_eq:
  assumes "unat sz \<le> length raw"
  shows "hgap_decoder_read W dec raw sz =
    (let t = raw_type raw sz; st = next_state t (dec_state dec);
         dec1 = dec\<lparr>dec_state := st\<rparr>
     in if st = T_NEW \<or> st = T_STARTED then Ret (0, dec1)
        else if st = T_STOPPED then Ret (- err_num HGAP_EOT, dec1)
        else if t \<noteq> HGAP_PKT_DATA then Ret (0, dec1)
        else decoder_handle W dec1 (raw_pkt raw))"
proof -
  have t: "hgap_pkt_type raw sz = Ret (raw_type raw sz)"
    using assms by (simp add: hgap_pkt_type_eq raw_type_def)
  show ?thesis
  proof (cases "unat sz < 24")
    case True
    then show ?thesis
      using assms
      by (cases "dec_state dec")
        (simp_all add: hgap_decoder_read_def update_state_eq [OF t] hgap_pkt_parse_eq Let_def
          raw_type_def)
  next
    case False
    then show ?thesis
      using assms
      by (simp add: hgap_decoder_read_def update_state_eq [OF t] hgap_pkt_parse_eq Let_def
          raw_pkt_def)
  qed
qed

lemma decoder_incorporate_state:
  "decoder_incorporate W dec p = Ret (r, dec') \<Longrightarrow> dec_state dec' = dec_state dec"
  by (auto simp: decoder_incorporate_def obind_Ret_iff Let_def split: prod.splits if_splits)

lemma decoder_handle_state:
  "decoder_handle W dec p = Ret (r, dec') \<Longrightarrow> dec_state dec' = dec_state dec"
  by (auto simp: decoder_handle_def split: prod.splits if_splits
      dest: decoder_incorporate_state)

lemma decoder_read_state:
  assumes "unat sz \<le> length raw" and "hgap_decoder_read W dec raw sz = Ret (r, dec')"
  shows "dec_state dec' = next_state (raw_type raw sz) (dec_state dec)"
  using assms(2) unfolding hgap_decoder_read_eq [OF assms(1)]
  by (auto simp: Let_def split: if_splits dest: decoder_handle_state)

subsection \<open>Well-formed decoders\<close>

text \<open>
  \<open>chunk_num = -1\<close> marks a decoder that has not seen a chunk yet; no data packet has that
  number, it is reserved. A chunk that is complete and small has its data, of the length
  announced; the length of a chunk never exceeds \<open>HGAP_MAX_CHUNK_SIZE\<close>.
\<close>

definition chunk_ok :: "'s enc_chunk \<Rightarrow> bool" where
  "chunk_ok c \<longleftrightarrow>
     unat (ck_len c) \<le> unat HGAP_MAX_CHUNK_SIZE \<and>
     24 \<le> unat (ck_pkt_size c) \<and> unat (ck_pkt_size c) < 2 ^ 32 + 24 \<and>
     (case ck_data c of None \<Rightarrow> True
      | Some d \<Rightarrow> length d = unat (ck_len c) \<and> hgap_enc_chunk_is_small c)"

definition dec_ok :: "'s hgap_decoder \<Rightarrow> bool" where
  "dec_ok dec \<longleftrightarrow>
     (chunk_emitted dec \<longrightarrow> chunk_complete dec) \<and>
     (if ck_num (dec_chunk dec) = -1
      then chunk_complete dec \<and> chunk_emitted dec
      else chunk_ok (dec_chunk dec) \<and>
        (dec_state dec = T_DATA \<or> dec_state dec = T_STOPPED) \<and>
        (chunk_complete dec \<longrightarrow> ck_len (dec_chunk dec) \<noteq> 0 \<and>
           (hgap_enc_chunk_is_small (dec_chunk dec) \<longrightarrow> ck_data (dec_chunk dec) \<noteq> None)))"

lemma dec_ok_new: "dec_ok hgap_decoder_new"
  by (simp add: dec_ok_def hgap_decoder_new_def)

lemma sint_small: "unat (w :: u64) < 2 ^ 63 \<Longrightarrow> sint w = uint w"
proof -
  assume "unat w < 2 ^ 63"
  then have "int (unat w) < int (2 ^ 63)" by (simp only: of_nat_less_iff)
  then have "uint w < 2 ^ 63" by simp
  then show ?thesis
    using uint_ge_0 [of w] unfolding sint_uint
    by (intro signed_take_bit_int_eq_self) (simp_all add: order_trans [of _ 0])
qed

lemma uint_pos_iff: "0 < uint (w :: u64) \<longleftrightarrow> w \<noteq> 0"
  using uint_ge_0 [of w] by (auto simp: less_le word_uint_eq_iff)

lemma chunk_ok_len: "chunk_ok c \<Longrightarrow> sint (ck_len c) = uint (ck_len c)"
  by (rule sint_small) (simp add: chunk_ok_def)

lemma dec_chunk_init_ok:
  assumes "chunk_size (hdr p) \<le> HGAP_MAX_CHUNK_SIZE"
    and "hgap_dec_chunk_init W c p = (e, c')"
  shows "chunk_ok c'" "ck_num c' = chunk_num (hdr p)" "ck_data c' = None"
    "ck_len c' = chunk_size (hdr p)"
    "unat (ck_pkt_size c') = unat (data_size (hdr p)) + 24"
proof -
  have d: "unat (data_size (hdr p)) < 2 ^ LENGTH(32)" by (rule unsigned_less)
  show "ck_num c' = chunk_num (hdr p)" "ck_data c' = None" and len: "ck_len c' = chunk_size (hdr p)"
    and pkt: "unat (ck_pkt_size c') = unat (data_size (hdr p)) + 24"
    using assms(2) payload_bound_no_wrap [of "data_size (hdr p)"]
    by (auto simp: hgap_dec_chunk_init_def Let_def split: if_splits)
  then show "chunk_ok c'"
    using assms(1) d by (simp add: chunk_ok_def word_le_nat_alt)
qed

lemma small_cong:
  "ck_len c' = ck_len c \<Longrightarrow> ck_pkt_size c' = ck_pkt_size c \<Longrightarrow>
    hgap_enc_chunk_is_small c' = hgap_enc_chunk_is_small c"
  by (simp add: hgap_enc_chunk_is_small_def hgap_enc_chunk_pkt_payload_size_def)

lemma small_next_id [simp]:
  "hgap_enc_chunk_is_small (c\<lparr>ck_next_pkt_id := i\<rparr>) = hgap_enc_chunk_is_small c"
  "hgap_enc_chunk_is_small (c\<lparr>ck_data := d\<rparr>) = hgap_enc_chunk_is_small c"
  "hgap_enc_chunk_is_small (c\<lparr>ck_wh_state := w\<rparr>) = hgap_enc_chunk_is_small c"
  by (simp_all add: hgap_enc_chunk_is_small_def hgap_enc_chunk_pkt_payload_size_def)

lemma ucast_id_roundtrip [simp]: "ucast (ucast (d :: u32) :: u64) = d"
  by (rule bit_word_eqI) (simp add: bit_simps)

lemma dec_chunk_read_ok:
  assumes ok: "chunk_ok c" and rd: "hgap_dec_chunk_read W c p = Ret (r, c')"
  shows "chunk_ok c'" "ck_num c' = ck_num c" "ck_len c' = ck_len c"
    "ck_pkt_size c' = ck_pkt_size c"
    "r > 0 \<Longrightarrow> r = uint (ck_len c) \<and>
      (hgap_enc_chunk_is_small c' \<longrightarrow> ck_data c' \<noteq> None)"
proof -
  note len = chunk_ok_len [OF ok]
  consider "ck_data c \<noteq> None" "c' = c" "r = uint (ck_len c)"
    | d i where "hgap_enc_chunk_is_small c" "length d = unat (ck_len c)" "r = uint (ck_len c)"
        "c' = c\<lparr>ck_next_pkt_id := i, ck_data := Some d\<rparr>"
    | i w where "ck_data c = None" "\<not> hgap_enc_chunk_is_small c"
        "r = uint (ck_len c) \<or> r \<le> 0" "c' = c\<lparr>ck_next_pkt_id := i, ck_wh_state := w\<rparr>"
  proof (cases "ck_data c = None")
    case False
    then have "c' = c" "r = uint (ck_len c)"
      using rd len by (auto simp: hgap_dec_chunk_read_def)
    with False show ?thesis using that(1) by blast
  next
    case none: True
    show ?thesis
    proof (cases "hgap_enc_chunk_is_small c")
      case True
      have "r = uint (ck_len c) \<and> (\<exists>d i. length d = unat (ck_len c) \<and>
          c' = c\<lparr>ck_next_pkt_id := i, ck_data := Some d\<rparr>)"
        using rd len none True
        by (auto simp: hgap_dec_chunk_read_def Let_def obind_Ret_iff mem_read_Ret_iff)
          (metis length_take min.absorb2)
      then show ?thesis using that(2) True by blast
    next
      case False
      have "(r = uint (ck_len c) \<or> r \<le> 0) \<and>
          (\<exists>i w. c' = c\<lparr>ck_next_pkt_id := i, ck_wh_state := w\<rparr>)"
      proof (cases "ck_wh_state c")
        case None
        then have "c' = c\<lparr>ck_next_pkt_id := ucast (data_id (hdr p)) + 1, ck_wh_state := None\<rparr>"
          "r = -1"
          using rd none False by (auto simp: hgap_dec_chunk_read_def Let_def)
        then show ?thesis by auto
      next
        case (Some s)
        then obtain b where "(case wh_read W s (data_id (hdr p)) b of (ready, s') \<Rightarrow>
            Ret (if ready then sint (ck_len (c\<lparr>ck_next_pkt_id := ucast (data_id (hdr p)) + 1,
                   ck_wh_state := Some s'\<rparr>)) else 0,
              c\<lparr>ck_next_pkt_id := ucast (data_id (hdr p)) + 1, ck_wh_state := Some s'\<rparr>)) = Ret (r, c')"
          using rd none False by (auto simp: hgap_dec_chunk_read_def Let_def obind_Ret_iff)
        then show ?thesis
          using len by (cases "wh_read W s (data_id (hdr p)) b") (auto split: if_splits)
      qed
      then show ?thesis using that(3) none False by blast
    qed
  qed
  then have "chunk_ok c' \<and> ck_num c' = ck_num c \<and> ck_len c' = ck_len c \<and>
    ck_pkt_size c' = ck_pkt_size c \<and> (r > 0 \<longrightarrow> r = uint (ck_len c) \<and>
      (hgap_enc_chunk_is_small c' \<longrightarrow> ck_data c' \<noteq> None))"
    using ok by cases (auto simp: chunk_ok_def)
  then show "chunk_ok c'" "ck_num c' = ck_num c" "ck_len c' = ck_len c"
    "ck_pkt_size c' = ck_pkt_size c"
    "r > 0 \<Longrightarrow> r = uint (ck_len c) \<and> (hgap_enc_chunk_is_small c' \<longrightarrow> ck_data c' \<noteq> None)"
    by blast+
qed

lemma decoder_incorporate_ok:
  assumes "chunk_ok (dec_chunk dec)" "\<not> chunk_complete dec" "\<not> chunk_emitted dec"
    "ck_num (dec_chunk dec) \<noteq> -1" "dec_state dec = T_DATA"
    and inc: "decoder_incorporate W dec p = Ret (r, dec')"
  shows "dec_ok dec'" "r > 0 \<Longrightarrow> r = uint (ck_len (dec_chunk dec')) \<and>
    chunk_complete dec' \<and> \<not> chunk_emitted dec'"
    "ck_num (dec_chunk dec') \<noteq> -1"
proof -
  obtain c where rd: "hgap_dec_chunk_read W (dec_chunk dec) p = Ret (r, c)"
    and dec': "dec' = (if r > 0 then dec\<lparr>dec_chunk := c, chunk_complete := True\<rparr>
                       else dec\<lparr>dec_chunk := c\<rparr>)"
    using inc by (auto simp: decoder_incorporate_def obind_Ret_iff Let_def split: if_splits)
  note ok = dec_chunk_read_ok [OF assms(1) rd]
  show "dec_ok dec'" "r > 0 \<Longrightarrow> r = uint (ck_len (dec_chunk dec')) \<and>
    chunk_complete dec' \<and> \<not> chunk_emitted dec'" "ck_num (dec_chunk dec') \<noteq> -1"
    using ok assms(2-5) by (auto simp: dec' dec_ok_def uint_pos_iff)
qed

lemma decoder_handle_ok:
  assumes ok: "dec_ok dec" and st: "dec_state dec = T_DATA" and num: "chunk_num (hdr p) \<noteq> -1"
    and h: "decoder_handle W dec p = Ret (r, dec')"
  shows "dec_ok dec' \<and> (r > 0 \<longrightarrow> r = uint (ck_len (dec_chunk dec')) \<and>
    chunk_complete dec' \<and> \<not> chunk_emitted dec' \<and> ck_num (dec_chunk dec') \<noteq> -1)"
proof (cases "chunk_num (hdr p) \<noteq> ck_num (dec_chunk dec)")
  case True
  show ?thesis
  proof (cases "chunk_complete dec \<and> chunk_size (hdr p) \<le> HGAP_MAX_CHUNK_SIZE")
    case sz: True
    obtain e c where init: "hgap_dec_chunk_init W (hgap_enc_chunk_purge (dec_chunk dec)) p = (e, c)"
      by (cases "hgap_dec_chunk_init W (hgap_enc_chunk_purge (dec_chunk dec)) p")
    note c = dec_chunk_init_ok [OF conjunct2 [OF sz] init]
    let ?dec = "dec\<lparr>dec_chunk := c, chunk_complete := False, chunk_emitted := False\<rparr>"
    have "decoder_incorporate W ?dec p = Ret (r, dec')"
      using h True sz init by (simp add: decoder_handle_def not_le [symmetric])
    from decoder_incorporate_ok [OF _ _ _ _ _ this] show ?thesis
      using c st num by simp
  qed (use h True ok in \<open>auto simp: decoder_handle_def split: if_splits prod.splits\<close>)
next
  case False
  show ?thesis
  proof (cases "chunk_complete dec")
    case True
    then show ?thesis
      using h False ok num chunk_ok_len [of "dec_chunk dec"]
      by (auto simp: decoder_handle_def dec_ok_def)
  next
    case inc: False
    then have "decoder_incorporate W dec p = Ret (r, dec')"
      using h False by (simp add: decoder_handle_def)
    from decoder_incorporate_ok [OF _ inc _ _ st this] show ?thesis
      using ok inc False num by (auto simp: dec_ok_def split: if_splits)
  qed
qed

text \<open>Every packet and every emission keeps the decoder well formed.\<close>

lemma raw_type_DATA:
  "raw_type raw sz = HGAP_PKT_DATA \<longleftrightarrow>
     24 \<le> unat sz \<and> chunk_num (hdr (raw_pkt raw)) < HGAP_FIRST_RESERVED"
  by (auto simp: raw_type_def raw_pkt_def type_of_num_DATA_iff)

lemma not_reserved: "n < HGAP_FIRST_RESERVED \<Longrightarrow> n \<noteq> -1"
  by (auto simp: proto_consts)

lemma dec_ok_next_state: "dec_ok dec \<Longrightarrow> dec_ok (dec\<lparr>dec_state := next_state t (dec_state dec)\<rparr>)"
  by (cases t) (auto simp: dec_ok_def)

lemma decoder_read_ok:
  assumes ok: "dec_ok dec" and sz: "unat sz \<le> length raw"
    and rd: "hgap_decoder_read W dec raw sz = Ret (r, dec')"
  shows "dec_ok dec' \<and> (r > 0 \<longrightarrow> r = uint (ck_len (dec_chunk dec')) \<and>
    chunk_complete dec' \<and> \<not> chunk_emitted dec' \<and> ck_num (dec_chunk dec') \<noteq> -1)"
proof -
  let ?t = "raw_type raw sz"
  let ?dec = "dec\<lparr>dec_state := next_state ?t (dec_state dec)\<rparr>"
  have ok': "dec_ok ?dec" by (rule dec_ok_next_state [OF ok])
  show ?thesis
  proof (cases "next_state ?t (dec_state dec) = T_DATA \<and> ?t = HGAP_PKT_DATA")
    case True
    then have "decoder_handle W ?dec (raw_pkt raw) = Ret (r, dec')"
      using rd by (cases "dec_state dec") (auto simp: hgap_decoder_read_eq [OF sz] Let_def)
    moreover have "chunk_num (hdr (raw_pkt raw)) \<noteq> -1"
      using True not_reserved by (simp add: raw_type_DATA)
    moreover have "dec_state ?dec = T_DATA" using conjunct1 [OF True] by simp
    ultimately show ?thesis
      using decoder_handle_ok [OF ok'] by blast
  next
    case False
    then have "dec' = ?dec \<and> r \<le> 0"
      using rd by (cases "next_state ?t (dec_state dec)")
        (auto simp: hgap_decoder_read_eq [OF sz] Let_def split: if_splits)
    then show ?thesis using ok' by auto
  qed
qed

lemma decoder_emit_ok:
  assumes "dec_ok dec" and "hgap_decoder_emit W dec out sz = Ret (e, dec', out')"
  shows "dec_ok dec'"
  using assms
  by (auto simp: hgap_decoder_emit_def Let_def CHK_Ret_iff obind_Ret_iff dec_ok_def
      split: if_splits option.splits)

lemma decoder_emit_small:
  assumes ok: "dec_ok dec" and num: "ck_num (dec_chunk dec) \<noteq> -1"
    and c: "chunk_complete dec" and small: "hgap_enc_chunk_is_small (dec_chunk dec)"
    and room: "ck_len (dec_chunk dec) \<le> sz" "unat sz \<le> length out"
  shows "\<exists>d. ck_data (dec_chunk dec) = Some d \<and> length d = unat (ck_len (dec_chunk dec)) \<and>
    hgap_decoder_emit W dec out sz =
      Ret (HGAP_SUCCESS, dec\<lparr>chunk_emitted := True\<rparr>, d @ drop (length d) out)"
proof -
  obtain d where d: "ck_data (dec_chunk dec) = Some d" "length d = unat (ck_len (dec_chunk dec))"
    using ok num c small by (auto simp: dec_ok_def chunk_ok_def)
  have "\<not> sz < ck_len (dec_chunk dec)" "length d \<le> length out"
    using room d(2) by (auto simp: word_le_nat_alt not_less)
  then show ?thesis
    using c small d
    by (simp add: hgap_decoder_emit_def Let_def mem_read_def mem_write_def)
qed

subsection \<open>Memory safety\<close>

text \<open>
  A read stays inside the packet when the packet parses and, if it continues the chunk being
  reassembled, carries a payload of the size that chunk was started with. Neither is checked
  by the code: the parser's verdict is dropped.
\<close>

definition pkt_fits :: "'s hgap_decoder \<Rightarrow> bytes \<Rightarrow> u64 \<Rightarrow> bool" where
  "pkt_fits dec raw sz \<longleftrightarrow>
     (let h = hdr (raw_pkt raw)
      in unat (data_size h) + 24 \<le> unat sz \<and>
         (chunk_num h = ck_num (dec_chunk dec) \<and> \<not> chunk_complete dec \<longrightarrow>
            unat (ck_pkt_size (dec_chunk dec)) \<le> unat (data_size h) + 24))"

lemma dec_chunk_read_safe:
  assumes "24 \<le> unat (ck_pkt_size c)" and "unat (ck_pkt_size c) \<le> length (pkt_data p) + 24"
  shows "\<exists>r c'. hgap_dec_chunk_read W c p = Ret (r, c')"
proof -
  have pay: "unat (hgap_enc_chunk_pkt_payload_size c') \<le> length (pkt_data p)"
    if "ck_pkt_size c' = ck_pkt_size c" for c' :: "'s enc_chunk"
    using assms that
    by (simp add: hgap_enc_chunk_pkt_payload_size_def unat_sub word_le_nat_alt)
  have small: "unat (ck_len c) \<le> length (pkt_data p)" if "hgap_enc_chunk_is_small c"
    using that pay [of c] by (simp add: hgap_enc_chunk_is_small_def word_le_nat_alt)
  show ?thesis
  proof (cases "hgap_enc_chunk_is_small c")
    case True
    then show ?thesis
      using small by (simp add: hgap_dec_chunk_read_def Let_def mem_read_def)
  next
    case False
    then show ?thesis
      using pay [of "c\<lparr>ck_next_pkt_id := ucast (data_id (hdr p)) + 1\<rparr>"]
      by (cases "ck_wh_state c")
        (auto simp: hgap_dec_chunk_read_def Let_def mem_read_def split: prod.splits)
  qed
qed

lemma decoder_incorporate_safe:
  assumes "24 \<le> unat (ck_pkt_size (dec_chunk dec))"
    and "unat (ck_pkt_size (dec_chunk dec)) \<le> length (pkt_data p) + 24"
  shows "\<exists>r dec'. decoder_incorporate W dec p = Ret (r, dec')"
  using dec_chunk_read_safe [OF assms, of W] by (auto simp: decoder_incorporate_def Let_def)

lemma decoder_read_safe:
  assumes ok: "dec_ok dec" and sz: "unat sz \<le> length raw"
    and fits: "24 \<le> unat sz \<Longrightarrow> pkt_fits dec raw sz"
  shows "\<exists>r dec'. hgap_decoder_read W dec raw sz = Ret (r, dec')"
proof -
  let ?t = "raw_type raw sz" and ?p = "raw_pkt raw"
  let ?dec = "dec\<lparr>dec_state := next_state ?t (dec_state dec)\<rparr>"
  have "\<exists>r dec'. decoder_handle W ?dec ?p = Ret (r, dec')" if t: "?t = HGAP_PKT_DATA"
  proof -
    have len: "24 \<le> unat sz" and num: "chunk_num (hdr ?p) \<noteq> -1"
      using t not_reserved by (auto simp: raw_type_DATA)
    have data: "length (pkt_data ?p) = length raw - 24" by (simp add: raw_pkt_def)
    have fit: "unat (data_size (hdr ?p)) \<le> length (pkt_data ?p)"
    proof -
      have "unat (data_size (hdr ?p)) + 24 \<le> unat sz"
        using fits [OF len] by (simp add: pkt_fits_def Let_def)
      then show ?thesis using sz data by linarith
    qed
    show ?thesis
    proof (cases "chunk_num (hdr ?p) = ck_num (dec_chunk dec)")
      case True
      show ?thesis
      proof (cases "chunk_complete dec")
        case False
        then have "24 \<le> unat (ck_pkt_size (dec_chunk dec))"
          "unat (ck_pkt_size (dec_chunk dec)) \<le> unat (data_size (hdr ?p)) + 24"
          using True num ok fits [OF len] by (auto simp: dec_ok_def chunk_ok_def pkt_fits_def Let_def)
        then show ?thesis
          using True False fit
            decoder_incorporate_safe [of ?dec ?p W] by (simp add: decoder_handle_def)
      qed (use True in \<open>simp add: decoder_handle_def\<close>)
    next
      case False
      show ?thesis
      proof (cases "chunk_complete dec \<and> chunk_size (hdr ?p) \<le> HGAP_MAX_CHUNK_SIZE")
        case True
        obtain e c where init: "hgap_dec_chunk_init W (hgap_enc_chunk_purge (dec_chunk dec)) ?p = (e, c)"
          by (cases "hgap_dec_chunk_init W (hgap_enc_chunk_purge (dec_chunk dec)) ?p")
        have "unat (ck_pkt_size c) = unat (data_size (hdr ?p)) + 24"
          using dec_chunk_init_ok(5) [OF conjunct2 [OF True] init] .
        then show ?thesis
          using False True init fit decoder_incorporate_safe
              [of "?dec\<lparr>dec_chunk := c, chunk_complete := False, chunk_emitted := False\<rparr>" ?p W]
          by (auto simp: decoder_handle_def not_le [symmetric])
      qed (use False in \<open>auto simp: decoder_handle_def not_le\<close>)
    qed
  qed
  then show ?thesis
    by (auto simp: hgap_decoder_read_eq [OF sz] Let_def)
qed

subsection \<open>Reachable decoders\<close>

text \<open>
  A caller reads packets (the received bytes inside their object) and emits chunks into
  buffers, in any order; a call that does not return ends the run.
\<close>

inductive decoder_step :: "'s wirehair \<Rightarrow> 's hgap_decoder \<Rightarrow> 's hgap_decoder \<Rightarrow> bool" for W where
  step_read: "unat sz \<le> length raw \<Longrightarrow> hgap_decoder_read W dec raw sz = Ret (r, dec') \<Longrightarrow>
    decoder_step W dec dec'"
| step_emit: "hgap_decoder_emit W dec out sz = Ret (e, dec', out') \<Longrightarrow> decoder_step W dec dec'"

interpretation decoder: transition_system "\<lambda>d. d = hgap_decoder_new" "decoder_step W" dec_ok
proof
  show "d = hgap_decoder_new \<Longrightarrow> dec_ok d" for d :: "'a hgap_decoder"
    by (simp add: dec_ok_new)
  show "dec_ok d \<Longrightarrow> decoder_step W d d' \<Longrightarrow> dec_ok d'" for d d' :: "'a hgap_decoder"
    by (auto elim!: decoder_step.cases dest: decoder_read_ok decoder_emit_ok)
qed

lemma emit_keeps_state:
  "hgap_decoder_emit W dec out sz = Ret (e, dec', out') \<Longrightarrow> dec_state dec' = dec_state dec"
  by (auto simp: hgap_decoder_emit_def Let_def CHK_Ret_iff obind_Ret_iff
      split: if_splits option.splits)

lemma decoder_step_mono:
  "decoder_step W dec dec' \<Longrightarrow> state_num (dec_state dec) \<le> state_num (dec_state dec')"
  by (auto elim!: decoder_step.cases simp: decoder_read_state next_state_mono dest: emit_keeps_state)

subsection \<open>Properties\<close>

text \<open>C17: whatever packet is read, the state of the transfer follows the protocol automaton
  \<open>next_state\<close> on the packet's type: it only moves forward, a stopped decoder stays stopped, and
  the read reports the end of the transfer exactly as minus \<open>HGAP_EOT\<close> from then on.\<close>

theorem decoder_follows_protocol:
  assumes "unat sz \<le> length raw" and "hgap_decoder_read W dec raw sz = Ret (r, dec')"
  shows "dec_state dec' = next_state (raw_type raw sz) (dec_state dec) \<and>
    state_num (dec_state dec) \<le> state_num (dec_state dec') \<and>
    (if dec_state dec' = T_STOPPED then r = - err_num HGAP_EOT \<and> dec_chunk dec' = dec_chunk dec
     else if dec_state dec' \<noteq> T_DATA then r = 0 \<and> dec_chunk dec' = dec_chunk dec
     else raw_type raw sz \<noteq> HGAP_PKT_DATA \<longrightarrow> r = 0 \<and> dec_chunk dec' = dec_chunk dec)"
proof -
  have st: "dec_state dec' = next_state (raw_type raw sz) (dec_state dec)"
    by (rule decoder_read_state [OF assms])
  show ?thesis
    using assms(2) st next_state_mono [of "dec_state dec" "raw_type raw sz"]
    unfolding hgap_decoder_read_eq [OF assms(1)]
    by (cases "next_state (raw_type raw sz) (dec_state dec)") (auto simp: Let_def split: if_splits)
qed

theorem decoder_follows_protocol_witness:
  "\<exists>dec'. hgap_decoder_read cyclic hgap_decoder_new (header_bytes hgap_header_begin) 24 = Ret (0, dec') \<and>
     dec_state dec' = T_STARTED"
proof -
  have t: "raw_type (header_bytes hgap_header_begin) 24 = HGAP_PKT_BEGIN"
    by (simp add: raw_type_def)
  have rd: "hgap_decoder_read cyclic hgap_decoder_new (header_bytes hgap_header_begin) 24 =
      Ret (0, hgap_decoder_new\<lparr>dec_state := T_STARTED\<rparr>)"
    by (subst hgap_decoder_read_eq) (simp_all add: t Let_def hgap_decoder_new_def)
  show ?thesis
    using decoder_follows_protocol [OF _ rd] rd t by (auto simp: hgap_decoder_new_def)
qed

text \<open>In every decoder that a caller can reach from a new one, by any packets and emissions, a
  read that returns a positive number returns the length of a complete, not yet emitted chunk, of
  at most \<open>HGAP_MAX_CHUNK_SIZE\<close> bytes; and a small chunk reported so is then emitted, without
  an assertion failing, as the bytes stored when it was read.\<close>

theorem reported_chunk_is_ready:
  assumes "(decoder_step W)\<^sup>*\<^sup>* hgap_decoder_new dec" and "unat sz \<le> length raw"
    and "hgap_decoder_read W dec raw sz = Ret (r, dec')" and "r > 0"
  shows "r = uint (ck_len (dec_chunk dec')) \<and> r \<le> uint HGAP_MAX_CHUNK_SIZE \<and>
    chunk_complete dec' \<and> \<not> chunk_emitted dec' \<and>
    (hgap_enc_chunk_is_small (dec_chunk dec') \<longrightarrow>
       (\<exists>d. ck_data (dec_chunk dec') = Some d \<and> int (length d) = r \<and>
          hgap_decoder_emit W dec' (replicate (nat r) 0) (ck_len (dec_chunk dec')) =
            Ret (HGAP_SUCCESS, dec'\<lparr>chunk_emitted := True\<rparr>, d)))"
proof -
  have ok: "dec_ok dec" by (rule decoder.inv_reachable [OF refl assms(1)])
  have rd: "dec_ok dec'" "r = uint (ck_len (dec_chunk dec'))" "chunk_complete dec'"
    "\<not> chunk_emitted dec'" "ck_num (dec_chunk dec') \<noteq> -1"
    using decoder_read_ok [OF ok assms(2,3)] assms(4) by auto
  have "unat (ck_len (dec_chunk dec')) \<le> unat HGAP_MAX_CHUNK_SIZE"
    using rd by (simp add: dec_ok_def chunk_ok_def)
  then have "int (unat (ck_len (dec_chunk dec'))) \<le> int (unat HGAP_MAX_CHUNK_SIZE)"
    by (simp only: of_nat_le_iff)
  then have "r \<le> uint HGAP_MAX_CHUNK_SIZE"
    by (simp add: rd(2) del: unat_MAX_CHUNK_SIZE)
  moreover have "int (unat (ck_len (dec_chunk dec'))) = r" by (simp add: rd(2))
  ultimately show ?thesis
    using rd(2-4) decoder_emit_small [OF rd(1,5,3), of "ck_len (dec_chunk dec')"
        "replicate (nat r) 0" W] by auto
qed

theorem reported_chunk_is_ready_witness:
  "\<exists>r dec'. hgap_decoder_read cyclic (hgap_decoder_new\<lparr>dec_state := T_STARTED\<rparr>)
      (header_bytes \<lparr>chunk_num = 0, chunk_size = 3, data_id = 0, data_size = 3\<rparr> @ [7, 8, 9]) 27 =
      Ret (r, dec') \<and> r = 3 \<and> uint (ck_len (dec_chunk dec')) = 3 \<and> chunk_complete dec'"
proof -
  have "hgap_decoder_read cyclic hgap_decoder_new (header_bytes hgap_header_begin) 24 =
      Ret (0, hgap_decoder_new\<lparr>dec_state := T_STARTED\<rparr>)"
    by (subst hgap_decoder_read_eq) (simp_all add: raw_type_def Let_def hgap_decoder_new_def)
  then have reach: "(decoder_step cyclic)\<^sup>*\<^sup>* hgap_decoder_new (hgap_decoder_new\<lparr>dec_state := T_STARTED\<rparr>)"
    by (intro r_into_rtranclp step_read) simp_all
  have "(case hgap_decoder_read cyclic (hgap_decoder_new\<lparr>dec_state := T_STARTED\<rparr>)
      (header_bytes \<lparr>chunk_num = 0, chunk_size = 3, data_id = 0, data_size = 3\<rparr> @ [7, 8, 9]) 27 of
      Ret (r, d) \<Rightarrow> r = 3 | _ \<Rightarrow> False)"
    by code_simp
  then obtain dec' where
    rd: "hgap_decoder_read cyclic (hgap_decoder_new\<lparr>dec_state := T_STARTED\<rparr>)
      (header_bytes \<lparr>chunk_num = 0, chunk_size = 3, data_id = 0, data_size = 3\<rparr> @ [7, 8, 9]) 27 =
      Ret (3, dec')"
    by (auto split: outcome.splits prod.splits)
  then show ?thesis
    using reported_chunk_is_ready [OF reach _ rd] by auto
qed

text \<open>C7: in a decoder reached from a new one, a packet that has a header, carries all the bytes it
  announces and, where it continues an incomplete chunk, is not shorter than the packets of that
  chunk (\<open>pkt_fits\<close>) is read inside its bytes: the read returns, and the decoder's invariant
  holds of the result. A packet too short for a header needs no condition.\<close>

theorem well_sized_packets_are_safe:
  assumes "(decoder_step W)\<^sup>*\<^sup>* hgap_decoder_new dec" and "unat sz \<le> length raw"
    and "24 \<le> unat sz \<Longrightarrow> pkt_fits dec raw sz"
  shows "\<exists>r dec'. hgap_decoder_read W dec raw sz = Ret (r, dec') \<and> dec_ok dec'"
proof -
  have ok: "dec_ok dec" by (rule decoder.inv_reachable [OF refl assms(1)])
  obtain r dec' where rd: "hgap_decoder_read W dec raw sz = Ret (r, dec')"
    using decoder_read_safe [OF ok assms(2,3)] by blast
  then show ?thesis using decoder_read_ok [OF ok assms(2) rd] by blast
qed

theorem well_sized_packets_are_safe_witness:
  "\<exists>r dec'. hgap_decoder_read cyclic hgap_decoder_new
     (header_bytes \<lparr>chunk_num = 0, chunk_size = 3, data_id = 0, data_size = 3\<rparr> @ [1, 2, 3]) 27 =
     Ret (r, dec') \<and> dec_ok dec'"
  by (rule well_sized_packets_are_safe)
    (simp_all add: pkt_fits_def raw_pkt_def Let_def hgap_decoder_new_def)

text \<open>C27: a packet the parser rejects is decoded all the same, because its verdict is dropped: a bare
  header that announces a payload it does not carry is a bad packet, and reading it as the first
  packet of a chunk copies the payload from behind the end of the object.\<close>

theorem rejected_packet_is_decoded:
  assumes "dec_state dec = T_STARTED \<or> dec_state dec = T_DATA" and "chunk_complete dec"
    and "num \<noteq> ck_num (dec_chunk dec)" and "num < HGAP_FIRST_RESERVED"
    and "0 < unat n" and "unat n \<le> 1476"
  defines "raw \<equiv> header_bytes \<lparr>chunk_num = num, chunk_size = ucast (n :: u32), data_id = 0, data_size = n\<rparr>"
  shows "(\<exists>p. hgap_pkt_parse raw 24 = Ret (HGAP_ERR_BAD_PKT, p)) \<and>
    hgap_decoder_read W dec raw 24 = Undef"
proof
  let ?h = "\<lparr>chunk_num = num, chunk_size = ucast n, data_id = 0, data_size = n\<rparr>"
  have pkt: "raw_pkt raw = \<lparr>hdr = ?h, pkt_data = []\<rparr>" by (simp add: raw_pkt_def raw_def)
  have n: "unat (ucast n :: u64) = unat n"
    using assms(6) by (simp add: unsigned_ucast_eq take_bit_nat_eq_self)
  show "\<exists>p. hgap_pkt_parse raw 24 = Ret (HGAP_ERR_BAD_PKT, p)"
    using assms(5) by (simp add: raw_def hgap_pkt_parse_eq Let_def)
  have t: "raw_type raw 24 = HGAP_PKT_DATA"
    using assms(4) by (simp add: raw_type_DATA pkt)
  let ?dec = "dec\<lparr>dec_state := T_DATA\<rparr>"
  obtain e c where init: "hgap_dec_chunk_init W (hgap_enc_chunk_purge (dec_chunk ?dec)) (raw_pkt raw) = (e, c)"
    by (cases "hgap_dec_chunk_init W (hgap_enc_chunk_purge (dec_chunk ?dec)) (raw_pkt raw)")
  have max: "chunk_size (hdr (raw_pkt raw)) \<le> HGAP_MAX_CHUNK_SIZE"
    using assms(6) n by (simp add: pkt word_le_nat_alt)
  note c = dec_chunk_init_ok [OF max init]
  have "unat (ck_pkt_size c) = unat n + 24" "unat (ck_len c) = unat n"
    using c(4,5) n by (simp_all add: pkt)
  then have "hgap_enc_chunk_is_small c"
    by (simp add: hgap_enc_chunk_is_small_def hgap_enc_chunk_pkt_payload_size_def word_le_nat_alt unat_sub)
  then have "hgap_dec_chunk_read W c (raw_pkt raw) = Undef"
    using c(3) \<open>unat (ck_len c) = unat n\<close> assms(5)
    by (simp add: hgap_dec_chunk_read_def Let_def mem_read_def pkt)
  then have "decoder_handle W ?dec (raw_pkt raw) = Undef"
    using assms(2,3) init max
    by (auto simp: decoder_handle_def pkt decoder_incorporate_def not_le [symmetric])
  then show "hgap_decoder_read W dec raw 24 = Undef"
    using assms(1) t by (subst hgap_decoder_read_eq) (auto simp: Let_def raw_def)
qed

theorem rejected_packet_is_decoded_witness:
  "hgap_decoder_read cyclic (hgap_decoder_new\<lparr>dec_state := T_STARTED\<rparr>)
     (header_bytes \<lparr>chunk_num = 0, chunk_size = 100, data_id = 0, data_size = 100\<rparr>) 24 = Undef"
  using rejected_packet_is_decoded [of "hgap_decoder_new\<lparr>dec_state := T_STARTED\<rparr>" 0 100 cyclic]
  by (simp add: hgap_decoder_new_def proto_consts)

text \<open>A data packet of another chunk that arrives before the current one is complete is refused
  as an incomplete chunk, and one that announces a chunk above the limit as a bad chunk; both
  leave the decoder as it was, apart from the state of the transfer.\<close>

theorem foreign_packet_is_refused:
  assumes "unat sz \<le> length raw" and "raw_type raw sz = HGAP_PKT_DATA"
    and "dec_state dec = T_STARTED \<or> dec_state dec = T_DATA"
    and "chunk_num (hdr (raw_pkt raw)) \<noteq> ck_num (dec_chunk dec)"
  shows "(\<not> chunk_complete dec \<longrightarrow> hgap_decoder_read W dec raw sz =
      Ret (- err_num HGAP_ERR_INCOMPLETE_CHUNK, dec\<lparr>dec_state := T_DATA\<rparr>)) \<and>
    (chunk_complete dec \<and> HGAP_MAX_CHUNK_SIZE < chunk_size (hdr (raw_pkt raw)) \<longrightarrow>
     hgap_decoder_read W dec raw sz =
      Ret (- err_num HGAP_ERR_BAD_CHUNK, dec\<lparr>dec_state := T_DATA\<rparr>))"
  using assms(2-4)
  by (auto simp: hgap_decoder_read_eq [OF assms(1)] Let_def decoder_handle_def)

theorem foreign_packet_is_refused_witness:
  "\<exists>dec'. hgap_decoder_read cyclic (hgap_decoder_new\<lparr>dec_state := T_STARTED\<rparr>)
     (header_bytes \<lparr>chunk_num = 0, chunk_size = 96000001, data_id = 0, data_size = 0\<rparr>) 24 =
     Ret (- 15, dec')"
proof -
  let ?h = "\<lparr>chunk_num = 0, chunk_size = 96000001, data_id = 0, data_size = 0\<rparr>"
  have "raw_pkt (header_bytes ?h) = \<lparr>hdr = ?h, pkt_data = []\<rparr>"
    by (simp add: raw_pkt_def)
  moreover have "raw_type (header_bytes ?h) 24 = HGAP_PKT_DATA"
    by (simp add: raw_type_def type_of_num_def proto_consts)
  moreover have "HGAP_MAX_CHUNK_SIZE < 96000001"
    by (simp add: HGAP_MAX_CHUNK_SIZE_def proto_consts)
  ultimately show ?thesis
    using foreign_packet_is_refused [of 24 "header_bytes ?h" "hgap_decoder_new\<lparr>dec_state := T_STARTED\<rparr>" cyclic]
    by (auto simp: hgap_decoder_new_def)
qed

end
