(* ===== verification/Reassembly.thy ===== *)
theory Reassembly
  imports Decoder
begin

section \<open>A decoder that reads the packets of an encoder\<close>

text \<open>
  The contract between the two halves of \<open>src/lib/encoding.c\<close>: a decoder that reads packets of
  one chunk, in any order, with losses and repetitions, is \<open>assembling\<close> that chunk, and what it
  emits once it reports the chunk complete is the message the encoder was given.
\<close>

text \<open>What the sender guarantees of a chunk: the sizes of the configuration and the encoding.\<close>

definition sent_chunk :: "'s wirehair \<Rightarrow> u64 \<Rightarrow> u64 \<Rightarrow> bytes \<Rightarrow> 's option \<Rightarrow> bool" where
  "sent_chunk W psz num m E \<longleftrightarrow>
     24 < unat psz \<and> psz \<le> HGAP_MAX_PKT_SIZE \<and> length m \<le> unat HGAP_MAX_CHUNK_SIZE \<and>
     num < HGAP_FIRST_RESERVED \<and>
     (unat psz - 24 < length m \<longrightarrow> (\<exists>re E'. E = Some E' \<and> wh_encode W re m (psz - 24) = Some E'))"

definition assembling ::
  "'s wirehair \<Rightarrow> u64 \<Rightarrow> u64 \<Rightarrow> bytes \<Rightarrow> 's option \<Rightarrow> (u32 \<times> bytes) list \<Rightarrow>
     's hgap_decoder \<Rightarrow> bool" where
  "assembling W psz num m E fed dec \<longleftrightarrow>
     dec_state dec = T_DATA \<and> ck_num (dec_chunk dec) = num \<and>
     ck_len (dec_chunk dec) = of_nat (length m) \<and>
     unat (ck_pkt_size (dec_chunk dec)) = chunk_payload psz m + 24 \<and>
     list_all (\<lambda>(i, b). chunk_block W psz m E i = Some b) fed \<and>
     (if length m \<le> unat psz - 24
      then ck_data (dec_chunk dec) = (if fed = [] then None else Some m) \<and>
           (chunk_complete dec \<longleftrightarrow> fed \<noteq> [] \<and> m \<noteq> [])
      else ck_data (dec_chunk dec) = None \<and>
           (\<exists>re D s. wh_decode W re (of_nat (length m)) (psz - 24) = Some D \<and>
              wh_feed W D fed = (chunk_complete dec, s) \<and>
              ck_wh_state (dec_chunk dec) = Some s))"

text \<open>The parts of a packet of the chunk, wherever it lies in a larger buffer.\<close>

lemma sent_chunk_bounds:
  assumes "sent_chunk W psz num m E"
  shows "24 < unat psz" "unat psz \<le> 1500" "length m \<le> 96000000"
    "length m < 2 ^ 64" "chunk_payload psz m \<le> 1476" "unat (psz - 24) = unat psz - 24"
  using assms by (auto simp: sent_chunk_def word_le_nat_alt HGAP_MAX_PKT_SIZE_def chunk_payload_def
      unat_sub)

lemma sent_block_length:
  assumes "sent_chunk W psz num m E" and "wh_block_size W"
    and "chunk_block W psz m E i = Some b"
  shows "length b = chunk_payload psz m"
proof (cases "length m \<le> unat psz - 24")
  case True
  then show ?thesis using assms(3) by (simp add: chunk_block_def chunk_payload_def)
next
  case False
  then obtain re E' where E: "E = Some E'" "wh_encode W re m (psz - 24) = Some E'"
    using assms(1) by (auto simp: sent_chunk_def)
  then show ?thesis
    using wh_block_sizeD [OF assms(2) _ E(2), of i b] assms(3) False
      sent_chunk_bounds [OF assms(1)]
    by (simp add: chunk_block_def chunk_payload_def)
qed

lemma sent_packet:
  assumes sent: "sent_chunk W psz num m E" and wh: "wh_block_size W"
    and p: "chunk_packet W psz num m E i = Some raw"
  shows "\<exists>b. chunk_block W psz m E i = Some b \<and> length b = chunk_payload psz m \<and>
    length raw = chunk_payload psz m + 24 \<and>
    raw_pkt (raw @ junk) = \<lparr>hdr = chunk_header psz num m i, pkt_data = b @ junk\<rparr>"
proof -
  obtain b where b: "chunk_block W psz m E i = Some b"
    and raw: "raw = header_bytes (chunk_header psz num m i) @ b"
    using p by (auto simp: chunk_packet_def)
  then show ?thesis
    using sent_block_length [OF sent wh b] by (simp add: raw_pkt_def)
qed

lemma chunk_header_simps [simp]:
  "chunk_num (chunk_header psz num m i) = num"
  "chunk_size (chunk_header psz num m i) = of_nat (length m)"
  "data_id (chunk_header psz num m i) = i"
  by (simp_all add: chunk_header_def)

lemma sent_packet_type:
  assumes sent: "sent_chunk W psz num m E" and wh: "wh_block_size W"
    and p: "chunk_packet W psz num m E i = Some raw" and sz: "unat sz = length raw"
  shows "raw_type (raw @ junk) sz = HGAP_PKT_DATA"
  using sent_packet [OF sent wh p, of junk] sz sent
  by (auto simp: raw_type_DATA sent_chunk_def)

text \<open>Incorporating one more packet.\<close>

lemma assembling_small:
  assumes sent: "sent_chunk W psz num m E"
    and "ck_len c = of_nat (length m)" "unat (ck_pkt_size c) = chunk_payload psz m + 24"
  shows "hgap_enc_chunk_is_small c \<longleftrightarrow> length m \<le> unat psz - 24"
    and "unat (hgap_enc_chunk_pkt_payload_size c) = chunk_payload psz m"
    and "unat (ck_len c) = length m" and "sint (ck_len c) = int (length m)"
proof -
  note b = sent_chunk_bounds [OF sent]
  show pay: "unat (hgap_enc_chunk_pkt_payload_size c) = chunk_payload psz m"
    using assms(3) by (simp add: hgap_enc_chunk_pkt_payload_size_def unat_sub word_le_nat_alt)
  show len: "unat (ck_len c) = length m" using assms(2) b by (simp add: unat_of_length)
  show "hgap_enc_chunk_is_small c \<longleftrightarrow> length m \<le> unat psz - 24"
    by (auto simp: hgap_enc_chunk_is_small_def word_le_nat_alt len pay chunk_payload_def)
  have "int (unat (ck_len c)) = uint (ck_len c)" by simp
  then show "sint (ck_len c) = int (length m)"
    using sint_small [of "ck_len c"] len b(3) by simp
qed

lemma assembling_incorporate:
  assumes sent: "sent_chunk W psz num m E" and wh: "wh_block_size W"
    and asm: "assembling W psz num m E fed dec" and inc: "\<not> chunk_complete dec"
    and b: "chunk_block W psz m E i = Some b"
  shows "\<exists>dec'. decoder_incorporate W dec \<lparr>hdr = chunk_header psz num m i, pkt_data = b @ junk\<rparr> =
      Ret (if chunk_complete dec' then int (length m) else 0, dec') \<and>
    assembling W psz num m E (fed @ [(i, b)]) dec' \<and> chunk_emitted dec' = chunk_emitted dec"
proof -
  let ?c = "dec_chunk dec"
  let ?p = "\<lparr>hdr = chunk_header psz num m i, pkt_data = b @ junk\<rparr>"
  have "ck_len ?c = of_nat (length m)" "unat (ck_pkt_size ?c) = chunk_payload psz m + 24"
    using asm by (simp_all add: assembling_def)
  note c = assembling_small [OF sent this]
  have lb: "length b = chunk_payload psz m" by (rule sent_block_length [OF sent wh b])
  show ?thesis
  proof (cases "length m \<le> unat psz - 24")
    case True
    have bm: "b = m" using b True by (simp add: chunk_block_def)
    have small: "hgap_enc_chunk_is_small ?c" using c True by simp
    show ?thesis
    proof (cases "fed = []")
      case nil: True
      then have "ck_data ?c = None" using asm True by (simp add: assembling_def)
      then have "hgap_dec_chunk_read W ?c ?p =
          Ret (int (length m), ?c\<lparr>ck_next_pkt_id := ucast i + 1, ck_data := Some m\<rparr>)"
        using small c bm by (simp add: hgap_dec_chunk_read_def Let_def mem_read_def)
      then show ?thesis
        using asm True nil inc b bm
        by (cases "m = []") (simp_all add: decoder_incorporate_def Let_def assembling_def)
    next
      case False
      then have m: "m = []" "ck_data ?c = Some m"
        using asm True inc by (auto simp: assembling_def)
      then have "hgap_dec_chunk_read W ?c ?p = Ret (0, ?c)"
        using c by (simp add: hgap_dec_chunk_read_def)
      then show ?thesis
        using asm True False inc b m by (simp add: decoder_incorporate_def Let_def assembling_def)
    qed
  next
    case False
    obtain re D s where D: "wh_decode W re (of_nat (length m)) (psz - 24) = Some D"
      and feed: "wh_feed W D fed = (False, s)" and s: "ck_wh_state ?c = Some s"
      and none: "ck_data ?c = None"
      using asm False inc by (auto simp: assembling_def)
    obtain ready s' where rd: "wh_read W s i b = (ready, s')" by (cases "wh_read W s i b")
    let ?c' = "?c\<lparr>ck_next_pkt_id := ucast i + 1, ck_wh_state := Some s'\<rparr>"
    have pay: "unat (hgap_enc_chunk_pkt_payload_size (?c\<lparr>ck_next_pkt_id := j\<rparr>)) = length b" for j
      using c(2) lb by (simp add: hgap_enc_chunk_pkt_payload_size_def)
    have "hgap_dec_chunk_read W ?c ?p = Ret (if ready then int (length m) else 0, ?c')"
      using False c none s rd
      by (simp add: hgap_dec_chunk_read_def Let_def mem_read_def pay)
    moreover have "wh_feed W D (fed @ [(i, b)]) = (ready, s')"
      using feed rd by (auto simp: wh_feed_append split: bool.splits)
    moreover have "m \<noteq> []" using False by auto
    ultimately show ?thesis
      using asm False inc b D none
      by (cases ready) (auto simp: decoder_incorporate_def Let_def assembling_def)
  qed
qed

text \<open>The first packet of the chunk, on a decoder that has finished the one before.\<close>

definition awaiting :: "u64 \<Rightarrow> 's hgap_decoder \<Rightarrow> bool" where
  "awaiting num dec \<longleftrightarrow>
     (dec_state dec = T_STARTED \<or> dec_state dec = T_DATA) \<and> chunk_complete dec \<and>
     ck_num (dec_chunk dec) \<noteq> num"

lemma assembling_init:
  assumes sent: "sent_chunk W psz num m E"
    and hd: "hdr p = chunk_header psz num m i" and st: "dec_state dec = T_DATA"
    and wd: "unat psz - 24 < length m \<Longrightarrow>
      wh_decode W (ck_wh_state c) (of_nat (length m)) (psz - 24) = Some D"
  shows "\<exists>e c'. hgap_dec_chunk_init W c p = (e, c') \<and>
    assembling W psz num m E []
      (dec\<lparr>dec_chunk := c', chunk_complete := False, chunk_emitted := False\<rparr>)"
proof -
  note b = sent_chunk_bounds [OF sent]
  have size: "unat (data_size (hdr p)) = chunk_payload psz m"
    using b(5) by (simp add: hd chunk_header_def unat_of_nat take_bit_nat_eq_self)
  let ?c = "c\<lparr>ck_data := None, ck_num := num, ck_len := of_nat (length m),
    ck_pkt_size := ucast (data_size (hdr p)) + HGAP_HEADER_LEN, ck_next_pkt_id := ucast i\<rparr>"
  have "unat (ck_pkt_size ?c) = chunk_payload psz m + 24"
    using payload_bound_no_wrap [of "data_size (hdr p)"] size by simp
  note c = assembling_small [OF sent _ this]
  have big: "hgap_enc_chunk_pkt_payload_size ?c = psz - 24" if "unat psz - 24 < length m"
    using that c(2) b by (simp add: word_unat_eq_iff chunk_payload_def)
  show ?thesis
  proof (cases "length m \<le> unat psz - 24")
    case True
    then have "hgap_dec_chunk_init W c p = (HGAP_SUCCESS, ?c)"
      using c by (simp add: hgap_dec_chunk_init_def Let_def hd)
    then show ?thesis
      using True st payload_bound_no_wrap [of "data_size (hdr p)"] size
      by (simp add: assembling_def)
  next
    case False
    then have "hgap_dec_chunk_init W c p = (HGAP_SUCCESS, ?c\<lparr>ck_wh_state := Some D\<rparr>)"
      using c wd big by (simp add: hgap_dec_chunk_init_def Let_def hd)
    then show ?thesis
      using False st wd payload_bound_no_wrap [of "data_size (hdr p)"] size
      by (auto simp: assembling_def)
  qed
qed

lemma purge_wh_state [simp]: "ck_wh_state (hgap_enc_chunk_purge c) = ck_wh_state c"
  by (simp add: hgap_enc_chunk_purge_def)

lemma read_first_packet:
  assumes sent: "sent_chunk W psz num m E" and wh: "wh_block_size W"
    and aw: "awaiting num dec"
    and wd: "unat psz - 24 < length m \<Longrightarrow>
      wh_decode W (ck_wh_state (dec_chunk dec)) (of_nat (length m)) (psz - 24) \<noteq> None"
    and p: "chunk_packet W psz num m E i = Some raw" and sz: "unat sz = length raw"
  shows "\<exists>b dec'. chunk_block W psz m E i = Some b \<and>
    hgap_decoder_read W dec (raw @ junk) sz =
      Ret (if chunk_complete dec' then int (length m) else 0, dec') \<and>
    assembling W psz num m E [(i, b)] dec' \<and> \<not> chunk_emitted dec'"
proof -
  let ?p = "raw_pkt (raw @ junk)"
  let ?dec = "dec\<lparr>dec_state := T_DATA\<rparr>"
  obtain b where b: "chunk_block W psz m E i = Some b"
    and pkt: "?p = \<lparr>hdr = chunk_header psz num m i, pkt_data = b @ junk\<rparr>"
    using sent_packet [OF sent wh p] by blast
  have hd: "hdr ?p = chunk_header psz num m i" using pkt by simp
  obtain D where D: "unat psz - 24 < length m \<Longrightarrow>
      wh_decode W (ck_wh_state (hgap_enc_chunk_purge (dec_chunk ?dec))) (of_nat (length m))
        (psz - 24) = Some D"
    using wd by auto
  have st: "dec_state ?dec = T_DATA" by simp
  obtain e c where init: "hgap_dec_chunk_init W (hgap_enc_chunk_purge (dec_chunk ?dec)) ?p = (e, c)"
    and asm: "assembling W psz num m E []
      (?dec\<lparr>dec_chunk := c, chunk_complete := False, chunk_emitted := False\<rparr>)"
    using assembling_init [OF sent hd st D] by blast
  have "of_nat (length m) \<le> HGAP_MAX_CHUNK_SIZE"
    using sent_chunk_bounds [OF sent] by (simp add: word_le_nat_alt unat_of_length)
  then have "decoder_handle W ?dec ?p = decoder_incorporate W
      (?dec\<lparr>dec_chunk := c, chunk_complete := False, chunk_emitted := False\<rparr>) ?p"
    using aw init hd by (auto simp: decoder_handle_def awaiting_def not_le [symmetric])
  moreover have "hgap_decoder_read W dec (raw @ junk) sz = decoder_handle W ?dec ?p"
    using aw sent_packet_type [OF sent wh p sz] sz
    by (subst hgap_decoder_read_eq) (auto simp: Let_def awaiting_def)
  ultimately show ?thesis
    using assembling_incorporate [OF sent wh asm _ b, of junk] pkt b by auto
qed

text \<open>Every later packet of the chunk.\<close>

lemma read_next_packet:
  assumes sent: "sent_chunk W psz num m E" and wh: "wh_block_size W"
    and asm: "assembling W psz num m E fed dec"
    and ne: "chunk_emitted dec \<longrightarrow> chunk_complete dec"
    and p: "chunk_packet W psz num m E i = Some raw" and sz: "unat sz = length raw"
  shows "\<exists>b dec'. chunk_block W psz m E i = Some b \<and>
    hgap_decoder_read W dec (raw @ junk) sz =
      Ret (if chunk_complete dec' \<and> \<not> chunk_emitted dec' then int (length m) else 0, dec') \<and>
    assembling W psz num m E (if chunk_complete dec then fed else fed @ [(i, b)]) dec' \<and>
    chunk_emitted dec' = chunk_emitted dec \<and>
    (chunk_complete dec \<longrightarrow> dec' = dec)"
proof -
  let ?p = "raw_pkt (raw @ junk)"
  obtain b where b: "chunk_block W psz m E i = Some b"
    and pkt: "?p = \<lparr>hdr = chunk_header psz num m i, pkt_data = b @ junk\<rparr>"
    using sent_packet [OF sent wh p] by blast
  have st: "dec_state dec = T_DATA" and num: "ck_num (dec_chunk dec) = num"
    using asm by (simp_all add: assembling_def)
  then have same: "dec\<lparr>dec_state := T_DATA\<rparr> = dec" by simp
  have rd: "hgap_decoder_read W dec (raw @ junk) sz = decoder_handle W dec ?p"
    using sent_packet_type [OF sent wh p sz] sz st
    by (subst hgap_decoder_read_eq) (auto simp: Let_def same)
  show ?thesis
  proof (cases "chunk_complete dec")
    case True
    have "sint (ck_len (dec_chunk dec)) = int (length m)"
      using asm by (intro assembling_small(4) [OF sent]) (simp_all add: assembling_def)
    then show ?thesis
      using True rd pkt num asm b by (simp add: decoder_handle_def)
  next
    case False
    then have "decoder_handle W dec ?p = decoder_incorporate W dec ?p"
      using pkt num by (simp add: decoder_handle_def)
    then show ?thesis
      using assembling_incorporate [OF sent wh asm False b, of junk] pkt rd False b ne by auto
  qed
qed

text \<open>Once the chunk is complete the message is emitted.\<close>

lemma emit_assembled:
  assumes sent: "sent_chunk W psz num m E" and snd: "wh_sound W"
    and asm: "assembling W psz num m E fed dec" and c: "chunk_complete dec"
    and sz: "unat sz = length m" and room: "length out = length m"
  shows "hgap_decoder_emit W dec out sz = Ret (HGAP_SUCCESS, dec\<lparr>chunk_emitted := True\<rparr>, m)"
proof -
  have "ck_len (dec_chunk dec) = of_nat (length m)"
    "unat (ck_pkt_size (dec_chunk dec)) = chunk_payload psz m + 24"
    using asm by (simp_all add: assembling_def)
  note a = assembling_small [OF sent this]
  have ge: "\<not> sz < ck_len (dec_chunk dec)" using a(3) sz by (simp add: word_less_nat_alt)
  show ?thesis
  proof (cases "length m \<le> unat psz - 24")
    case True
    then have "ck_data (dec_chunk dec) = Some m"
      using asm c by (auto simp: assembling_def)
    then show ?thesis
      using c ge True a room
      by (simp add: hgap_decoder_emit_def Let_def mem_read_def mem_write_def)
  next
    case False
    obtain re D s where D: "wh_decode W re (of_nat (length m)) (psz - 24) = Some D"
      and feed: "wh_feed W D fed = (True, s)" and s: "ck_wh_state (dec_chunk dec) = Some s"
      and blocks: "list_all (\<lambda>(i, b). chunk_block W psz m E i = Some b) fed"
      using asm False c by (auto simp: assembling_def)
    obtain re' E' where E: "E = Some E'" "wh_encode W re' m (psz - 24) = Some E'"
      using sent False by (auto simp: sent_chunk_def)
    have "list_all (\<lambda>(i, b). wh_write W (Some E') i = Some b) fed"
      using blocks False E by (simp add: chunk_block_def)
    then have "wh_reconstruct W (Some s) = Some m"
      using wh_soundD [OF snd _ _ E(2) D _ feed] sent_chunk_bounds [OF sent]
      by (simp add: unat_of_length)
    then show ?thesis
      using c ge False a room s by (simp add: hgap_decoder_emit_def Let_def mem_write_def)
  qed
qed

subsection \<open>Properties\<close>

text \<open>Reading packets of a chunk keeps the decoder assembling that chunk, whatever ids arrive: the
  first packet starts it, each further one is added until the chunk is complete and ignored
  afterwards, and every read is inside the packet even when the slot holds nothing behind it.\<close>

theorem chunk_packets_are_assembled:
  assumes "sent_chunk W psz num m E" and "wh_block_size W"
    and "chunk_packet W psz num m E i = Some raw" and "unat sz = length raw"
    and "assembling W psz num m E fed dec" and "chunk_emitted dec \<longrightarrow> chunk_complete dec"
  shows "\<exists>b dec'. hgap_decoder_read W dec (raw @ junk) sz =
      Ret (if chunk_complete dec' \<and> \<not> chunk_emitted dec' then int (length m) else 0, dec') \<and>
    assembling W psz num m E (if chunk_complete dec then fed else fed @ [(i, b)]) dec' \<and>
    (chunk_complete dec \<longrightarrow> dec' = dec)"
  using read_next_packet [OF assms(1,2,5,6,3,4)] by blast

definition example_decoder :: "bytes option \<Rightarrow> bool \<Rightarrow> cyc hgap_decoder" where
  "example_decoder d fin =
     \<lparr>dec_pkt_size = 1500,
      dec_chunk = \<lparr>ck_num = 4, ck_len = 3, ck_pkt_size = 27, ck_next_pkt_id = 0, ck_wh_state = None,
        ck_data = d, ck_total_gen = 0\<rparr>,
      chunk_complete = fin, chunk_emitted = False, dec_state = T_DATA\<rparr>"

lemma example_sent: "sent_chunk cyclic 1400 4 [1, 2, 3] None"
  by (simp add: sent_chunk_def proto_consts HGAP_MAX_CHUNK_SIZE_def)

theorem chunk_packets_are_assembled_witness:
  "\<exists>r b dec'. hgap_decoder_read cyclic (example_decoder None False)
      (header_bytes (chunk_header 1400 4 [1, 2, 3] 9) @ [1, 2, 3]) 27 = Ret (r, dec') \<and>
    assembling cyclic 1400 4 [1, 2, 3] None [(9, b)] dec'"
proof -
  have p: "chunk_packet cyclic 1400 4 [1, 2, 3] None 9 =
      Some (header_bytes (chunk_header 1400 4 [1, 2, 3] 9) @ [1, 2, 3])"
    by (simp add: chunk_packet_def chunk_block_def)
  have a: "assembling cyclic 1400 4 [1, 2, 3] None [] (example_decoder None False)"
    by (simp add: assembling_def example_decoder_def chunk_payload_def)
  have e: "chunk_emitted (example_decoder None False) \<longrightarrow> chunk_complete (example_decoder None False)"
    "\<not> chunk_complete (example_decoder None False)"
    by (simp_all add: example_decoder_def)
  have sz: "unat (27 :: u64) = length (header_bytes (chunk_header 1400 4 [1, 2, 3] 9) @ [1, 2, 3])"
    by simp
  show ?thesis
    using chunk_packets_are_assembled [OF example_sent cyclic_block_size p sz a e(1), of "[]"]
    unfolding append_Nil2 append_Nil if_not_P [OF e(2)] by blast
qed

text \<open>When wirehair cannot set up its decoder for a chunk, the first packet of that chunk makes the
  read return minus one, which is minus \<open>HGAP_EOT\<close>, although the state of the transfer is not the
  stopped one. Theory \<open>ReceiveLoop\<close> shows what the decoder thread does with it.\<close>

lemma decode_failure_read:
  assumes "sent_chunk W psz num m E" and "wh_block_size W" and "awaiting num dec"
    and "unat psz - 24 < length m"
    and "wh_decode W (ck_wh_state (dec_chunk dec)) (of_nat (length m)) (psz - 24) = None"
    and "chunk_packet W psz num m E i = Some raw" and "unat sz = length raw"
  shows "\<exists>dec'. hgap_decoder_read W dec (raw @ junk) sz = Ret (- err_num HGAP_EOT, dec') \<and>
    dec_state dec' = T_DATA"
proof -
  let ?p = "raw_pkt (raw @ junk)" and ?dec = "dec\<lparr>dec_state := T_DATA\<rparr>"
  note b = sent_chunk_bounds [OF assms(1)]
  obtain blk where pkt: "?p = \<lparr>hdr = chunk_header psz num m i, pkt_data = blk @ junk\<rparr>"
    using sent_packet [OF assms(1,2,6), of junk] by blast
  obtain e c where init: "hgap_dec_chunk_init W (hgap_enc_chunk_purge (dec_chunk ?dec)) ?p = (e, c)"
    by (cases "hgap_dec_chunk_init W (hgap_enc_chunk_purge (dec_chunk ?dec)) ?p")
  have max: "chunk_size (hdr ?p) \<le> HGAP_MAX_CHUNK_SIZE"
    using b by (simp add: pkt word_le_nat_alt unat_of_length)
  note c = dec_chunk_init_ok [OF max init]
  have size: "unat (data_size (hdr ?p)) = chunk_payload psz m"
    using b(5) by (simp add: pkt chunk_header_def unat_of_nat take_bit_nat_eq_self)
  have ck: "ck_len c = of_nat (length m)" "unat (ck_pkt_size c) = chunk_payload psz m + 24"
    using c(4,5) size by (simp_all add: pkt)
  note small = assembling_small [OF assms(1) ck]
  have pay: "hgap_enc_chunk_pkt_payload_size c = psz - 24"
    using small(2) b assms(4) by (simp add: word_unat_eq_iff chunk_payload_def)
  have "ck_wh_state c = None"
  proof (rule ccontr)
    assume "ck_wh_state c \<noteq> None"
    then show False
      using init small(1) pay ck(1) assms(4,5)
      by (auto simp: hgap_dec_chunk_init_def Let_def hgap_enc_chunk_is_small_def
          hgap_enc_chunk_pkt_payload_size_def split: if_splits)
  qed
  then have "hgap_dec_chunk_read W c ?p = Ret (-1, c\<lparr>ck_next_pkt_id := ucast i + 1\<rparr>)"
    using small(1) assms(4) c(3) by (simp add: hgap_dec_chunk_read_def Let_def pkt)
  then have "\<exists>dec'. decoder_handle W ?dec ?p = Ret (-1, dec') \<and> dec_state dec' = T_DATA"
    using assms(3) init max
    by (auto simp: decoder_handle_def pkt decoder_incorporate_def not_le [symmetric] awaiting_def Let_def)
  then show ?thesis
    using assms(3,7) sent_packet_type [OF assms(1,2,6,7), of junk]
    by (subst hgap_decoder_read_eq) (auto simp: Let_def awaiting_def)
qed

end
