(* ===== verification/ReceiveLoop.thy ===== *)
theory ReceiveLoop
  imports Reassembly
begin

section \<open>The receiving threads: \<open>src/lib/hgap_receive.c\<close>\<close>

text \<open>
  Three threads: \<open>hgapr_net_reader\<close> puts datagrams into the first channel, \<open>decloop\<close> decodes
  them and puts chunks into the second, \<open>writer\<close> writes these to the output. Each is a function
  of the list of what its blocking calls gave it, one entry per turn of its loop: the results
  of \<open>recvfrom\<close>, of the channel operations (a reservation, a peek, an acknowledgement or a send
  that fails has met a poisoned channel) and of \<open>write\<close>. Where the list ends before the loop
  does, the thread waits in its next call. Theory \<open>Channel_Threads\<close> shows that what one side of
  a channel receives is what the other side sent.
\<close>

subsection \<open>Data\<close>

text \<open>
  For a slot of the first channel the \<open>data\<close> of a \<open>sized_buf\<close> is the whole content area of the
  slot, of which \<open>size\<close> bytes were received.
\<close>

subsection \<open>The network reader\<close>

datatype recvfrom_result =
    Datagram bytes
  | Timed_out       \<comment> \<open>\<open>errno\<close> is \<open>ETIMEDOUT\<close> or \<open>EAGAIN\<close>\<close>
  | Recv_failed

text \<open>
  One turn: whether the reservation succeeded, what the slot held before, what \<open>recvfrom\<close>
  gave, whether the send succeeded.
\<close>

record net_turn =
  nt_reserved :: bool
  nt_slot :: bytes
  nt_result :: recvfrom_result
  nt_sent :: bool

record net_state =
  nr_started :: bool      \<comment> \<open>\<open>started\<close>; the socket timeout is armed exactly then\<close>
  nr_out :: "sized_buf list"   \<comment> \<open>sent into \<open>chan_net2dec\<close>\<close>
  nr_ret :: retval

text \<open>\<open>recvfrom\<close> with a buffer of \<open>mtu\<close> bytes: a longer datagram is cut, the rest of the slot stays.\<close>

definition recv_into :: "nat \<Rightarrow> bytes \<Rightarrow> bytes \<Rightarrow> bytes" where
  "recv_into mtu slot d = take mtu d @ drop (length (take mtu d)) slot"

text \<open>The poison pill at the label \<open>closing\<close>; the arguments say whether its two calls succeed.\<close>

definition net_closing :: "bool \<Rightarrow> bool \<Rightarrow> int \<Rightarrow> net_state \<Rightarrow> net_state" where
  "net_closing reserved sent retval st =
     (if \<not> reserved then st\<lparr>nr_ret := Retval retval\<rparr>
      else if sent then st\<lparr>nr_out := nr_out st @ [SBUF_NULL], nr_ret := Retval retval\<rparr>
      else st\<lparr>nr_ret := Retval (err_num HGAP_ERR_IPC)\<rparr>)"

fun net_loop :: "nat \<Rightarrow> bool \<times> bool \<Rightarrow> net_turn list \<Rightarrow> net_state \<Rightarrow> net_state outcome" where
  "net_loop mtu pill [] st = Ret st"
| "net_loop mtu pill (t # ts) st =
     CHK (nt_reserved t)
       (case nt_result t of
          Timed_out \<Rightarrow> Ret (net_closing (fst pill) (snd pill) (err_num HGAP_ERR_TIMEOUT) st)
        | Recv_failed \<Rightarrow> Ret (net_closing (fst pill) (snd pill) (err_num HGAP_ERR_NETWORK) st)
        | Datagram d \<Rightarrow>
            let content = recv_into mtu (nt_slot t) d;
                sz = of_nat (length (take mtu d))
            in obind (hgap_pkt_type content sz) (\<lambda>pkt_type.
                 let st1 = (if pkt_type = HGAP_PKT_BEGIN \<and> \<not> nr_started st
                            then st\<lparr>nr_started := True\<rparr> else st)
                 in if \<not> nt_sent t
                    then Ret (net_closing (fst pill) (snd pill) (err_num HGAP_ERR_IPC) st1)
                    else let st2 = st1\<lparr>nr_out := nr_out st1 @
                               [\<lparr>sb_size = sz, sb_data = Some content\<rparr>]\<rparr>
                         in if pkt_type = HGAP_PKT_END
                            then Ret (net_closing (fst pill) (snd pill) (err_num HGAP_SUCCESS) st2)
                            else net_loop mtu pill ts st2))"

definition hgapr_net_reader ::
  "u64 \<Rightarrow> bool \<Rightarrow> bool \<times> bool \<Rightarrow> net_turn list \<Rightarrow> net_state outcome" where
  "hgapr_net_reader elt_size socket_ok pill turns =
     (let mtu = unat (elt_size - 16);
          st = \<lparr>nr_started = False, nr_out = [], nr_ret = Waiting\<rparr>
      in if \<not> socket_ok then Ret (net_closing (fst pill) (snd pill) (err_num HGAP_ERR_NETWORK) st)
         else net_loop mtu pill turns st)"

subsection \<open>The decoder thread\<close>

record dec_turn =
  dt_peek :: "sized_buf option"   \<comment> \<open>\<open>None\<close>: the peek failed\<close>
  dt_acked :: bool
  dt_sent :: bool

record 's dec_thread =
  dl_dec :: "'s hgap_decoder"
  dl_out :: "sized_buf list"      \<comment> \<open>sent into \<open>chan_dec2out\<close>\<close>
  dl_poisoned :: bool             \<comment> \<open>\<open>channel_poison(chan_net2dec)\<close> was called\<close>
  dl_ret :: retval

text \<open>After the loop: the pill for the writer; \<open>sz\<close> is what \<open>chunk.size\<close> still holds.\<close>

definition dec_closing :: "bool \<Rightarrow> u64 \<Rightarrow> int \<Rightarrow> 's dec_thread \<Rightarrow> 's dec_thread" where
  "dec_closing pill_sent sz retval st =
     (if pill_sent
      then st\<lparr>dl_out := dl_out st @ [\<lparr>sb_size = sz, sb_data = None\<rparr>], dl_ret := Retval retval\<rparr>
      else st\<lparr>dl_ret := Retval (if retval = err_num HGAP_SUCCESS then err_num HGAP_ERR_IPC
                                 else retval)\<rparr>)"

text \<open>The buffer of \<open>xmalloc\<close> is taken to be zeroed; \<open>hgap_decoder_emit\<close> overwrites it.\<close>

fun decloop :: "'s wirehair \<Rightarrow> bool \<Rightarrow> u64 \<Rightarrow> dec_turn list \<Rightarrow> 's dec_thread \<Rightarrow> 's dec_thread outcome" where
  "decloop W pill sz [] st = Ret st"
| "decloop W pill sz (t # ts) st =
     (case dt_peek t of
        None \<Rightarrow> Ret (dec_closing pill sz (err_num HGAP_ERR_IPC) st)
      | Some pkt \<Rightarrow>
          (case sb_data pkt of
             None \<Rightarrow> Ret (dec_closing pill sz (err_num HGAP_SUCCESS) st)
           | Some raw \<Rightarrow>
               obind (hgap_decoder_read W (dl_dec st) raw (sb_size pkt)) (\<lambda>(dec_ret, dec).
                 let st1 = st\<lparr>dl_dec := dec\<rparr>
                 in if \<not> dt_acked t then Ret (dec_closing pill sz (err_num HGAP_ERR_IPC) st1)
                    else if dec_ret = 0 then decloop W pill sz ts st1
                    else if dec_ret = - err_num HGAP_EOT
                    then Ret (dec_closing pill sz (err_num HGAP_SUCCESS) st1)
                    else if dec_ret < 0
                    then Ret (dec_closing pill sz (- dec_ret) (st1\<lparr>dl_poisoned := True\<rparr>))
                    else
                      let len = of_int dec_ret :: u64
                      in obind (hgap_decoder_emit W dec (replicate (unat len) 0) len)
                           (\<lambda>(emit_ret, dec', data).
                             let st2 = st1\<lparr>dl_dec := dec'\<rparr>
                             in if emit_ret = HGAP_SUCCESS
                                then if dt_sent t
                                     then decloop W pill len ts
                                       (st2\<lparr>dl_out := dl_out st2 @
                                          [\<lparr>sb_size = len, sb_data = Some data\<rparr>]\<rparr>)
                                     else Ret (dec_closing pill len (err_num HGAP_ERR_IPC) st2)
                                else Ret (dec_closing pill 0 (err_num emit_ret)
                                            (st2\<lparr>dl_poisoned := True\<rparr>))))))"

definition decloop_start :: "'s dec_thread" where
  "decloop_start =
     \<lparr>dl_dec = hgap_decoder_new, dl_out = [], dl_poisoned = False, dl_ret = Waiting\<rparr>"

subsection \<open>The writer\<close>

definition HGAPR_WRITE_SYNC_THRESHOLD :: nat where
  "HGAPR_WRITE_SYNC_THRESHOLD = 100 * 1024 * 1024"

text \<open>One turn: the received chunk (\<open>None\<close>: the receive failed) and the result of the write.\<close>

record write_turn =
  wt_chunk :: "sized_buf option"
  wt_written :: int

record writer_state =
  wr_file :: bytes            \<comment> \<open>what reached the output\<close>
  wr_since_sync :: nat        \<comment> \<open>\<open>data_written\<close>\<close>
  wr_total :: nat             \<comment> \<open>\<open>data_written_total\<close>\<close>
  wr_syncs :: nat             \<comment> \<open>number of \<open>fsync\<close> or \<open>fflush\<close> calls\<close>
  wr_ret :: retval

definition writer_closing :: "int \<Rightarrow> writer_state \<Rightarrow> writer_state" where
  "writer_closing retval st = st\<lparr>wr_syncs := wr_syncs st + 1, wr_ret := Retval retval\<rparr>"

fun writer :: "write_turn list \<Rightarrow> writer_state \<Rightarrow> writer_state" where
  "writer [] st = st"
| "writer (t # ts) st =
     (case wt_chunk t of
        None \<Rightarrow> writer_closing (err_num HGAP_SUCCESS) st
      | Some chunk \<Rightarrow>
          (case sb_data chunk of
             None \<Rightarrow> writer_closing (err_num HGAP_SUCCESS) st
           | Some data \<Rightarrow>
               let st1 = st\<lparr>wr_since_sync := wr_since_sync st + unat (sb_size chunk),
                            wr_total := wr_total st + unat (sb_size chunk),
                            wr_file := wr_file st @ take (nat (wt_written t)) data\<rparr>
               in if wt_written t < sint (sb_size chunk)
                  then writer_closing (err_num HGAP_ERR_BAD_OUT_FD) st1
                  else if wr_since_sync st1 \<ge> HGAPR_WRITE_SYNC_THRESHOLD
                  then writer ts (st1\<lparr>wr_since_sync := 0, wr_syncs := wr_syncs st1 + 1\<rparr>)
                  else writer ts st1))"

definition writer_start :: writer_state where
  "writer_start =
     \<lparr>wr_file = [], wr_since_sync = 0, wr_total = 0, wr_syncs = 0, wr_ret = Waiting\<rparr>"

subsection \<open>The whole receiver\<close>

text \<open>Sizes of the two channels; \<open>sizeof (struct sized_buf)\<close> is 16.\<close>

definition receive_pkt_size :: "u64 \<Rightarrow> u64" where
  "receive_pkt_size cfg_pkt_size = 16 + cfg_pkt_size"

definition receive_pkt_chan_size :: "u64 \<Rightarrow> u64 \<Rightarrow> u64" where
  "receive_pkt_chan_size mem_limit cfg_pkt_size =
     (mem_limit div 2) div receive_pkt_size cfg_pkt_size"

definition receive_chunk_chan_size :: "u64 \<Rightarrow> u64" where
  "receive_chunk_chan_size mem_limit =
     (let n = (mem_limit div 2) div HGAP_MAX_CHUNK_SIZE in if 256 > n then 256 else n)"

definition hgap_receive ::
  "hgap_err \<Rightarrow> bool \<Rightarrow> hgap_err \<Rightarrow> hgap_err \<Rightarrow> hgap_err \<Rightarrow> hgap_err" where
  "hgap_receive config_err wirehair_init net_ret decoder_ret writer_ret =
     (if config_err \<noteq> HGAP_SUCCESS then config_err
      else if \<not> wirehair_init then HGAP_ERR_WIREHAIR_ERROR
      else join_results net_ret [decoder_ret, writer_ret])"

subsection \<open>Turns that meet no obstacle\<close>

text \<open>A datagram as it lies in a slot, with what the slot held behind it.\<close>

definition slot_buf :: "bytes \<times> bytes \<Rightarrow> sized_buf" where
  "slot_buf p = \<lparr>sb_size = of_nat (length (fst p)), sb_data = Some (fst p @ snd p)\<rparr>"

definition dec_turn_of :: "sized_buf \<Rightarrow> dec_turn" where
  "dec_turn_of b = \<lparr>dt_peek = Some b, dt_acked = True, dt_sent = True\<rparr>"

definition data_buf :: "bytes \<Rightarrow> sized_buf" where
  "data_buf m = \<lparr>sb_size = of_nat (length m), sb_data = Some m\<rparr>"

definition packet_turn :: "bytes \<times> bytes \<Rightarrow> dec_turn" where
  "packet_turn p = dec_turn_of (slot_buf p)"

lemma decloop_zero:
  assumes "hgap_decoder_read W (dl_dec st) (fst p @ snd p) (of_nat (length (fst p))) = Ret (0, dec')"
  shows "decloop W pill sz (packet_turn p # ts) st = decloop W pill sz ts (st\<lparr>dl_dec := dec'\<rparr>)"
  using assms by (simp add: packet_turn_def dec_turn_of_def slot_buf_def Let_def)

lemma decloop_emit:
  assumes rd: "hgap_decoder_read W (dl_dec st) (fst p @ snd p) (of_nat (length (fst p))) =
      Ret (int (length m), dec1)"
    and em: "hgap_decoder_emit W dec1 (replicate (length m) 0) (of_nat (length m)) =
      Ret (HGAP_SUCCESS, dec2, m)"
    and m: "m \<noteq> []" "length m < 2 ^ 64"
  shows "decloop W pill sz (packet_turn p # ts) st =
    decloop W pill (of_nat (length m)) ts (st\<lparr>dl_dec := dec2, dl_out := dl_out st @ [data_buf m]\<rparr>)"
  using rd em m unat_of_length [OF m(2)]
  by (simp add: packet_turn_def dec_turn_of_def slot_buf_def Let_def data_buf_def)

declare decloop.simps(2) [simp del]

subsection \<open>The stream of one chunk\<close>

text \<open>
  \<open>noise\<close>: a datagram the decoder does nothing with once it has started (a repeated announcement, a
  keepalive, an unknown packet). \<open>chunk_stream\<close>: the datagrams that arrive while a chunk is
  being sent are its packets with the ids listed, in any order, with gaps and repetitions, and noise.
\<close>

definition noise :: "bytes \<Rightarrow> bool" where
  "noise raw \<longleftrightarrow> length raw < 2 ^ 64 \<and>
     raw_type raw (of_nat (length raw)) \<noteq> HGAP_PKT_DATA \<and>
     raw_type raw (of_nat (length raw)) \<noteq> HGAP_PKT_END"

inductive chunk_stream ::
  "'s wirehair \<Rightarrow> u64 \<Rightarrow> u64 \<Rightarrow> bytes \<Rightarrow> 's option \<Rightarrow> u32 list \<Rightarrow> bytes list \<Rightarrow> bool"
  for W psz num m E where
  stream_end: "chunk_stream W psz num m E [] []"
| stream_noise: "noise raw \<Longrightarrow> chunk_stream W psz num m E ids raws \<Longrightarrow>
    chunk_stream W psz num m E ids (raw # raws)"
| stream_packet: "chunk_packet W psz num m E i = Some raw \<Longrightarrow>
    chunk_stream W psz num m E ids raws \<Longrightarrow> chunk_stream W psz num m E (i # ids) (raw # raws)"

text \<open>
  The ids suffice: one packet of a small chunk; for an encoded chunk, ids whose blocks
  wirehair's decoder reassembles, whatever it was used for before.
\<close>

definition recoverable :: "'s wirehair \<Rightarrow> u64 \<Rightarrow> bytes \<Rightarrow> 's option \<Rightarrow> u32 list \<Rightarrow> bool" where
  "recoverable W psz m E ids \<longleftrightarrow>
     ids \<noteq> [] \<and>
     (unat psz - 24 < length m \<longrightarrow>
        (\<forall>re. \<exists>D s. wh_decode W re (of_nat (length m)) (psz - 24) = Some D \<and>
           wh_feed W D (map (\<lambda>i. (i, the (wh_write W E i))) ids) = (True, s)))"

lemma raw_type_prefix:
  assumes "unat sz = length raw"
  shows "raw_type (raw @ junk) sz = raw_type raw sz"
proof (cases "unat sz < 24")
  case True
  then show ?thesis by (simp add: raw_type_def)
next
  case False
  then have "take 24 (raw @ junk) = take 24 raw" using assms by simp
  then show ?thesis unfolding raw_type_def by (simp only:)
qed

lemma noise_read:
  assumes "noise raw" and "dec_state dec = T_STARTED \<or> dec_state dec = T_DATA"
  shows "hgap_decoder_read W dec (raw @ junk) (of_nat (length raw)) = Ret (0, dec)"
proof -
  let ?sz = "of_nat (length raw) :: u64"
  have sz: "unat ?sz = length raw" using assms(1) by (simp add: noise_def unat_of_length)
  let ?t = "raw_type (raw @ junk) ?sz"
  have t: "?t \<noteq> HGAP_PKT_DATA" "?t \<noteq> HGAP_PKT_END"
    using assms(1) raw_type_prefix [OF sz] by (simp_all add: noise_def)
  then have "next_state ?t (dec_state dec) = dec_state dec"
    using assms(2) by (cases ?t) auto
  then show ?thesis
    using t assms(2) sz by (subst hgap_decoder_read_eq) (auto simp: Let_def)
qed

definition chunk_done :: "'s wirehair \<Rightarrow> u64 \<Rightarrow> u64 \<Rightarrow> bytes \<Rightarrow> 's option \<Rightarrow> 's hgap_decoder \<Rightarrow> bool" where
  "chunk_done W psz num m E dec \<longleftrightarrow>
     (\<exists>fed. assembling W psz num m E fed dec) \<and> chunk_complete dec \<and> chunk_emitted dec"

lemma packet_size:
  assumes "sent_chunk W psz num m E" "wh_block_size W" "chunk_packet W psz num m E i = Some raw"
  shows "unat (of_nat (length raw) :: u64) = length raw"
proof -
  have "length raw = chunk_payload psz m + 24" using sent_packet [OF assms] by blast
  then show ?thesis
    using sent_chunk_bounds(5) [OF assms(1)] by (intro unat_of_length) simp
qed

text \<open>Once the chunk has been handed on, the rest of its stream changes nothing.\<close>

lemma decloop_rest:
  assumes sent: "sent_chunk W psz num m E" and wh: "wh_block_size W"
    and "chunk_stream W psz num m E ids raws" "raws = map fst ps"
    and "chunk_done W psz num m E (dl_dec st)"
  shows "decloop W pill sz (map packet_turn ps @ ts) st = decloop W pill sz ts st"
  using assms(3-5)
proof (induction arbitrary: ps rule: chunk_stream.induct)
  case stream_end
  then show ?case by simp
next
  case (stream_noise raw ids raws)
  then obtain p ps' where ps: "ps = p # ps'" "fst p = raw" "raws = map fst ps'"
    using stream_noise.prems(1) by (cases ps) auto
  have "dec_state (dl_dec st) = T_DATA"
    using stream_noise.prems by (auto simp: chunk_done_def assembling_def)
  then have "hgap_decoder_read W (dl_dec st) (fst p @ snd p) (of_nat (length (fst p))) =
      Ret (0, dl_dec st)"
    using noise_read [OF stream_noise.hyps(1), of "dl_dec st" W "snd p"] ps by simp
  from decloop_zero [OF this, of pill sz] show ?case
    using stream_noise.IH [OF ps(3)] stream_noise.prems ps by simp
next
  case (stream_packet i raw ids raws)
  then obtain p ps' where ps: "ps = p # ps'" "fst p = raw" "raws = map fst ps'"
    using stream_packet.prems(1) by (cases ps) auto
  obtain fed where "assembling W psz num m E fed (dl_dec st)" "chunk_complete (dl_dec st)"
    "chunk_emitted (dl_dec st)"
    using stream_packet.prems by (auto simp: chunk_done_def)
  then have "hgap_decoder_read W (dl_dec st) (fst p @ snd p) (of_nat (length (fst p))) =
      Ret (0, dl_dec st)"
    using read_next_packet [OF sent wh _ _ stream_packet.hyps(1)
        packet_size [OF sent wh stream_packet.hyps(1)], of fed "dl_dec st" "snd p"] ps(2) by auto
  from decloop_zero [OF this, of pill sz] show ?case
    using stream_packet.IH [OF ps(3)] stream_packet.prems ps by simp
qed

lemma assembling_emitted [simp]:
  "assembling W psz num m E fed (dec\<lparr>chunk_emitted := e\<rparr>) = assembling W psz num m E fed dec"
  by (simp add: assembling_def)

lemma assembling_complete_nonempty:
  "assembling W psz num m E fed dec \<Longrightarrow> chunk_complete dec \<Longrightarrow> m \<noteq> []"
  by (auto simp: assembling_def split: if_splits)

text \<open>One packet that completes the chunk, or does not.\<close>

definition chunk_out :: "bytes \<Rightarrow> sized_buf list" where
  "chunk_out m = (if m = [] then [] else [data_buf m])"

lemma decloop_packet:
  assumes sent: "sent_chunk W psz num m E" and snd: "wh_sound W"
    and rd: "hgap_decoder_read W (dl_dec st) (fst p @ snd p) (of_nat (length (fst p))) =
      Ret (if chunk_complete dec1 then int (length m) else 0, dec1)"
    and asm: "assembling W psz num m E fed dec1"
  shows "decloop W pill sz (packet_turn p # ts) st =
    (if chunk_complete dec1
     then decloop W pill (of_nat (length m)) ts
       (st\<lparr>dl_dec := dec1\<lparr>chunk_emitted := True\<rparr>, dl_out := dl_out st @ chunk_out m\<rparr>)
     else decloop W pill sz ts (st\<lparr>dl_dec := dec1\<rparr>))"
proof (cases "chunk_complete dec1")
  case True
  have len: "length m < 2 ^ 64" by (rule sent_chunk_bounds(4) [OF sent])
  have m: "m \<noteq> []" by (rule assembling_complete_nonempty [OF asm True])
  have rd': "hgap_decoder_read W (dl_dec st) (fst p @ snd p) (of_nat (length (fst p))) =
      Ret (int (length m), dec1)"
    using rd True by simp
  have "hgap_decoder_emit W dec1 (replicate (length m) 0) (of_nat (length m)) =
      Ret (HGAP_SUCCESS, dec1\<lparr>chunk_emitted := True\<rparr>, m)"
    by (rule emit_assembled [OF sent snd asm True unat_of_length [OF len]]) simp
  from decloop_emit [OF rd' this m len] True m show ?thesis by (simp add: chunk_out_def)
next
  case False
  then show ?thesis using rd decloop_zero [of W st p dec1] by simp
qed

definition fed_ids :: "(u32 \<times> bytes) list \<Rightarrow> u32 list" where
  "fed_ids fed = map fst fed"

lemma decloop_more:
  assumes sent: "sent_chunk W psz num m E" and wh: "wh_block_size W" and snd: "wh_sound W"
    and "chunk_stream W psz num m E ids raws" "raws = map fst ps"
    and "assembling W psz num m E fed (dl_dec st)"
    and "\<not> chunk_complete (dl_dec st)" "\<not> chunk_emitted (dl_dec st)"
  shows "(\<exists>dec' sz'. decloop W pill sz (map packet_turn ps @ ts) st =
      decloop W pill sz' ts (st\<lparr>dl_dec := dec', dl_out := dl_out st @ chunk_out m\<rparr>) \<and>
      chunk_done W psz num m E dec') \<or>
    (\<exists>dec' fed'. decloop W pill sz (map packet_turn ps @ ts) st =
      decloop W pill sz ts (st\<lparr>dl_dec := dec'\<rparr>) \<and>
      assembling W psz num m E fed' dec' \<and> \<not> chunk_complete dec' \<and>
      fed_ids fed' = fed_ids fed @ ids)"
  using assms(4-8)
proof (induction arbitrary: ps fed st rule: chunk_stream.induct)
  case stream_end
  then show ?case by (intro disjI2 exI [of _ "dl_dec st"] exI [of _ fed]) simp
next
  case (stream_noise raw ids raws)
  then obtain p ps' where ps: "ps = p # ps'" "fst p = raw" "raws = map fst ps'"
    using stream_noise.prems(1) by (cases ps) auto
  have "dec_state (dl_dec st) = T_DATA"
    using stream_noise.prems by (auto simp: assembling_def)
  then have "hgap_decoder_read W (dl_dec st) (fst p @ snd p) (of_nat (length (fst p))) =
      Ret (0, dl_dec st)"
    using noise_read [OF stream_noise.hyps(1), of "dl_dec st" W "snd p"] ps by simp
  then have "decloop W pill sz (map packet_turn ps @ ts) st =
      decloop W pill sz (map packet_turn ps' @ ts) st"
    using decloop_zero [of W st p "dl_dec st"] ps by simp
  note turn = this
  show ?case unfolding turn by (rule stream_noise.IH [OF ps(3) stream_noise.prems(2-4)])
next
  case (stream_packet i raw ids raws)
  obtain p ps' where ps: "ps = p # ps'" "fst p = raw" "raws = map fst ps'"
    using stream_packet.prems(1) by (cases ps) auto
  obtain b dec1 where
    rd: "hgap_decoder_read W (dl_dec st) (fst p @ snd p) (of_nat (length (fst p))) =
      Ret (if chunk_complete dec1 then int (length m) else 0, dec1)"
    and asm: "assembling W psz num m E (fed @ [(i, b)]) dec1" and em: "\<not> chunk_emitted dec1"
    using read_next_packet [OF sent wh stream_packet.prems(2) _ stream_packet.hyps(1)
        packet_size [OF sent wh stream_packet.hyps(1)], of "snd p"] ps(2) stream_packet.prems(3,4)
    by auto
  note turn = decloop_packet [OF sent snd rd asm, of pill sz "map packet_turn ps' @ ts"]
  show ?case
  proof (cases "chunk_complete dec1")
    case True
    let ?st = "st\<lparr>dl_dec := dec1\<lparr>chunk_emitted := True\<rparr>, dl_out := dl_out st @ chunk_out m\<rparr>"
    have dn: "chunk_done W psz num m E (dl_dec ?st)"
      using asm True by (auto simp: chunk_done_def)
    have "decloop W pill (of_nat (length m)) (map packet_turn ps' @ ts) ?st =
        decloop W pill (of_nat (length m)) ts ?st"
      by (rule decloop_rest [OF sent wh stream_packet.hyps(2) ps(3) dn])
    then show ?thesis using turn True dn ps(1) by auto
  next
    case False
    let ?st = "st\<lparr>dl_dec := dec1\<rparr>"
    have "fed_ids (fed @ [(i, b)]) @ ids = fed_ids fed @ i # ids" by (simp add: fed_ids_def)
    then show ?thesis
      using stream_packet.IH [OF ps(3), of "fed @ [(i, b)]" ?st] asm em False turn ps(1) by simp
  qed
qed

text \<open>A whole chunk, from the decoder that waits for it.\<close>

lemma recoverable_complete:
  assumes sent: "sent_chunk W psz num m E"
    and rec: "recoverable W psz m E (fed_ids fed)" and asm: "assembling W psz num m E fed dec"
    and m: "m \<noteq> []"
  shows "chunk_complete dec"
proof (cases "length m \<le> unat psz - 24")
  case True
  have "fed \<noteq> []" using rec by (auto simp: recoverable_def fed_ids_def)
  then show ?thesis using asm True m by (simp add: assembling_def)
next
  case False
  obtain re D s where D: "wh_decode W re (of_nat (length m)) (psz - 24) = Some D"
    and feed: "wh_feed W D fed = (chunk_complete dec, s)"
    and blocks: "list_all (\<lambda>(i, b). chunk_block W psz m E i = Some b) fed"
    using asm False by (auto simp: assembling_def)
  have "map (\<lambda>i. (i, the (wh_write W E i))) (fed_ids fed) = fed"
    using blocks False
    by (induction fed) (auto simp: fed_ids_def chunk_block_def)
  moreover obtain D' s' where "wh_decode W re (of_nat (length m)) (psz - 24) = Some D'"
    "wh_feed W D' (map (\<lambda>i. (i, the (wh_write W E i))) (fed_ids fed)) = (True, s')"
    using rec False unfolding recoverable_def by (meson not_le)
  ultimately show ?thesis using D feed by simp
qed

definition received_chunk ::
  "'s wirehair \<Rightarrow> u64 \<Rightarrow> u64 \<Rightarrow> bytes \<Rightarrow> 's option \<Rightarrow> 's hgap_decoder \<Rightarrow> bool" where
  "received_chunk W psz num m E dec \<longleftrightarrow>
     (\<exists>fed. assembling W psz num m E fed dec) \<and> (m \<noteq> [] \<longrightarrow> chunk_complete dec)"

lemma chunk_done_received: "chunk_done W psz num m E dec \<Longrightarrow> received_chunk W psz num m E dec"
  by (auto simp: chunk_done_def received_chunk_def)

lemma decloop_chunk:
  assumes sent: "sent_chunk W psz num m E" and wh: "wh_block_size W" and snd: "wh_sound W"
    and "chunk_stream W psz num m E ids raws" "raws = map fst ps"
    and rec: "recoverable W psz m E ids" and "awaiting num (dl_dec st)"
  shows "\<exists>dec' sz'. decloop W pill sz (map packet_turn ps @ ts) st =
      decloop W pill sz' ts (st\<lparr>dl_dec := dec', dl_out := dl_out st @ chunk_out m\<rparr>) \<and>
    received_chunk W psz num m E dec'"
  using assms(4-7)
proof (induction arbitrary: ps st rule: chunk_stream.induct)
  case stream_end
  then show ?case by (simp add: recoverable_def)
next
  case (stream_noise raw ids raws)
  obtain p ps' where ps: "ps = p # ps'" "fst p = raw" "raws = map fst ps'"
    using stream_noise.prems(1) by (cases ps) auto
  have "hgap_decoder_read W (dl_dec st) (fst p @ snd p) (of_nat (length (fst p))) =
      Ret (0, dl_dec st)"
    using noise_read [OF stream_noise.hyps(1), of "dl_dec st" W "snd p"] ps stream_noise.prems(3)
    by (auto simp: awaiting_def)
  then have turn: "decloop W pill sz (map packet_turn ps @ ts) st =
      decloop W pill sz (map packet_turn ps' @ ts) st"
    using decloop_zero [of W st p "dl_dec st"] ps by simp
  show ?case unfolding turn by (rule stream_noise.IH [OF ps(3) stream_noise.prems(2,3)])
next
  case (stream_packet i raw ids raws)
  obtain p ps' where ps: "ps = p # ps'" "fst p = raw" "raws = map fst ps'"
    using stream_packet.prems(1) by (cases ps) auto
  have "wh_decode W (ck_wh_state (dec_chunk (dl_dec st))) (of_nat (length m)) (psz - 24) \<noteq> None"
    if "unat psz - 24 < length m"
    using stream_packet.prems(2) that by (force simp: recoverable_def)
  then obtain b dec1 where
    rd: "hgap_decoder_read W (dl_dec st) (fst p @ snd p) (of_nat (length (fst p))) =
      Ret (if chunk_complete dec1 then int (length m) else 0, dec1)"
    and asm: "assembling W psz num m E [(i, b)] dec1" and em: "\<not> chunk_emitted dec1"
    using read_first_packet [OF sent wh stream_packet.prems(3) _ stream_packet.hyps(1)
        packet_size [OF sent wh stream_packet.hyps(1)], of "snd p"] ps(2) by auto
  note turn = decloop_packet [OF sent snd rd asm, of pill sz "map packet_turn ps' @ ts"]
  show ?case
  proof (cases "chunk_complete dec1")
    case True
    let ?st = "st\<lparr>dl_dec := dec1\<lparr>chunk_emitted := True\<rparr>, dl_out := dl_out st @ chunk_out m\<rparr>"
    have dn: "chunk_done W psz num m E (dl_dec ?st)"
      using asm True by (auto simp: chunk_done_def)
    have "decloop W pill (of_nat (length m)) (map packet_turn ps' @ ts) ?st =
        decloop W pill (of_nat (length m)) ts ?st"
      by (rule decloop_rest [OF sent wh stream_packet.hyps(2) ps(3) dn])
    then show ?thesis using turn True chunk_done_received [OF dn] ps(1) by auto
  next
    case False
    let ?st = "st\<lparr>dl_dec := dec1\<rparr>"
    have turn': "decloop W pill sz (map packet_turn ps @ ts) st =
        decloop W pill sz (map packet_turn ps' @ ts) ?st"
      using turn False ps(1) by simp
    have a: "assembling W psz num m E [(i, b)] (dl_dec ?st)" "\<not> chunk_complete (dl_dec ?st)"
      "\<not> chunk_emitted (dl_dec ?st)"
      using asm False em by simp_all
    from decloop_more [OF sent wh snd stream_packet.hyps(2) ps(3) a, of pill sz ts]
    show ?thesis
    proof (elim disjE exE conjE)
      fix dec' sz'
      assume "decloop W pill sz (map packet_turn ps' @ ts) ?st =
          decloop W pill sz' ts (?st\<lparr>dl_dec := dec', dl_out := dl_out ?st @ chunk_out m\<rparr>)"
        and "chunk_done W psz num m E dec'"
      then show ?thesis
        using chunk_done_received turn' by (intro exI [of _ dec'] exI [of _ sz']) auto
    next
      fix dec' fed'
      assume run: "decloop W pill sz (map packet_turn ps' @ ts) ?st =
          decloop W pill sz ts (?st\<lparr>dl_dec := dec'\<rparr>)"
        and asm': "assembling W psz num m E fed' dec'" and inc: "\<not> chunk_complete dec'"
        and ids: "fed_ids fed' = fed_ids [(i, b)] @ ids"
      have "recoverable W psz m E (fed_ids fed')"
        using stream_packet.prems(2) unfolding ids by (simp add: fed_ids_def)
      then have m: "m = []"
        using recoverable_complete [OF sent _ asm'] inc by blast
      then show ?thesis
        using run asm' turn' by (intro exI [of _ dec'] exI [of _ sz])
          (auto simp: chunk_out_def received_chunk_def)
    qed
  qed
qed

subsection \<open>The stream of a transfer\<close>

text \<open>A chunk on the wire: its number, message, encoder and the ids that arrive.\<close>

record 's wire_chunk =
  wc_num :: u64
  wc_msg :: bytes
  wc_enc :: "'s option"
  wc_ids :: "u32 list"

inductive chunks_stream :: "'s wirehair \<Rightarrow> u64 \<Rightarrow> 's wire_chunk list \<Rightarrow> bytes list \<Rightarrow> bool"
  for W psz where
  no_chunk: "chunks_stream W psz [] []"
| next_chunk: "chunk_stream W psz (wc_num c) (wc_msg c) (wc_enc c) (wc_ids c) raws \<Longrightarrow>
    chunks_stream W psz cs rest \<Longrightarrow> chunks_stream W psz (c # cs) (raws @ rest)"

definition announces :: "bytes list \<Rightarrow> bool" where
  "announces raws \<longleftrightarrow> list_all noise raws \<and>
     list_ex (\<lambda>raw. raw_type raw (of_nat (length raw)) = HGAP_PKT_BEGIN) raws"

definition wire_chunk_ok :: "'s wirehair \<Rightarrow> u64 \<Rightarrow> 's wire_chunk \<Rightarrow> bool" where
  "wire_chunk_ok W psz c \<longleftrightarrow>
     sent_chunk W psz (wc_num c) (wc_msg c) (wc_enc c) \<and>
     recoverable W psz (wc_msg c) (wc_enc c) (wc_ids c)"

text \<open>Every chunk has a number different from the one before; only the last can be empty.\<close>

fun chunk_sequence :: "'s wire_chunk list \<Rightarrow> bool" where
  "chunk_sequence (c # d # cs) \<longleftrightarrow>
     wc_num c \<noteq> wc_num d \<and> wc_msg c \<noteq> [] \<and> chunk_sequence (d # cs)"
| "chunk_sequence _ \<longleftrightarrow> True"

lemma decloop_chunks:
  assumes wh: "wh_block_size W" and snd: "wh_sound W"
    and "chunks_stream W psz cs raws" "raws = map fst ps"
    and "list_all (wire_chunk_ok W psz) cs" "chunk_sequence cs"
    and "case cs of [] \<Rightarrow> dec_state (dl_dec st) = T_STARTED \<or> dec_state (dl_dec st) = T_DATA
      | c # _ \<Rightarrow> awaiting (wc_num c) (dl_dec st)"
  shows "\<exists>dec' sz'. decloop W pill sz (map packet_turn ps @ ts) st =
      decloop W pill sz' ts
        (st\<lparr>dl_dec := dec', dl_out := dl_out st @ concat (map (chunk_out \<circ> wc_msg) cs)\<rparr>) \<and>
    (dec_state dec' = T_STARTED \<or> dec_state dec' = T_DATA)"
  using assms(3-7)
proof (induction arbitrary: ps st sz rule: chunks_stream.induct)
  case no_chunk
  then show ?case by (intro exI [of _ "dl_dec st"] exI [of _ sz]) simp
next
  case (next_chunk c raws cs rest)
  obtain ps1 ps2 where ps: "ps = ps1 @ ps2" "raws = map fst ps1" "rest = map fst ps2"
    using next_chunk.prems(1) by (auto simp: append_eq_map_conv)
  have sent: "sent_chunk W psz (wc_num c) (wc_msg c) (wc_enc c)"
    and rec: "recoverable W psz (wc_msg c) (wc_enc c) (wc_ids c)"
    and aw: "awaiting (wc_num c) (dl_dec st)"
    using next_chunk.prems by (auto simp: wire_chunk_ok_def)
  obtain dec1 sz1 where
    run: "decloop W pill sz (map packet_turn ps1 @ (map packet_turn ps2 @ ts)) st =
      decloop W pill sz1 (map packet_turn ps2 @ ts)
        (st\<lparr>dl_dec := dec1, dl_out := dl_out st @ chunk_out (wc_msg c)\<rparr>)"
    and rcv: "received_chunk W psz (wc_num c) (wc_msg c) (wc_enc c) dec1"
    using decloop_chunk [OF sent wh snd next_chunk.hyps(1) ps(2) rec aw] by blast
  let ?st = "st\<lparr>dl_dec := dec1, dl_out := dl_out st @ chunk_out (wc_msg c)\<rparr>"
  have dec1: "dec_state dec1 = T_DATA" "ck_num (dec_chunk dec1) = wc_num c"
    "wc_msg c \<noteq> [] \<longrightarrow> chunk_complete dec1"
    using rcv by (auto simp: received_chunk_def assembling_def)
  have "case cs of [] \<Rightarrow> dec_state (dl_dec ?st) = T_STARTED \<or> dec_state (dl_dec ?st) = T_DATA
      | d # _ \<Rightarrow> awaiting (wc_num d) (dl_dec ?st)"
    using dec1 next_chunk.prems(3) by (auto simp: awaiting_def split: list.split)
  moreover have "chunk_sequence cs" using next_chunk.prems(3) by (cases cs) auto
  moreover have "list_all (wire_chunk_ok W psz) cs" using next_chunk.prems(2) by simp
  ultimately obtain dec2 sz2 where
    "decloop W pill sz1 (map packet_turn ps2 @ ts) ?st = decloop W pill sz2 ts
      (?st\<lparr>dl_dec := dec2, dl_out := dl_out ?st @ concat (map (chunk_out \<circ> wc_msg) cs)\<rparr>)"
    "dec_state dec2 = T_STARTED \<or> dec_state dec2 = T_DATA"
    using next_chunk.IH [OF ps(3), of ?st sz1] by blast
  with run ps(1) show ?case by (intro exI [of _ dec2] exI [of _ sz2]) (simp add: comp_def)
qed

text \<open>The announcement starts a new decoder.\<close>

lemma decloop_announce:
  assumes "announces (map fst ps)"
  shows "decloop W pill sz (map packet_turn ps @ ts) (st\<lparr>dl_dec := hgap_decoder_new\<rparr>) =
    decloop W pill sz ts (st\<lparr>dl_dec := hgap_decoder_new\<lparr>dec_state := T_STARTED\<rparr>\<rparr>)"
proof -
  let ?new = "hgap_decoder_new :: 's hgap_decoder"
  let ?started = "?new\<lparr>dec_state := T_STARTED\<rparr>"
  have started: "decloop W pill sz (map packet_turn qs @ ts) (st\<lparr>dl_dec := ?started\<rparr>) =
      decloop W pill sz ts (st\<lparr>dl_dec := ?started\<rparr>)" if "list_all noise (map fst qs)" for qs
    using that
  proof (induction qs)
    case (Cons q qs)
    then have "hgap_decoder_read W ?started (fst q @ snd q) (of_nat (length (fst q))) =
        Ret (0, ?started)"
      by (intro noise_read) simp_all
    then show ?case
      using decloop_zero [of W "st\<lparr>dl_dec := ?started\<rparr>" q ?started] Cons by simp
  qed simp
  have all: "list_all noise (map fst ps)"
    and ex: "list_ex (\<lambda>raw. raw_type raw (of_nat (length raw)) = HGAP_PKT_BEGIN) (map fst ps)"
    using assms by (auto simp: announces_def)
  show ?thesis
    using all ex
  proof (induction ps)
    case (Cons q qs)
    let ?t = "raw_type (fst q) (of_nat (length (fst q)))"
    have len: "unat (of_nat (length (fst q)) :: u64) = length (fst q)"
      using Cons.prems(1) by (simp add: noise_def unat_of_length)
    have "?new\<lparr>dec_state := T_NEW\<rparr> = ?new" by (simp add: hgap_decoder_new_def)
    then have rd: "hgap_decoder_read W ?new (fst q @ snd q) (of_nat (length (fst q))) =
        Ret (0, if ?t = HGAP_PKT_BEGIN then ?started else ?new)"
      using Cons.prems(1) len
      by (subst hgap_decoder_read_eq; cases ?t)
        (simp_all add: raw_type_prefix Let_def noise_def,
         simp_all add: hgap_decoder_new_def)
    show ?case
    proof (cases "?t = HGAP_PKT_BEGIN")
      case True
      then show ?thesis
        using decloop_zero [of W "st\<lparr>dl_dec := ?new\<rparr>" q ?started] rd started Cons.prems(1) by simp
    next
      case False
      then show ?thesis
        using decloop_zero [of W "st\<lparr>dl_dec := ?new\<rparr>" q ?new] rd Cons by simp
    qed
  qed simp
qed

text \<open>The end of the transfer, and the whole run of the decoder thread.\<close>

lemma decloop_end:
  assumes "raw_type (fst p) (of_nat (length (fst p))) = HGAP_PKT_END" "length (fst p) < 2 ^ 64"
    and "dec_state (dl_dec st) = T_STARTED \<or> dec_state (dl_dec st) = T_DATA"
  shows "decloop W pill sz (packet_turn p # ts) st =
    Ret (dec_closing pill sz (err_num HGAP_SUCCESS)
      (st\<lparr>dl_dec := dl_dec st\<lparr>dec_state := T_STOPPED\<rparr>\<rparr>))"
proof -
  have len: "unat (of_nat (length (fst p)) :: u64) = length (fst p)"
    using assms(2) by (rule unat_of_length)
  have "hgap_decoder_read W (dl_dec st) (fst p @ snd p) (of_nat (length (fst p))) =
      Ret (- err_num HGAP_EOT, dl_dec st\<lparr>dec_state := T_STOPPED\<rparr>)"
    using assms(1,3) len
    by (subst hgap_decoder_read_eq) (auto simp: raw_type_prefix Let_def)
  then show ?thesis
    by (simp add: decloop.simps(2) packet_turn_def dec_turn_of_def slot_buf_def Let_def)
qed

definition ends :: "bytes \<Rightarrow> bool" where
  "ends raw \<longleftrightarrow> raw_type raw (of_nat (length raw)) = HGAP_PKT_END \<and> length raw < 2 ^ 64"

lemma decloop_body:
  assumes wh: "wh_block_size W" and snd: "wh_sound W" and ps: "map fst ps = pre @ body"
    and pre: "announces pre" and body: "chunks_stream W psz cs body"
    and cs: "list_all (wire_chunk_ok W psz) cs" "chunk_sequence cs"
  shows "\<exists>dec sz. decloop W True 0 (map packet_turn ps @ ts) decloop_start =
      decloop W True sz ts (decloop_start\<lparr>dl_dec := dec, dl_out := concat (map (chunk_out \<circ> wc_msg) cs)\<rparr>) \<and>
    (dec_state dec = T_STARTED \<or> dec_state dec = T_DATA)"
proof -
  obtain ps1 ps2 where ps': "ps = ps1 @ ps2" "pre = map fst ps1" "body = map fst ps2"
    using ps by (auto simp: map_eq_append_conv)
  let ?start = "decloop_start :: 'a dec_thread"
  let ?st = "?start\<lparr>dl_dec := hgap_decoder_new\<lparr>dec_state := T_STARTED\<rparr>\<rparr>"
  have new: "?start\<lparr>dl_dec := hgap_decoder_new\<rparr> = ?start" by (simp add: decloop_start_def)
  have 1: "decloop W True 0 (map packet_turn ps1 @ (map packet_turn ps2 @ ts)) ?start =
      decloop W True 0 (map packet_turn ps2 @ ts) ?st"
    using decloop_announce [of ps1 W True 0 "map packet_turn ps2 @ ts" ?start] pre ps'(2)
    by (simp add: new)
  have "case cs of [] \<Rightarrow> dec_state (dl_dec ?st) = T_STARTED \<or> dec_state (dl_dec ?st) = T_DATA
      | c # _ \<Rightarrow> awaiting (wc_num c) (dl_dec ?st)"
  proof (cases cs)
    case (Cons c cs')
    then have "wc_num c < HGAP_FIRST_RESERVED"
      using cs(1) by (auto simp: wire_chunk_ok_def sent_chunk_def)
    then have "wc_num c \<noteq> -1" by (rule not_reserved)
    with Cons show ?thesis by (auto simp: awaiting_def hgap_decoder_new_def)
  qed simp
  from decloop_chunks [OF wh snd body ps'(3) cs this, of True 0 ts]
  obtain dec sz where "decloop W True 0 (map packet_turn ps2 @ ts) ?st =
      decloop W True sz ts
        (?st\<lparr>dl_dec := dec, dl_out := dl_out ?st @ concat (map (chunk_out \<circ> wc_msg) cs)\<rparr>)"
    and "dec_state dec = T_STARTED \<or> dec_state dec = T_DATA"
    by blast
  then show ?thesis
    using 1 ps'(1) by (intro exI [of _ dec] exI [of _ sz]) (simp add: decloop_start_def)
qed

lemma decloop_transfer:
  assumes wh: "wh_block_size W" and snd: "wh_sound W"
    and ps: "map fst ps = pre @ body @ [fin]"
    and pre: "announces pre" and body: "chunks_stream W psz cs body" and fin: "ends fin"
    and cs: "list_all (wire_chunk_ok W psz) cs" "chunk_sequence cs"
  shows "\<exists>st sz. decloop W True 0 (map packet_turn ps @ ts) decloop_start = Ret st \<and>
    dl_out st = concat (map (chunk_out \<circ> wc_msg) cs) @ [\<lparr>sb_size = sz, sb_data = None\<rparr>] \<and>
    dl_ret st = Retval (err_num HGAP_SUCCESS) \<and> \<not> dl_poisoned st"
proof -
  obtain qs p where ps': "ps = qs @ [p]" "map fst qs = pre @ body" "fin = fst p"
    using ps by (cases ps rule: rev_cases) auto
  from decloop_body [OF wh snd ps'(2) pre body cs, of "packet_turn p # ts"]
  obtain dec sz where
    "decloop W True 0 (map packet_turn qs @ packet_turn p # ts) decloop_start =
      decloop W True sz (packet_turn p # ts)
        (decloop_start\<lparr>dl_dec := dec, dl_out := concat (map (chunk_out \<circ> wc_msg) cs)\<rparr>)"
    and "dec_state dec = T_STARTED \<or> dec_state dec = T_DATA"
    by blast
  then show ?thesis
    using decloop_end [of p "decloop_start\<lparr>dl_dec := dec,
        dl_out := concat (map (chunk_out \<circ> wc_msg) cs)\<rparr>" W True sz ts] fin ps'
    by (auto simp: ends_def dec_closing_def decloop_start_def)
qed

text \<open>The network reader passes every datagram on, up to the end of the transfer.\<close>

definition net_turn_of :: "bytes \<times> bytes \<Rightarrow> net_turn" where
  "net_turn_of p = \<lparr>nt_reserved = True, nt_slot = snd p, nt_result = Datagram (fst p), nt_sent = True\<rparr>"

definition in_slot :: "bytes \<times> bytes \<Rightarrow> bytes \<times> bytes" where
  "in_slot p = (fst p, drop (length (fst p)) (snd p))"

lemma net_loop_delivers:
  assumes mtu: "mtu < 2 ^ 64" and all: "list_all (\<lambda>p. length (fst p) \<le> mtu) (ps @ [p])"
    and go: "list_all (\<lambda>p. \<not> ends (fst p)) ps" and fin: "ends (fst p)"
  shows "\<exists>st'. net_loop mtu (True, True) (map net_turn_of (ps @ [p]) @ ts) st = Ret st' \<and>
    nr_out st' = nr_out st @ map (slot_buf \<circ> in_slot) (ps @ [p]) @ [SBUF_NULL] \<and>
    nr_ret st' = Retval (err_num HGAP_SUCCESS)"
proof -
  have turn: "net_loop mtu (True, True) (net_turn_of q # ts') st' =
      (let st1 = (if raw_type (fst q) (of_nat (length (fst q))) = HGAP_PKT_BEGIN \<and> \<not> nr_started st'
                  then st'\<lparr>nr_started := True\<rparr> else st');
           st2 = st1\<lparr>nr_out := nr_out st1 @ [(slot_buf \<circ> in_slot) q]\<rparr>
       in if ends (fst q) then Ret (net_closing True True (err_num HGAP_SUCCESS) st2)
          else net_loop mtu (True, True) ts' st2)" if q: "length (fst q) \<le> mtu" for q ts' st'
  proof -
    let ?sz = "of_nat (length (fst q)) :: u64" and ?c = "fst q @ drop (length (fst q)) (snd q)"
    have len: "length (fst q) < 2 ^ 64" using q mtu by simp
    have sz: "unat ?sz = length (fst q)" by (rule unat_of_length [OF len])
    have "hgap_pkt_type ?c ?sz = Ret (raw_type ?c ?sz)"
      using sz by (simp add: hgap_pkt_type_eq raw_type_def)
    then have "hgap_pkt_type ?c ?sz = Ret (raw_type (fst q) ?sz)"
      using raw_type_prefix [OF sz] by simp
    then show ?thesis
      using q len
      by (simp add: net_turn_of_def recv_into_def Let_def slot_buf_def in_slot_def ends_def)
  qed
  show ?thesis
    using all go
  proof (induction ps arbitrary: st)
    case Nil
    then show ?case
      using fin turn [of p ts st] by (simp add: Let_def net_closing_def del: net_loop.simps)
  next
    case (Cons q ps)
    obtain st2 where run: "net_loop mtu (True, True) (map net_turn_of ((q # ps) @ [p]) @ ts) st =
        net_loop mtu (True, True) (map net_turn_of (ps @ [p]) @ ts) st2"
      and out: "nr_out st2 = nr_out st @ [(slot_buf \<circ> in_slot) q]"
      using turn [of q "map net_turn_of (ps @ [p]) @ ts" st] Cons.prems
      by (simp add: Let_def del: net_loop.simps)
    show ?case unfolding run using Cons.IH [of st2] Cons.prems out by simp
  qed
qed

text \<open>The writer writes what it is given.\<close>

definition write_turn_of :: "sized_buf \<Rightarrow> write_turn" where
  "write_turn_of b = \<lparr>wt_chunk = Some b, wt_written = sint (sb_size b)\<rparr>"

lemma sint_length: "length m < 2 ^ 63 \<Longrightarrow> sint (of_nat (length m) :: u64) = int (length m)"
proof -
  assume "length m < 2 ^ 63"
  then have u: "unat (of_nat (length m) :: u64) = length m" by (intro unat_of_length) simp
  then have "sint (of_nat (length m) :: u64) = uint (of_nat (length m) :: u64)"
    using \<open>length m < 2 ^ 63\<close> by (intro sint_small) simp
  moreover have "int (unat (of_nat (length m) :: u64)) = uint (of_nat (length m) :: u64)" by simp
  ultimately show ?thesis by (simp only: u)
qed

lemma writer_data:
  assumes "length m < 2 ^ 63"
  shows "\<exists>k j. writer (write_turn_of (data_buf m) # ts) st =
    writer ts (st\<lparr>wr_file := wr_file st @ m, wr_total := wr_total st + length m,
      wr_since_sync := k, wr_syncs := j\<rparr>)"
proof -
  have "unat (of_nat (length m) :: u64) = length m"
    using assms by (intro unat_of_length) simp
  then show ?thesis
    using sint_length [OF assms]
    by (cases st, cases "HGAPR_WRITE_SYNC_THRESHOLD \<le> wr_since_sync st + length m")
      (auto simp: write_turn_of_def data_buf_def Let_def)
qed

lemma writer_all:
  assumes "list_all (\<lambda>m. length m < 2 ^ 63) ms"
  shows "let st' = writer (map write_turn_of (concat (map chunk_out ms) @
      [\<lparr>sb_size = sz, sb_data = None\<rparr>]) @ ts) st
    in wr_file st' = wr_file st @ concat ms \<and>
       wr_total st' = wr_total st + length (concat ms) \<and>
       wr_ret st' = Retval (err_num HGAP_SUCCESS)"
  using assms
proof (induction ms arbitrary: st)
  case Nil
  then show ?case by (simp add: write_turn_of_def writer_closing_def Let_def)
next
  case (Cons m ms)
  show ?case
  proof (cases "m = []")
    case True
    then show ?thesis using Cons by (simp add: chunk_out_def)
  next
    case False
    have "length m < 2 ^ 63" using Cons.prems by simp
    from writer_data [OF this, of "map write_turn_of (concat (map chunk_out ms) @
        [\<lparr>sb_size = sz, sb_data = None\<rparr>]) @ ts" st]
    obtain k j where run: "writer (map write_turn_of (concat (map chunk_out (m # ms)) @
        [\<lparr>sb_size = sz, sb_data = None\<rparr>]) @ ts) st =
      writer (map write_turn_of (concat (map chunk_out ms) @
        [\<lparr>sb_size = sz, sb_data = None\<rparr>]) @ ts)
        (st\<lparr>wr_file := wr_file st @ m, wr_total := wr_total st + length m,
          wr_since_sync := k, wr_syncs := j\<rparr>)"
      using False by (auto simp: chunk_out_def)
    show ?thesis
      unfolding run
      using Cons.IH [of "st\<lparr>wr_file := wr_file st @ m, wr_total := wr_total st + length m,
          wr_since_sync := k, wr_syncs := j\<rparr>"] Cons.prems
      by (simp add: Let_def)
  qed
qed

subsection \<open>The receiver as a whole\<close>

text \<open>
  The three threads one after the other, each fed with what the one before sent. No channel is
  poisoned and no call fails; \<open>ps\<close> are the datagrams and what their slots held before.
\<close>

definition run_receiver ::
  "'s wirehair \<Rightarrow> u64 \<Rightarrow> (bytes \<times> bytes) list \<Rightarrow> (retval \<times> retval \<times> retval \<times> bytes) outcome" where
  "run_receiver W elt_size ps =
     obind (hgapr_net_reader elt_size True (True, True) (map net_turn_of ps)) (\<lambda>net.
     obind (decloop W True 0 (map dec_turn_of (nr_out net)) decloop_start) (\<lambda>dec.
       let wr = writer (map write_turn_of (dl_out dec)) writer_start
       in Ret (nr_ret net, dl_ret dec, wr_ret wr, wr_file wr)))"

lemma announces_not_ends: "announces pre \<Longrightarrow> list_all (\<lambda>raw. \<not> ends raw) pre"
  by (auto simp: announces_def noise_def ends_def list_all_iff)

lemma packet_not_ends:
  assumes "sent_chunk W psz num m E" "wh_block_size W" "chunk_packet W psz num m E i = Some raw"
  shows "\<not> ends raw"
  using sent_packet_type [OF assms packet_size [OF assms], of "[]"] by (simp add: ends_def)

lemma chunk_stream_not_ends:
  assumes "sent_chunk W psz num m E" "wh_block_size W"
    and "chunk_stream W psz num m E ids raws"
  shows "list_all (\<lambda>raw. \<not> ends raw) raws"
  using assms(3)
  by (induction rule: chunk_stream.induct)
    (auto simp: noise_def ends_def dest: packet_not_ends [OF assms(1,2)])

lemma chunks_stream_not_ends:
  assumes "wh_block_size W" "chunks_stream W psz cs raws" "list_all (wire_chunk_ok W psz) cs"
  shows "list_all (\<lambda>raw. \<not> ends raw) raws"
  using assms(2,3)
proof (induction rule: chunks_stream.induct)
  case (next_chunk c raws cs rest)
  then show ?case
    using chunk_stream_not_ends [OF _ assms(1) next_chunk.hyps(1)] by (simp add: wire_chunk_ok_def)
qed simp

lemma run_receiver_ok:
  assumes wh: "wh_block_size W" and snd: "wh_sound W"
    and raws: "map fst ps = pre @ body @ [fin]"
    and pre: "announces pre" and body: "chunks_stream W psz cs body" and fin: "ends fin"
    and cs: "list_all (wire_chunk_ok W psz) cs" "chunk_sequence cs"
    and mtu: "list_all (\<lambda>p. length (fst p) \<le> unat (elt_size - 16)) ps"
  shows "run_receiver W elt_size ps =
    Ret (Retval 0, Retval 0, Retval 0, concat (map wc_msg cs))"
proof -
  obtain qs q where ps: "ps = qs @ [q]" "map fst qs = pre @ body" "fst q = fin"
    using raws by (cases ps rule: rev_cases) auto
  have go: "list_all (\<lambda>p. \<not> ends (fst p)) qs"
  proof -
    have "list_all (\<lambda>raw. \<not> ends raw) (map fst qs)"
      unfolding ps(2)
      using announces_not_ends [OF pre] chunks_stream_not_ends [OF wh body cs(1)] by simp
    then show ?thesis by (simp add: list_all_iff)
  qed
  have lt: "unat (elt_size - 16) < 2 ^ 64"
    using unsigned_less [of "elt_size - 16"] by simp
  have all: "list_all (\<lambda>p. length (fst p) \<le> unat (elt_size - 16)) (qs @ [q])"
    using mtu ps(1) by simp
  have "ends (fst q)" using fin ps(3) by simp
  from net_loop_delivers [OF lt all go this, of "[]"
      "\<lparr>nr_started = False, nr_out = [], nr_ret = Waiting\<rparr>"]
  obtain net where net: "hgapr_net_reader elt_size True (True, True) (map net_turn_of ps) = Ret net"
    "nr_out net = map slot_buf (map in_slot ps) @ [SBUF_NULL]" "nr_ret net = Retval 0"
    by (auto simp: hgapr_net_reader_def Let_def ps(1) simp del: net_loop.simps)
  have turns: "map dec_turn_of (nr_out net) =
      map packet_turn (map in_slot ps) @ [dec_turn_of SBUF_NULL]"
    by (simp add: net(2) packet_turn_def comp_def)
  have "map fst (map in_slot ps) = pre @ body @ [fin]"
    using raws by (simp add: in_slot_def comp_def)
  from decloop_transfer [OF wh snd this pre body fin cs, of "[dec_turn_of SBUF_NULL]"]
  obtain dec sz where dec:
    "decloop W True 0 (map dec_turn_of (nr_out net)) decloop_start = Ret dec"
    "dl_out dec = concat (map chunk_out (map wc_msg cs)) @ [\<lparr>sb_size = sz, sb_data = None\<rparr>]"
    "dl_ret dec = Retval 0"
    unfolding turns by (auto simp: comp_def)
  have "list_all (\<lambda>m. length m < 2 ^ 63) (map wc_msg cs)"
    using cs(1) by (fastforce simp: list_all_iff wire_chunk_ok_def dest: sent_chunk_bounds(3))
  note writer_all [OF this, of sz "[]" writer_start]
  then have wr: "wr_file (writer (map write_turn_of (dl_out dec)) writer_start) =
      concat (map wc_msg cs)"
    "wr_ret (writer (map write_turn_of (dl_out dec)) writer_start) = Retval 0"
    by (simp_all add: dec(2) Let_def writer_start_def)
  show ?thesis
    unfolding run_receiver_def net(1,3) obind.simps dec(1,3) Let_def wr ..
qed

subsection \<open>Properties\<close>

text \<open>The receiver restores the input. Its datagrams are an announcement, then for each chunk any
  packets of it (some lost, repeated, out of order, mixed with keepalives and unknown packets) that
  suffice to recover it, then an end packet; the slots hold anything. Then all three threads
  end with success and the output is the concatenation of the messages.\<close>

theorem receiver_restores_messages:
  assumes "wh_block_size W" and "wh_sound W"
    and "map fst ps = pre @ body @ [fin]"
    and "announces pre" and "chunks_stream W psz cs body" and "ends fin"
    and "list_all (wire_chunk_ok W psz) cs" and "chunk_sequence cs"
    and "list_all (\<lambda>p. length (fst p) \<le> unat (elt_size - 16)) ps"
  shows "run_receiver W elt_size ps = Ret (Retval 0, Retval 0, Retval 0, concat (map wc_msg cs))"
  by (rule run_receiver_ok [OF assms])

lemma fst_TrueD: "fst p \<Longrightarrow> \<exists>s. p = (True, s)"
  by (cases p) simp

definition example_body :: "bytes list" where
  "example_body =
     [header_bytes hgap_header_keepalive, header_bytes (chunk_header 26 0 [7, 8, 9] 3) @ [9, 0],
      header_bytes (chunk_header 26 0 [7, 8, 9] 0) @ [7, 8]]"

lemma example_recoverable:
  assumes "fst (wh_feed cyclic (CycDec 3 2 [None, None])
    (map (\<lambda>i. (i, the (wh_write cyclic (Some (CycEnc [7, 8, 9] 2)) i))) ids))"
    and "ids \<noteq> []"
  shows "recoverable cyclic 26 [7, 8, 9] (Some (CycEnc [7, 8, 9] 2)) ids"
proof -
  have "replicate (n_blocks 3 2) (None :: bytes option) = [None, None]" by code_simp
  then have "wh_decode cyclic re 3 2 = Some (CycDec 3 2 [None, None])" for re
    by (simp add: cyclic_def)
  then show ?thesis
    using fst_TrueD [OF assms(1)] assms(2) unfolding recoverable_def by simp
qed

lemma example_stream:
  "chunk_stream cyclic 26 0 [7, 8, 9] (Some (CycEnc [7, 8, 9] 2)) [3, 0] example_body"
proof -
  have "noise (header_bytes hgap_header_keepalive)" by (simp add: noise_def raw_type_def)
  moreover have "chunk_packet cyclic 26 0 [7, 8, 9] (Some (CycEnc [7, 8, 9] 2)) 3 =
      Some (header_bytes (chunk_header 26 0 [7, 8, 9] 3) @ [9, 0])"
    "chunk_packet cyclic 26 0 [7, 8, 9] (Some (CycEnc [7, 8, 9] 2)) 0 =
      Some (header_bytes (chunk_header 26 0 [7, 8, 9] 0) @ [7, 8])"
    by code_simp+
  ultimately show ?thesis
    unfolding example_body_def by (intro stream_noise stream_packet stream_end)
qed

lemma example_chunk_recoverable:
  "recoverable cyclic 26 [7, 8, 9] (Some (CycEnc [7, 8, 9] 2)) [3, 0]"
  by (rule example_recoverable) code_simp+

lemma example_chunk_sent: "sent_chunk cyclic 26 0 [7, 8, 9] (Some (CycEnc [7, 8, 9] 2))"
  by (simp add: sent_chunk_def proto_consts HGAP_MAX_CHUNK_SIZE_def cyclic_def)

theorem receiver_restores_messages_witness:
  "run_receiver cyclic 1416
     (map (\<lambda>raw. (raw, replicate 1400 1))
       ([header_bytes hgap_header_begin] @ example_body @ [header_bytes hgap_header_end])) =
   Ret (Retval 0, Retval 0, Retval 0, [7, 8, 9])"
proof -
  let ?E = "Some (CycEnc [7, 8, 9] 2)"
  let ?c = "\<lparr>wc_num = 0, wc_msg = [7, 8, 9], wc_enc = ?E, wc_ids = [3, 0]\<rparr>"
  have begins: "raw_type (header_bytes hgap_header_begin) 24 = HGAP_PKT_BEGIN"
    and fin: "ends (header_bytes hgap_header_end)"
    by (simp_all add: ends_def raw_type_def)
  have body: "chunks_stream cyclic 26 [?c] example_body"
    using next_chunk [OF _ no_chunk, of cyclic 26 ?c example_body] example_stream by simp
  have pre: "announces [header_bytes hgap_header_begin]"
    using begins by (simp add: announces_def noise_def)
  have cs: "list_all (wire_chunk_ok cyclic 26) [?c]"
    using example_chunk_recoverable example_chunk_sent by (simp add: wire_chunk_ok_def)
  show ?thesis
    by (subst receiver_restores_messages [OF cyclic_block_size cyclic_sound _ pre body fin cs])
      (simp_all add: comp_def example_body_def)
qed

text \<open>The reads of the decoder thread up to the first one that does not ask for more: what
  \<open>decloop\<close> does with the datagrams of the channel between two chunks it emits.\<close>

fun read_packets ::
  "'s wirehair \<Rightarrow> (bytes \<times> bytes) list \<Rightarrow> 's hgap_decoder \<Rightarrow> (int \<times> 's hgap_decoder) outcome" where
  "read_packets W [] dec = Ret (0, dec)"
| "read_packets W (p # ps) dec =
     obind (hgap_decoder_read W dec (fst p @ snd p) (of_nat (length (fst p))))
       (\<lambda>(dec_ret, dec'). if dec_ret = 0 then read_packets W ps dec' else Ret (dec_ret, dec'))"

text \<open>Reading stopped with nothing to emit yet, or with the complete chunk.\<close>

definition read_result ::
  "'s wirehair \<Rightarrow> u64 \<Rightarrow> u64 \<Rightarrow> bytes \<Rightarrow> 's option \<Rightarrow> u32 list \<Rightarrow> int \<Rightarrow> 's hgap_decoder \<Rightarrow> bool" where
  "read_result W psz num m E ids r dec \<longleftrightarrow>
     r = 0 \<and> (m \<noteq> [] \<longrightarrow> \<not> recoverable W psz m E ids) \<or>
     r = int (length m) \<and> m \<noteq> [] \<and> chunk_complete dec \<and>
       (\<exists>fed. assembling W psz num m E fed dec)"

lemma read_packets_more:
  assumes sent: "sent_chunk W psz num m E" and wh: "wh_block_size W"
    and "chunk_stream W psz num m E ids raws" "raws = map fst ps"
    and "assembling W psz num m E fed dec" and "\<not> chunk_complete dec" "\<not> chunk_emitted dec"
  shows "\<exists>r dec'. read_packets W ps dec = Ret (r, dec') \<and>
    read_result W psz num m E (fed_ids fed @ ids) r dec'"
  using assms(3-7)
proof (induction arbitrary: ps fed dec rule: chunk_stream.induct)
  case stream_end
  then have "\<not> recoverable W psz m E (fed_ids fed)" if "m \<noteq> []"
    using recoverable_complete [OF sent _ stream_end.prems(2) that] by blast
  then show ?case using stream_end.prems(1) by (simp add: read_result_def)
next
  case (stream_noise raw ids raws)
  obtain p ps' where ps: "ps = p # ps'" "fst p = raw" "raws = map fst ps'"
    using stream_noise.prems(1) by (cases ps) auto
  have "dec_state dec = T_DATA" using stream_noise.prems(2) by (simp add: assembling_def)
  then have "hgap_decoder_read W dec (fst p @ snd p) (of_nat (length (fst p))) = Ret (0, dec)"
    using noise_read [OF stream_noise.hyps(1), of dec W "snd p"] ps by simp
  then show ?case
    using stream_noise.IH [OF ps(3) stream_noise.prems(2-4)] ps(1) by simp
next
  case (stream_packet i raw ids raws)
  obtain p ps' where ps: "ps = p # ps'" "fst p = raw" "raws = map fst ps'"
    using stream_packet.prems(1) by (cases ps) auto
  obtain b dec1 where
    rd: "hgap_decoder_read W dec (fst p @ snd p) (of_nat (length (fst p))) =
      Ret (if chunk_complete dec1 then int (length m) else 0, dec1)"
    and asm: "assembling W psz num m E (fed @ [(i, b)]) dec1" and em: "\<not> chunk_emitted dec1"
    using read_next_packet [OF sent wh stream_packet.prems(2) _ stream_packet.hyps(1)
        packet_size [OF sent wh stream_packet.hyps(1)], of "snd p"] ps(2) stream_packet.prems(3,4)
    by auto
  show ?case
  proof (cases "chunk_complete dec1")
    case True
    then have "m \<noteq> []" by (rule assembling_complete_nonempty [OF asm])
    then show ?thesis using rd True asm ps(1) by (auto simp: read_result_def)
  next
    case False
    have "fed_ids (fed @ [(i, b)]) @ ids = fed_ids fed @ i # ids" by (simp add: fed_ids_def)
    then show ?thesis
      using stream_packet.IH [OF ps(3) asm False em] rd False ps(1) by simp
  qed
qed

lemma read_packets_chunk:
  assumes sent: "sent_chunk W psz num m E" and wh: "wh_block_size W"
    and "chunk_stream W psz num m E ids raws" "raws = map fst ps"
    and "awaiting num dec"
    and "unat psz - 24 < length m \<Longrightarrow>
      wh_decode W (ck_wh_state (dec_chunk dec)) (of_nat (length m)) (psz - 24) \<noteq> None"
  shows "\<exists>r dec'. read_packets W ps dec = Ret (r, dec') \<and> read_result W psz num m E ids r dec'"
  using assms(3-6)
proof (induction arbitrary: ps dec rule: chunk_stream.induct)
  case stream_end
  then show ?case by (simp add: read_result_def recoverable_def)
next
  case (stream_noise raw ids raws)
  obtain p ps' where ps: "ps = p # ps'" "fst p = raw" "raws = map fst ps'"
    using stream_noise.prems(1) by (cases ps) auto
  have "hgap_decoder_read W dec (fst p @ snd p) (of_nat (length (fst p))) = Ret (0, dec)"
    using noise_read [OF stream_noise.hyps(1), of dec W "snd p"] ps stream_noise.prems(2)
    by (auto simp: awaiting_def)
  then show ?case
    using stream_noise.IH [OF ps(3) stream_noise.prems(2,3)] ps(1) by simp
next
  case (stream_packet i raw ids raws)
  obtain p ps' where ps: "ps = p # ps'" "fst p = raw" "raws = map fst ps'"
    using stream_packet.prems(1) by (cases ps) auto
  obtain b dec1 where
    rd: "hgap_decoder_read W dec (fst p @ snd p) (of_nat (length (fst p))) =
      Ret (if chunk_complete dec1 then int (length m) else 0, dec1)"
    and asm: "assembling W psz num m E [(i, b)] dec1" and em: "\<not> chunk_emitted dec1"
    using read_first_packet [OF sent wh stream_packet.prems(2,3) stream_packet.hyps(1)
        packet_size [OF sent wh stream_packet.hyps(1)], of "snd p"] ps(2) by auto
  show ?case
  proof (cases "chunk_complete dec1")
    case True
    then have "m \<noteq> []" by (rule assembling_complete_nonempty [OF asm])
    then show ?thesis using rd True asm ps(1) by (auto simp: read_result_def)
  next
    case False
    then show ?thesis
      using read_packets_more [OF sent wh stream_packet.hyps(2) ps(3) asm False em] rd ps(1)
      by (simp add: fed_ids_def)
  qed
qed

text \<open>C16: the two operations of the decoder reassemble a chunk. From a decoder that waits for it, the
  packets the sender makes of the chunk are read, with any ids in any order, lost, repeated and mixed
  with other datagrams, each in a slot that holds anything behind it. Reading never fails and
  stops with 0, when more packets are needed, or with the length of the message; then the
  emission succeeds with the message itself. When the ids suffice for wirehair, a non-empty
  message is always returned.\<close>

theorem read_packets_emit_the_message:
  assumes "sent_chunk W psz num m E" and "wh_block_size W" and "wh_sound W"
    and "chunk_stream W psz num m E ids (map fst ps)" and "awaiting num dec"
    and "unat psz - 24 < length m \<Longrightarrow>
      wh_decode W (ck_wh_state (dec_chunk dec)) (of_nat (length m)) (psz - 24) \<noteq> None"
    and "length out = length m"
  shows "\<exists>r dec'. read_packets W ps dec = Ret (r, dec') \<and>
    (r = 0 \<or> r = int (length m) \<and>
       hgap_decoder_emit W dec' out (of_nat (length m)) =
         Ret (HGAP_SUCCESS, dec'\<lparr>chunk_emitted := True\<rparr>, m)) \<and>
    (m \<noteq> [] \<and> recoverable W psz m E ids \<longrightarrow> r = int (length m))"
proof -
  obtain r dec' where "read_packets W ps dec = Ret (r, dec')"
    and res: "read_result W psz num m E ids r dec'"
    using read_packets_chunk [OF assms(1,2,4) refl assms(5,6)] by blast
  moreover have "hgap_decoder_emit W dec' out (of_nat (length m)) =
      Ret (HGAP_SUCCESS, dec'\<lparr>chunk_emitted := True\<rparr>, m)"
    if "assembling W psz num m E fed dec'" "chunk_complete dec'" for fed
    by (rule emit_assembled [OF assms(1,3) that unat_of_length assms(7)])
      (rule sent_chunk_bounds(4) [OF assms(1)])
  ultimately show ?thesis by (auto simp: read_result_def)
qed

theorem read_packets_emit_the_message_witness:
  "\<exists>r dec' dec''. read_packets cyclic (map (\<lambda>raw. (raw, replicate 9 1)) example_body)
      (hgap_decoder_new\<lparr>dec_state := T_STARTED\<rparr>) = Ret (r, dec') \<and> r = 3 \<and>
    hgap_decoder_emit cyclic dec' [0, 0, 0] 3 = Ret (HGAP_SUCCESS, dec'', [7, 8, 9])"
proof -
  have stream: "chunk_stream cyclic 26 0 [7, 8, 9] (Some (CycEnc [7, 8, 9] 2)) [3, 0]
      (map fst (map (\<lambda>raw. (raw, replicate 9 1)) example_body))"
    using example_stream by (simp add: comp_def)
  have wait: "awaiting 0 (hgap_decoder_new\<lparr>dec_state := T_STARTED\<rparr> :: cyc hgap_decoder)"
    by (simp add: awaiting_def hgap_decoder_new_def)
  have "length [0, 0, 0 :: 8 word] = length [7, 8, 9 :: 8 word]" by simp
  from read_packets_emit_the_message [OF example_chunk_sent cyclic_block_size cyclic_sound stream
      wait _ this] example_chunk_recoverable
  show ?thesis by (fastforce simp: cyclic_def)
qed

text \<open>C33: when wirehair cannot set up its decoder for a chunk, the decoder thread ends at the first
  packet of that chunk as it ends at the end packet: it returns \<open>HGAP_SUCCESS\<close>, poisons no
  channel, and the writer is sent the pill of a regular end.\<close>

theorem wirehair_failure_looks_like_the_end:
  fixes st :: "'s dec_thread" and sz :: u64
  assumes "sent_chunk W psz num m E" and "wh_block_size W" and "awaiting num (dl_dec st)"
    and "unat psz - 24 < length m"
    and "wh_decode W (ck_wh_state (dec_chunk (dl_dec st))) (of_nat (length m)) (psz - 24) = None"
    and "chunk_packet W psz num m E i = Some raw"
  defines "ended \<equiv> \<lambda>dec. st\<lparr>dl_dec := dec,
      dl_out := dl_out st @ [\<lparr>sb_size = sz, sb_data = None\<rparr>],
      dl_ret := Retval (err_num HGAP_SUCCESS)\<rparr>"
  shows "(\<exists>dec. decloop W True sz (packet_turn (raw, junk) # ts) st = Ret (ended dec) \<and>
      dec_state dec = T_DATA) \<and>
    (\<exists>dec. decloop W True sz (packet_turn (header_bytes hgap_header_end, junk) # ts) st =
      Ret (ended dec) \<and> dec_state dec = T_STOPPED)"
proof
  obtain dec where "hgap_decoder_read W (dl_dec st) (raw @ junk) (of_nat (length raw)) =
      Ret (- err_num HGAP_EOT, dec)" "dec_state dec = T_DATA"
    using decode_failure_read [OF assms(1-6) packet_size [OF assms(1,2,6)]] by blast
  then show "\<exists>dec. decloop W True sz (packet_turn (raw, junk) # ts) st = Ret (ended dec) \<and>
      dec_state dec = T_DATA"
    by (intro exI [of _ dec]) (simp add: decloop.simps(2) packet_turn_def dec_turn_of_def slot_buf_def Let_def
        dec_closing_def ended_def)
  have "raw_type (header_bytes hgap_header_end) 24 = HGAP_PKT_END" by (simp add: raw_type_def)
  then show "\<exists>dec. decloop W True sz (packet_turn (header_bytes hgap_header_end, junk) # ts) st =
      Ret (ended dec) \<and> dec_state dec = T_STOPPED"
    using decloop_end [of "(header_bytes hgap_header_end, junk)" st W True sz ts] assms(3)
    by (intro exI [of _ "dl_dec st\<lparr>dec_state := T_STOPPED\<rparr>"]) (simp add: awaiting_def dec_closing_def ended_def)
qed

theorem wirehair_failure_looks_like_the_end_witness:
  "\<exists>st. decloop (cyclic\<lparr>wh_decode := \<lambda>_ _ _. None\<rparr>) True 0
      [packet_turn (header_bytes (chunk_header 26 0 [1, 2, 3] 0) @ [1, 2], [])]
      (decloop_start\<lparr>dl_dec := hgap_decoder_new\<lparr>dec_state := T_STARTED\<rparr>\<rparr>) = Ret st \<and>
    dl_ret st = Retval 0 \<and> \<not> dl_poisoned st \<and> dec_state (dl_dec st) = T_DATA"
proof -
  let ?W = "cyclic\<lparr>wh_decode := \<lambda>_ _ _. None\<rparr>" and ?E = "Some (CycEnc [1, 2, 3] 2)"
  let ?st = "decloop_start\<lparr>dl_dec := hgap_decoder_new\<lparr>dec_state := T_STARTED\<rparr>\<rparr> :: cyc dec_thread"
  have "sent_chunk ?W 26 0 [1, 2, 3] ?E"
    by (simp add: sent_chunk_def proto_consts HGAP_MAX_CHUNK_SIZE_def cyclic_def)
  moreover have "wh_block_size ?W"
    using cyclic_block_size by (simp add: wh_block_size_def)
  moreover have "chunk_packet ?W 26 0 [1, 2, 3] ?E 0 =
      Some (header_bytes (chunk_header 26 0 [1, 2, 3] 0) @ [1, 2])"
    by (simp add: chunk_packet_def chunk_block_def cyclic_def cyc_block_def)
  moreover have "awaiting 0 (dl_dec ?st)" by (simp add: awaiting_def hgap_decoder_new_def)
  ultimately show ?thesis
    using wirehair_failure_looks_like_the_end [of ?W 26 0 "[1, 2, 3]" ?E ?st 0 _ 0 "[]" "[]"]
    by (fastforce simp: decloop_start_def)
qed

text \<open>The sizes of the receiver's channels: a slot holds a packet of the configured size behind the
  bookkeeping, the slots together stay within half the memory limit, and there is no slot at all
  as soon as the limit is below twice the size of one.\<close>

theorem receive_channel_sizes:
  assumes "unat cfg_pkt_size \<le> 1500"
  shows "unat (receive_pkt_size cfg_pkt_size - 16) = unat cfg_pkt_size \<and>
    unat (receive_pkt_size cfg_pkt_size) * unat (receive_pkt_chan_size mem_limit cfg_pkt_size) \<le>
      unat mem_limit div 2 \<and>
    (receive_pkt_chan_size mem_limit cfg_pkt_size = 0 \<longleftrightarrow>
      unat mem_limit div 2 < unat cfg_pkt_size + 16) \<and>
    256 \<le> unat (receive_chunk_chan_size mem_limit)"
proof -
  have p: "unat (receive_pkt_size cfg_pkt_size) = unat cfg_pkt_size + 16"
    using assms by (simp add: receive_pkt_size_def unat_word_ariths)
  have n: "unat (receive_pkt_chan_size mem_limit cfg_pkt_size) =
      (unat mem_limit div 2) div (unat cfg_pkt_size + 16)"
    by (simp add: receive_pkt_chan_size_def unat_div p)
  have "256 \<le> unat (receive_chunk_chan_size mem_limit)"
    by (simp add: receive_chunk_chan_size_def Let_def word_less_nat_alt)
  moreover have "unat (receive_pkt_size cfg_pkt_size - 16) = unat cfg_pkt_size"
    by (simp add: receive_pkt_size_def)
  moreover have "receive_pkt_chan_size mem_limit cfg_pkt_size = 0 \<longleftrightarrow>
      unat mem_limit div 2 < unat cfg_pkt_size + 16"
    by (simp add: word_unat_eq_iff n div_eq_0_iff)
  ultimately show ?thesis unfolding p n by simp
qed

theorem receive_channel_sizes_witness:
  "receive_pkt_chan_size 2048 1400 = 0 \<and> unat (receive_pkt_size 1400 - 16) = 1400"
  using receive_channel_sizes [of 1400 2048] by simp

end
