(* ===== verification/End_To_End.thy ===== *)
theory End_To_End
  imports SendLoop ReceiveLoop
begin

section \<open>A whole transfer\<close>

text \<open>
  \<open>run_sender\<close> composes the three threads of \<open>hgap_send\<close> the way their channels do, each fed with
  what the one before sent; \<open>run_receiver\<close> of theory \<open>ReceiveLoop\<close> does so for \<open>hgap_receive\<close>.
  Between the two is the network: \<open>delivery\<close> says which datagrams may arrive. The property at
  the end is what the program is for.

  In these compositions the channels are lists without a bound, and each thread ends before the next one
  starts. Theories \<open>Send_System\<close>, \<open>Receive_System\<close> and \<open>Transfer_System\<close> have the threads
  interleaved over the channels with their capacities; theorem \<open>concurrent_transfer_is_sequential\<close>
  shows that the results are the same. The one capacity at which they are not is zero, which
  the receiver's memory limit can give: \<open>run_receiver_config\<close> has that case.
\<close>

subsection \<open>The sender as a whole\<close>

text \<open>No call of the reader fails; \<open>slots\<close> is what the slots of the channel held before.\<close>

definition run_sender ::
  "sender_env \<Rightarrow> 's wirehair \<Rightarrow> dbl \<Rightarrow> u64 \<Rightarrow> u64 \<Rightarrow> hgap_sender option \<Rightarrow> bytes list \<Rightarrow> bytes \<Rightarrow>
     (retval \<times> retval \<times> retval \<times> bytes list) outcome" where
  "run_sender env W wanted psz elt_size hs slots data =
     obind (read_loop elt_size (True, True) (map read_turn_of slots)
         (Some \<lparr>f_rest = data, f_fail_at = None, f_eof = False, f_err = False\<rparr>)) (\<lambda>rd.
     obind (encode_loop W True (map encode_turn_of (rl_out rd)) (encode_start psz)) (\<lambda>en.
     obind (send_loop env W wanted psz (hgap_encoder_new psz) hs (map Some (el_out en)))
       (\<lambda>(ret, hs'). Ret (rl_ret rd, el_ret en, ret, hs_wire hs'))))"

text \<open>What it sends: the chunks of the input with the ids of their packets, between the salves.\<close>

fun chunks_from ::
  "'s wirehair \<Rightarrow> u64 \<Rightarrow> dbl \<Rightarrow> u64 \<Rightarrow> bytes list \<Rightarrow> 's wire_chunk list" where
  "chunks_from W psz wanted num [] = []"
| "chunks_from W psz wanted num (m # ms) =
     \<lparr>wc_num = num, wc_msg = m, wc_enc = chunk_encoder W psz m,
      wc_ids = map of_nat [0..<n_packets wanted (chunk_payload psz m) (length m)]\<rparr> #
     chunks_from W psz wanted (num + 1) ms"

definition sent_packets :: "'s wirehair \<Rightarrow> u64 \<Rightarrow> 's wire_chunk \<Rightarrow> bytes list" where
  "sent_packets W psz c =
     map (\<lambda>i. the (chunk_packet W psz (wc_num c) (wc_msg c) (wc_enc c) i)) (wc_ids c)"

definition transfer_wire :: "'s wirehair \<Rightarrow> u64 \<Rightarrow> 's wire_chunk list \<Rightarrow> bytes list" where
  "transfer_wire W psz cs =
     replicate 32 (header_bytes hgap_header_begin) @ concat (map (sent_packets W psz) cs) @
     replicate 32 (header_bytes hgap_header_end)"

text \<open>
  A wirehair that works: it encodes every message longer than a block and at most \<open>n\<close> bytes
  long, and then writes every block.
\<close>

definition wh_works :: "'s wirehair \<Rightarrow> u64 \<Rightarrow> nat \<Rightarrow> bool" where
  "wh_works W bs n \<longleftrightarrow>
     (\<forall>m. unat bs < length m \<longrightarrow> length m \<le> n \<longrightarrow>
        (\<exists>E. wh_encode W None m bs = Some E \<and> (\<forall>i. wh_write W (Some E) i \<noteq> None)))"

subsection \<open>The network\<close>

text \<open>
  While a chunk is received, the datagrams that arrive are packets of it that were sent, in any
  order, any of them lost or repeated, and noise, such that those of the chunk suffice to recover it.
\<close>

definition arrives :: "'s wirehair \<Rightarrow> u64 \<Rightarrow> 's wire_chunk \<Rightarrow> bytes list \<Rightarrow> bool" where
  "arrives W psz c raws \<longleftrightarrow>
     (\<exists>ids. set ids \<subseteq> set (wc_ids c) \<and> recoverable W psz (wc_msg c) (wc_enc c) ids \<and>
        chunk_stream W psz (wc_num c) (wc_msg c) (wc_enc c) ids raws)"

definition delivery :: "'s wirehair \<Rightarrow> u64 \<Rightarrow> 's wire_chunk list \<Rightarrow> bytes list \<Rightarrow> bool" where
  "delivery W psz cs raws \<longleftrightarrow>
     (\<exists>pre segments fin. raws = pre @ concat segments @ [fin] \<and> announces pre \<and> ends fin \<and>
        list_all2 (arrives W psz) cs segments)"

subsection \<open>Lemmas\<close>

lemma all_packets_eq:
  "encoded W psz num ms cs \<Longrightarrow> all_packets W psz wanted num ms cs =
    concat (map (sent_packets W psz) (chunks_from W psz wanted num ms))"
proof (induction W psz num ms cs rule: encoded.induct)
  case (2 W psz num m ms c cs)
  then show ?case by (simp add: chunk_packets_def packets_def sent_packets_def comp_def)
qed simp_all

lemma unat_minus_24: "24 \<le> unat psz \<Longrightarrow> unat (psz - 24 :: u64) = unat psz - 24"
  by (simp add: unat_sub word_le_nat_alt)

lemma works_encodes:
  assumes "wh_works W (psz - 24) n" "24 < unat psz" "length m \<le> n" "unat psz - 24 < length m"
  shows "\<exists>E. chunk_encoder W psz m = Some E \<and> wh_encode W None m (psz - 24) = Some E \<and>
    (\<forall>i. wh_write W (Some E) i \<noteq> None)"
  using assms unat_minus_24 [of psz] by (simp add: wh_works_def chunk_encoder_def)

lemma works_encodable:
  "wh_works W (psz - 24) n \<Longrightarrow> 24 < unat psz \<Longrightarrow> length m \<le> n \<Longrightarrow> n \<le> 96000000 \<Longrightarrow>
    encodable W psz m"
  using works_encodes [of W psz n m] by (auto simp: encodable_def)

lemma works_writes:
  assumes "wh_works W (psz - 24) n" "24 < unat psz"
    and "encoded W psz num ms cs" "list_all (\<lambda>m. length m \<le> n) ms"
  shows "list_all2 (\<lambda>m c. writes_all W psz m (ck_wh_state c)) ms cs"
  using assms(3,4)
proof (induction ms arbitrary: num cs)
  case Nil
  then show ?case by (cases cs) simp_all
next
  case (Cons m ms)
  then obtain c cs' where "cs = c # cs'" by (cases cs) auto
  then show ?case
    using Cons works_encodes [OF assms(1,2), of m] by (auto simp: writes_all_def)
qed

lemma run_sender_ok:
  assumes wh: "wh_block_size W" "wh_works W (psz - 24) n" and w: "wanted_ok wanted"
    and psz: "24 < unat psz" "unat psz \<le> 1500"
    and n: "n = unat (elt_size - 16)" "0 < n" "n \<le> 96000000"
    and env: "good_env env hs" "hs_wire hs = []"
    and slots: "length slots = length (chunks_of n data)"
  shows "run_sender env W wanted psz elt_size (Some hs) slots data =
    Ret (Retval 0, Retval 0, Retval 0,
      transfer_wire W psz (chunks_from W psz wanted 0 (chunks_of n data)))"
proof -
  let ?ms = "chunks_of n data"
  have len: "list_all (\<lambda>m. length m \<le> n) ?ms"
    using chunks_of_bound [OF n(2), of _ data] by (auto simp: list_all_iff)
  obtain rd where rd: "read_loop elt_size (True, True) (map read_turn_of slots)
      (Some \<lparr>f_rest = data, f_fail_at = None, f_eof = False, f_err = False\<rparr>) = Ret rd"
    "rl_out rd = map2 piece_buf ?ms slots @ [SBUF_NULL]" "rl_ret rd = Retval 0"
    using read_loop_ok [OF n(1) [symmetric] n(2) slots, of "[]"] by auto
  have "list_all (encodable W psz) ?ms"
    using len works_encodable [OF wh(2) psz(1) _ n(3)] by (auto simp: list_all_iff)
  from encode_loop_ok [OF psz(1) this slots, of "encode_start psz" "[encode_turn_of SBUF_NULL]"]
  obtain cs en where cs: "encoded W psz 0 ?ms cs"
    and en: "encode_loop W True (map encode_turn_of (rl_out rd)) (encode_start psz) = Ret en"
    "el_out en = map Some cs @ [None]" "el_ret en = Retval 0"
    by (auto simp: encode_start_def hgap_encoder_new_def rd(2) encode_turn_of_def SBUF_NULL_def
        encode_closing_def)
  have "list_all (\<lambda>m. length m \<le> 96000000) ?ms" using len n(3) by (auto simp: list_all_iff)
  from send_loop_ok [OF wh(1) w psz cs this works_writes [OF wh(2) psz(1) cs len] env,
      of "hgap_encoder_new psz" "[]"]
  obtain hs' where "send_loop env W wanted psz (hgap_encoder_new psz) (Some hs) (map Some (el_out en)) =
      Ret (Retval 0, hs')"
    "hs_wire hs' = transfer_wire W psz (chunks_from W psz wanted 0 ?ms)"
    by (auto simp: en(2) comp_def transfer_wire_def all_packets_eq [OF cs])
  then show ?thesis by (simp add: run_sender_def rd(1,3) en(1,3))
qed

text \<open>The chunks that arrive, with the ids that arrive.\<close>

lemma arrives_chunks:
  assumes "list_all2 (arrives W psz) cs segments"
  shows "\<exists>ds. chunks_stream W psz ds (concat segments) \<and>
    list_all2 (\<lambda>c d. wc_num d = wc_num c \<and> wc_msg d = wc_msg c \<and> wc_enc d = wc_enc c \<and>
      recoverable W psz (wc_msg d) (wc_enc d) (wc_ids d)) cs ds"
  using assms
proof (induction rule: list_all2_induct)
  case Nil
  then show ?case by (intro exI [of _ "[]"]) (simp add: no_chunk)
next
  case (Cons c cs raws segments)
  then obtain ids ds where "recoverable W psz (wc_msg c) (wc_enc c) ids"
    "chunk_stream W psz (wc_num c) (wc_msg c) (wc_enc c) ids raws"
    "chunks_stream W psz ds (concat segments)"
    "list_all2 (\<lambda>c d. wc_num d = wc_num c \<and> wc_msg d = wc_msg c \<and> wc_enc d = wc_enc c \<and>
      recoverable W psz (wc_msg d) (wc_enc d) (wc_ids d)) cs ds"
    by (auto simp: arrives_def)
  then show ?case
    using next_chunk [of W psz "c\<lparr>wc_ids := ids\<rparr>" raws ds "concat segments"]
    by (intro exI [of _ "c\<lparr>wc_ids := ids\<rparr> # ds"]) simp
qed

lemma chunks_from_append:
  "chunks_from W psz wanted num (ms @ ms') =
    chunks_from W psz wanted num ms @ chunks_from W psz wanted (num + of_nat (length ms)) ms'"
  by (induction ms arbitrary: num) (simp_all add: algebra_simps)

lemma chunks_from_msgs: "map wc_msg (chunks_from W psz wanted num ms) = ms"
  by (induction ms arbitrary: num) simp_all

text \<open>Two lists of chunks that differ in the ids only.\<close>

abbreviation same_chunks :: "'s wire_chunk list \<Rightarrow> 's wire_chunk list \<Rightarrow> bool" where
  "same_chunks cs ds \<equiv>
     list_all2 (\<lambda>c d. wc_num d = wc_num c \<and> wc_msg d = wc_msg c \<and> wc_enc d = wc_enc c) cs ds"

lemma same_chunks_sequence: "same_chunks cs ds \<Longrightarrow> chunk_sequence cs \<Longrightarrow> chunk_sequence ds"
proof (induction cs arbitrary: ds rule: chunk_sequence.induct)
  case (1 c d cs)
  then show ?case by (auto simp: list_all2_Cons1)
qed (auto simp: list_all2_Cons1)

lemma same_chunks_msgs: "same_chunks cs ds \<Longrightarrow> map wc_msg ds = map wc_msg cs"
  by (induction rule: list_all2_induct) simp_all

lemma same_chunks_ok:
  "list_all2 (\<lambda>c d. wc_num d = wc_num c \<and> wc_msg d = wc_msg c \<and> wc_enc d = wc_enc c \<and>
      recoverable W psz (wc_msg d) (wc_enc d) (wc_ids d)) cs ds \<Longrightarrow>
    list_all (\<lambda>c. sent_chunk W psz (wc_num c) (wc_msg c) (wc_enc c)) cs \<Longrightarrow>
    list_all (wire_chunk_ok W psz) ds"
  by (induction rule: list_all2_induct) (auto simp: wire_chunk_ok_def)

lemma chunks_from_sequence:
  "list_all (\<lambda>m. m \<noteq> []) ms \<Longrightarrow> chunk_sequence (chunks_from W psz wanted num (ms @ [m]))"
proof (induction ms arbitrary: num)
  case (Cons m' ms)
  have "chunk_sequence (chunks_from W psz wanted (num + 1) (ms @ [m]))" using Cons by simp
  then show ?case using Cons.prems by (cases ms) simp_all
qed simp

lemma chunks_from_sent:
  assumes W: "wh_works W (psz - 24) n" and psz: "24 < unat psz" "unat psz \<le> 1500"
    and n: "n \<le> 96000000" and ms: "list_all (\<lambda>m. length m \<le> n) ms"
    and num: "unat num + length ms \<le> unat HGAP_FIRST_RESERVED"
  shows "list_all (\<lambda>c. sent_chunk W psz (wc_num c) (wc_msg c) (wc_enc c))
    (chunks_from W psz wanted num ms)"
  using ms num
proof (induction ms arbitrary: num)
  case (Cons m ms)
  have "sent_chunk W psz num m (chunk_encoder W psz m)"
    using Cons.prems psz n works_encodes [OF W psz(1), of m]
    by (auto simp: sent_chunk_def word_le_nat_alt word_less_nat_alt HGAP_MAX_PKT_SIZE_def)
  moreover have "unat (num + 1) = unat num + 1"
    using Cons.prems(2) by (simp add: HGAP_FIRST_RESERVED_def unat_word_ariths)
  ultimately show ?case using Cons by simp
qed simp

lemma chunk_sequence_take: "chunk_sequence cs \<Longrightarrow> chunk_sequence (take k cs)"
proof (induction cs arbitrary: k rule: chunk_sequence.induct)
  case (1 c d cs)
  then show ?case
    by (cases k; cases "k - 1") (use "1.IH" [of "k - 1"] in auto)
qed (simp_all add: take_Cons' split: nat.split)

text \<open>The receiver restores the chunks of which enough arrives before the first end packet.\<close>

lemma delivery_stream:
  assumes wh: "wh_works W (psz - 24) n"
    and psz: "24 < unat psz" "unat psz \<le> 1500" and n: "0 < n" "n \<le> 96000000"
    and few: "length (chunks_of n data) \<le> unat HGAP_FIRST_RESERVED"
    and del: "delivery W psz (take k (chunks_from W psz wanted 0 (chunks_of n data))) raws"
  shows "\<exists>pre body fin ds. raws = pre @ body @ [fin] \<and> announces pre \<and> ends fin \<and>
    chunks_stream W psz ds body \<and> list_all (wire_chunk_ok W psz) ds \<and> chunk_sequence ds \<and>
    map wc_msg ds = take k (chunks_of n data)"
proof -
  let ?ms = "chunks_of n data"
  let ?cs = "chunks_from W psz wanted 0 ?ms"
  obtain pre segs fin where raws: "raws = pre @ concat segs @ [fin]"
    and net: "announces pre" "ends fin" "list_all2 (arrives W psz) (take k ?cs) segs"
    using del by (auto simp: delivery_def)
  obtain ds where ds: "chunks_stream W psz ds (concat segs)"
    and same: "list_all2 (\<lambda>c d. wc_num d = wc_num c \<and> wc_msg d = wc_msg c \<and> wc_enc d = wc_enc c \<and>
      recoverable W psz (wc_msg d) (wc_enc d) (wc_ids d)) (take k ?cs) ds"
    using arrives_chunks [OF net(3)] by blast
  have same': "same_chunks (take k ?cs) ds" using same by (auto elim: list_all2_mono)
  have "list_all (\<lambda>m. length m \<le> n) ?ms"
    using chunks_of_bound [OF n(1), of _ data] by (auto simp: list_all_iff)
  then have "list_all (\<lambda>c. sent_chunk W psz (wc_num c) (wc_msg c) (wc_enc c)) ?cs"
    using few by (intro chunks_from_sent [OF wh psz n(2)]) simp_all
  then have "list_all (\<lambda>c. sent_chunk W psz (wc_num c) (wc_msg c) (wc_enc c)) (take k ?cs)"
    by (meson in_set_takeD list_all_iff)
  then have ok: "list_all (wire_chunk_ok W psz) ds" by (rule same_chunks_ok [OF same])
  obtain xs x where xs: "?ms = xs @ [x]" "list_all (\<lambda>m. length m = n) xs"
    using chunks_of_lengths [OF n(1), of data] by blast
  then have "list_all (\<lambda>m. m \<noteq> []) xs" using n(1) by (fastforce simp: list_all_iff)
  then have "chunk_sequence ?cs" unfolding xs(1) by (rule chunks_from_sequence)
  then have "chunk_sequence ds"
    by (rule same_chunks_sequence [OF same' chunk_sequence_take])
  moreover have "map wc_msg ds = take k ?ms"
    by (simp add: same_chunks_msgs [OF same'] chunks_from_msgs flip: take_map)
  ultimately show ?thesis using raws net(1,2) ds ok by blast
qed

lemma delivery_of_first_chunks:
  assumes wh: "wh_block_size W" "wh_sound W" "wh_works W (psz - 24) n"
    and psz: "24 < unat psz" "unat psz \<le> 1500" and n: "0 < n" "n \<le> 96000000"
    and few: "length (chunks_of n data) \<le> unat HGAP_FIRST_RESERVED"
    and del: "delivery W psz (take k (chunks_from W psz wanted 0 (chunks_of n data))) (map fst ps)"
    and mtu: "list_all (\<lambda>p. length (fst p) \<le> unat (relt - 16)) ps"
  shows "run_receiver W relt ps =
    Ret (Retval 0, Retval 0, Retval 0, concat (take k (chunks_of n data)))"
  using delivery_stream [OF wh(3) psz n few del] run_receiver_ok [OF wh(1,2) _ _ _ _ _ _ mtu]
  by metis

lemma length_chunks_from [simp]: "length (chunks_from W psz wanted num ms) = length ms"
  by (induction ms arbitrary: num) simp_all

lemma delivery_restores:
  assumes "wh_block_size W" "wh_sound W" "wh_works W (psz - 24) n"
    and "24 < unat psz" "unat psz \<le> 1500" and "0 < n" "n \<le> 96000000"
    and "length (chunks_of n data) \<le> unat HGAP_FIRST_RESERVED"
    and "delivery W psz (chunks_from W psz wanted 0 (chunks_of n data)) (map fst ps)"
    and "list_all (\<lambda>p. length (fst p) \<le> unat (relt - 16)) ps"
  shows "run_receiver W relt ps = Ret (Retval 0, Retval 0, Retval 0, data)"
  using delivery_of_first_chunks [OF assms(1-8), of "length (chunks_of n data)" wanted ps relt]
    assms(9,10)
  by (simp add: concat_chunks_of)

lemma concat_take_chunks_of: "0 < n \<Longrightarrow> concat (take k (chunks_of n xs)) = take (k * n) xs"
proof (induction k arbitrary: xs)
  case (Suc k)
  show ?case
  proof (cases "length xs < n")
    case True
    then show ?thesis by (subst chunks_of.simps) simp
  next
    case False
    then have "concat (take (Suc k) (chunks_of n xs)) = take n xs @ take (k * n) (drop n xs)"
      using Suc by (subst chunks_of.simps) simp
    also have "\<dots> = take (n + k * n) xs" by (simp only: take_add)
    finally show ?thesis by simp
  qed
qed simp

lemma packet_slot: "unat psz \<le> 1500 \<Longrightarrow> unat (receive_pkt_size psz - 16) = unat psz"
  by (simp add: receive_pkt_size_def)

text \<open>Both sides for an accepted configuration, with the sizes it gives.\<close>

lemma transfer_ok:
  fixes data :: bytes
  assumes cfg: "hgap_check_config_sender resolves ferror cfg = HGAP_SUCCESS"
    and r: "redund cfg = Fin r" "is_double r" "r \<le> 1048576"
    and wh: "wh_block_size W" "wh_works W (pkt_size cfg - 24) (unat (send_buf_size cfg))"
  defines "pieces \<equiv> chunks_of (unat (send_buf_size cfg)) data"
  shows "good_env env hs \<Longrightarrow> hs_wire hs = [] \<Longrightarrow> length slots = length pieces \<Longrightarrow>
      run_sender env W (redund cfg) (pkt_size cfg) (send_elt_size cfg) (Some hs) slots data =
        Ret (Retval 0, Retval 0, Retval 0,
          transfer_wire W (pkt_size cfg) (chunks_from W (pkt_size cfg) (redund cfg) 0 pieces))"
    and "wh_sound W \<Longrightarrow> length pieces \<le> unat HGAP_FIRST_RESERVED \<Longrightarrow> unat psz \<le> 1500 \<Longrightarrow>
      delivery W (pkt_size cfg) (chunks_from W (pkt_size cfg) (redund cfg) 0 pieces) (map fst ps) \<Longrightarrow>
      list_all (\<lambda>p. length (fst p) \<le> unat psz) ps \<Longrightarrow>
      run_receiver W (receive_pkt_size psz) ps = Ret (Retval 0, Retval 0, Retval 0, data)"
proof -
  have psz: "24 < unat (pkt_size cfg)" "unat (pkt_size cfg) \<le> 1500" and r1: "1 \<le> r"
    using cfg r(1) by (simp_all add: sender_config_SUCCESS not_less)
  have w: "wanted_ok (redund cfg)" using r r1 by (simp add: wanted_ok_def)
  note n = send_buf_size_bounds(2,3) [OF cfg]
  have elt: "unat (send_buf_size cfg) = unat (send_elt_size cfg - 16)" by (simp add: send_elt_size_def)
  have n': "unat (send_buf_size cfg) \<le> 96000000" using n(2) by simp
  show "good_env env hs \<Longrightarrow> hs_wire hs = [] \<Longrightarrow> length slots = length pieces \<Longrightarrow>
      run_sender env W (redund cfg) (pkt_size cfg) (send_elt_size cfg) (Some hs) slots data =
        Ret (Retval 0, Retval 0, Retval 0,
          transfer_wire W (pkt_size cfg) (chunks_from W (pkt_size cfg) (redund cfg) 0 pieces))"
    using run_sender_ok [OF wh w psz elt n(1) n'] by (simp add: pieces_def)
  show "wh_sound W \<Longrightarrow> length pieces \<le> unat HGAP_FIRST_RESERVED \<Longrightarrow> unat psz \<le> 1500 \<Longrightarrow>
      delivery W (pkt_size cfg) (chunks_from W (pkt_size cfg) (redund cfg) 0 pieces) (map fst ps) \<Longrightarrow>
      list_all (\<lambda>p. length (fst p) \<le> unat psz) ps \<Longrightarrow>
      run_receiver W (receive_pkt_size psz) ps = Ret (Retval 0, Retval 0, Retval 0, data)"
    using delivery_restores [OF wh(1) _ wh(2) psz n(1) n', of data "redund cfg" ps "receive_pkt_size psz"]
      packet_slot [of psz]
    by (simp add: pieces_def)
qed

text \<open>
  \<open>hgap_receive\<close> for a configuration. When half of the memory limit holds no slot, the network reader
  waits in its first reservation, and the other two threads for what it would send.
\<close>

definition run_receiver_config ::
  "'s wirehair \<Rightarrow> 'f hgap_config \<Rightarrow> (bytes \<times> bytes) list \<Rightarrow>
     (retval \<times> retval \<times> retval \<times> bytes) outcome" where
  "run_receiver_config W cfg ps =
     (if receive_pkt_chan_size (mem_limit cfg) (pkt_size cfg) = 0
      then Ret (Waiting, Waiting, Waiting, [])
      else run_receiver W (receive_pkt_size (pkt_size cfg)) ps)"

lemma chan_has_slots:
  assumes "unat (pkt_size cfg) \<le> 1500" and "2 * (unat (pkt_size cfg) + 16) \<le> unat (mem_limit cfg)"
  shows "receive_pkt_chan_size (mem_limit cfg) (pkt_size cfg) \<noteq> 0"
proof -
  have "unat (receive_pkt_size (pkt_size cfg)) = unat (pkt_size cfg) + 16"
    using assms(1) by (simp add: receive_pkt_size_def unat_word_ariths)
  then have "unat (receive_pkt_chan_size (mem_limit cfg) (pkt_size cfg)) =
      (unat (mem_limit cfg) div 2) div (unat (pkt_size cfg) + 16)"
    by (simp add: receive_pkt_chan_size_def unat_div)
  moreover have "unat (pkt_size cfg) + 16 \<le> unat (mem_limit cfg) div 2" using assms(2) by simp
  ultimately have "0 < unat (receive_pkt_chan_size (mem_limit cfg) (pkt_size cfg))"
    by (simp add: div_greater_zero_iff)
  then show ?thesis by auto
qed

subsection \<open>Properties\<close>

text \<open>C1: a whole transfer, for every configuration the sender accepts with a finite redundancy of at
  most 2^20 and every one of the receiver whose memory limit has room for a packet. The sender's three
  threads end with success and put on the wire the salve of announcements, the packets of every chunk
  of the input, and the salve of end packets. When an announcement arrives, then for each chunk in turn
  enough of its packets to recover it (any others lost, any repeated or reordered within the chunk, mixed
  with keepalives and unknown packets), then an end packet, and no datagram is longer than the
  receiver's packet size, the receiver's three threads end with success and the output is the
  sender's input.\<close>

theorem transfer_restores_the_input:
  fixes cfg :: "'f hgap_config" and rcfg :: "'f hgap_config"
  assumes "hgap_check_config_sender resolves ferror cfg = HGAP_SUCCESS"
    and "redund cfg = Fin r" and "is_double r" and "r \<le> 1048576"
    and "wh_block_size W" and "wh_sound W"
    and "wh_works W (pkt_size cfg - 24) (unat (send_buf_size cfg))"
    and "good_env env hs" and "hs_wire hs = []"
    and "length slots = length (chunks_of (unat (send_buf_size cfg)) data)"
    and "length slots \<le> unat HGAP_FIRST_RESERVED" and "unat (pkt_size rcfg) \<le> 1500"
    and "2 * (unat (pkt_size rcfg) + 16) \<le> unat (mem_limit rcfg)"
  defines "chunks \<equiv> chunks_from W (pkt_size cfg) (redund cfg) 0
    (chunks_of (unat (send_buf_size cfg)) data)"
  shows "run_sender env W (redund cfg) (pkt_size cfg) (send_elt_size cfg) (Some hs) slots data =
      Ret (Retval 0, Retval 0, Retval 0, transfer_wire W (pkt_size cfg) chunks) \<and>
    (delivery W (pkt_size cfg) chunks (map fst ps) \<and>
     list_all (\<lambda>p. length (fst p) \<le> unat (pkt_size rcfg)) ps \<longrightarrow>
      run_receiver_config W rcfg ps = Ret (Retval 0, Retval 0, Retval 0, data))"
  unfolding chunks_def run_receiver_config_def
  using transfer_ok(1) [OF assms(1-5,7-10)] chan_has_slots [OF assms(12,13)]
    transfer_ok(2) [OF assms(1-5,7,6) _ assms(12), of data ps] assms(10,11) by auto

text \<open>C21: nothing tells the receiver how many chunks there are. When every packet of the chunks from
  some point on is lost and an end packet arrives, all three threads end with success, though the
  output stops where the losses began.\<close>

theorem lost_tail_is_reported_as_success:
  assumes "hgap_check_config_sender resolves ferror cfg = HGAP_SUCCESS"
    and "wh_block_size W" and "wh_sound W"
    and "wh_works W (pkt_size cfg - 24) (unat (send_buf_size cfg))"
    and "length (chunks_of (unat (send_buf_size cfg)) data) \<le> unat HGAP_FIRST_RESERVED"
    and "delivery W (pkt_size cfg) (take k (chunks_from W (pkt_size cfg) (redund cfg) 0
      (chunks_of (unat (send_buf_size cfg)) data))) (map fst ps)"
    and "list_all (\<lambda>p. length (fst p) \<le> unat (elt_size - 16)) ps"
  shows "run_receiver W elt_size ps =
    Ret (Retval 0, Retval 0, Retval 0, take (k * unat (send_buf_size cfg)) data)"
proof -
  have psz: "24 < unat (pkt_size cfg)" "unat (pkt_size cfg) \<le> 1500"
    using assms(1) by (simp_all add: sender_config_SUCCESS)
  note n = send_buf_size_bounds(2,3) [OF assms(1)]
  have n': "unat (send_buf_size cfg) \<le> 96000000" using n(2) by simp
  show ?thesis
    using delivery_of_first_chunks [OF assms(2-4) psz n(1) n' assms(5-7)]
    by (simp add: concat_take_chunks_of n(1))
qed

text \<open>Three bytes in two-byte packets; the first two packets arrive, in the wrong order.\<close>

definition example_env :: sender_env where
  "example_env = \<lparr>env_clock = \<lambda>_. \<lparr>tv_sec = 0, tv_usec = 0\<rparr>, env_sendto = \<lambda>_ d. int (length d)\<rparr>"

definition example_sender :: hgap_sender where
  "example_sender = \<lparr>hs_dst = (1, 11011), hs_keepalive = 0,
     hs_lim = hgap_limiter_new \<lparr>tv_sec = 0, tv_usec = 0\<rparr> (Fin 0), hs_cont = False, hs_wire = [],
     hs_calls = 0, hs_reads = 1\<rparr>"

definition example_received :: "bytes list" where
  "example_received =
     [header_bytes hgap_header_begin, header_bytes (chunk_header 26 0 [7, 8, 9] 1) @ [9, 0],
      header_bytes (chunk_header 26 0 [7, 8, 9] 0) @ [7, 8], header_bytes hgap_header_end]"

lemma example_delivery:
  "delivery cyclic 26 (chunks_from cyclic 26 (Fin 2) 0 [[7, 8, 9]]) example_received"
proof -
  let ?E = "Some (CycEnc [7, 8, 9] 2)"
  let ?K = "n_packets (Fin 2) 2 3"
  let ?c = "\<lparr>wc_num = 0, wc_msg = [7, 8, 9], wc_enc = ?E, wc_ids = map of_nat [0..<?K]\<rparr>"
  have "is_double 2" unfolding is_double_def by code_simp
  then have "3 \<le> ?K * 2" using n_packets_bounds(4) [of 2 3 2] by simp
  then have K: "0 \<in> {0..<?K}" "1 \<in> {0..<?K}" by simp_all
  have ids: "set [1, 0 :: u32] \<subseteq> set (wc_ids ?c)"
    using imageI [OF K(1), of "of_nat :: nat \<Rightarrow> u32"] imageI [OF K(2), of "of_nat :: nat \<Rightarrow> u32"]
    by simp
  have "chunk_packet cyclic 26 0 [7, 8, 9] ?E 1 =
      Some (header_bytes (chunk_header 26 0 [7, 8, 9] 1) @ [9, 0])"
    "chunk_packet cyclic 26 0 [7, 8, 9] ?E 0 =
      Some (header_bytes (chunk_header 26 0 [7, 8, 9] 0) @ [7, 8])"
    by code_simp+
  then have stream: "chunk_stream cyclic 26 0 [7, 8, 9] ?E [1, 0]
      [header_bytes (chunk_header 26 0 [7, 8, 9] 1) @ [9, 0],
       header_bytes (chunk_header 26 0 [7, 8, 9] 0) @ [7, 8]]"
    by (intro stream_packet stream_end)
  have "recoverable cyclic 26 [7, 8, 9] ?E [1, 0]"
    by (rule example_recoverable) code_simp+
  with ids stream have "arrives cyclic 26 ?c
      [header_bytes (chunk_header 26 0 [7, 8, 9] 1) @ [9, 0],
       header_bytes (chunk_header 26 0 [7, 8, 9] 0) @ [7, 8]]"
    unfolding arrives_def by (intro exI [of _ "[1, 0]"]) simp
  moreover have "chunks_from cyclic 26 (Fin 2) 0 [[7, 8, 9]] = [?c]"
    by (simp add: chunk_encoder_def cyclic_def chunk_payload_def numeral_3_eq_3)
      (simp add: numeral_2_eq_2)
  moreover have "announces [header_bytes hgap_header_begin]" "ends (header_bytes hgap_header_end)"
    by (simp_all add: announces_def noise_def ends_def raw_type_def)
  ultimately show ?thesis
    unfolding delivery_def example_received_def
    by (intro exI [of _ "[header_bytes hgap_header_begin]"] exI [of _ "header_bytes hgap_header_end"]
        exI [of _ "[[header_bytes (chunk_header 26 0 [7, 8, 9] 1) @ [9, 0],
          header_bytes (chunk_header 26 0 [7, 8, 9] 0) @ [7, 8]]]"]) simp
qed

definition example_config :: "string hgap_config" where
  "example_config = \<lparr>cfg_in = Some ''in'', cfg_out = Some ''out'', n_pkt = 2, pkt_size = 26,
     redund = Fin 2, addr = Some ''10.0.0.2'', port = 11011, byterate = Fin 0, keepalive = 0,
     timeout = 0, mem_limit = 1000000\<rparr>"

theorem transfer_restores_the_input_witness:
  "run_sender example_env cyclic (Fin 2) 26 20 (Some example_sender) [[1, 1, 1, 1]] [7, 8, 9] =
     Ret (Retval 0, Retval 0, Retval 0,
       transfer_wire cyclic 26 (chunks_from cyclic 26 (Fin 2) 0 [[7, 8, 9]])) \<and>
   run_receiver_config cyclic example_config (map (\<lambda>raw. (raw, replicate 26 1)) example_received) =
     Ret (Retval 0, Retval 0, Retval 0, [7, 8, 9])"
proof -
  let ?ps = "map (\<lambda>raw. (raw, replicate 26 (1 :: u8))) example_received"
  have ms: "chunks_of 4 [7, 8, 9 :: u8] = [[7, 8, 9]]" by code_simp
  have cfg: "hgap_check_config_sender (\<lambda>_. True) (\<lambda>_. False) example_config = HGAP_SUCCESS"
    "redund example_config = Fin 2" "pkt_size example_config = 26" "n_pkt example_config = 2"
    "mem_limit example_config = 1000000"
    by (simp_all add: sender_config_SUCCESS example_config_def)
  have d: "is_double 2" unfolding is_double_def by code_simp
  have size: "send_buf_size example_config = 4" "send_elt_size example_config = 20"
    "receive_pkt_size 26 = 42"
    by (simp_all add: send_elt_size_def send_buf_size_def cfg HGAP_HEADER_LEN_def
        receive_pkt_size_def)
  have works: "wh_works cyclic 2 4" by (auto simp: wh_works_def cyclic_def)
  have env: "good_env example_env example_sender" "hs_wire example_sender = []"
    by (simp_all add: good_env_def sends_all_def rate_ok_def example_env_def example_sender_def
        hgap_limiter_new_def)
  have "list_all (\<lambda>p. length (fst p) \<le> 26) ?ps" by (simp add: example_received_def)
  moreover have "map fst ?ps = example_received" by (simp add: comp_def)
  ultimately show ?thesis
    using transfer_restores_the_input [OF cfg(1,2) d _ cyclic_block_size cyclic_sound, of example_env
        example_sender "[[1, 1, 1, 1]]" "[7, 8, 9]" example_config ?ps]
      works env ms example_delivery
    by (simp add: cfg size HGAP_FIRST_RESERVED_def)
qed

theorem lost_tail_is_reported_as_success_witness:
  "run_receiver cyclic 42 (map (\<lambda>raw. (raw, replicate 26 1))
      [header_bytes hgap_header_begin, header_bytes hgap_header_end]) =
    Ret (Retval 0, Retval 0, Retval 0, [])"
proof -
  have cfg: "hgap_check_config_sender (\<lambda>_. True) (\<lambda>_. False) example_config = HGAP_SUCCESS"
    "pkt_size example_config = 26" "n_pkt example_config = 2"
    by (simp_all add: sender_config_SUCCESS example_config_def)
  have size: "send_buf_size example_config = 4"
    by (simp add: send_buf_size_def cfg HGAP_HEADER_LEN_def)
  have ms: "length (chunks_of 4 [7, 8, 9 :: u8]) = 1" by code_simp
  have works: "wh_works cyclic 2 4" by (auto simp: wh_works_def cyclic_def)
  have "announces [header_bytes hgap_header_begin]" "ends (header_bytes hgap_header_end)"
    by (simp_all add: announces_def noise_def ends_def raw_type_def)
  then have "delivery cyclic 26 [] [header_bytes hgap_header_begin, header_bytes hgap_header_end]"
    unfolding delivery_def
    by (intro exI [of _ "[header_bytes hgap_header_begin]"] exI [of _ "[]"]
        exI [of _ "header_bytes hgap_header_end"]) simp
  then show ?thesis
    using lost_tail_is_reported_as_success [OF cfg(1) cyclic_block_size cyclic_sound, of "[7, 8, 9]" 0
        "map (\<lambda>raw. (raw, replicate 26 1)) [header_bytes hgap_header_begin, header_bytes hgap_header_end]" 42]
      works ms
    by (simp add: cfg size HGAP_FIRST_RESERVED_def)
qed

end
