(* ===== verification/Channel.thy ===== *)
theory Channel
  imports Prelude
begin

section \<open>The ring buffer: \<open>src/lib/channel.h\<close>, \<open>src/lib/channel.c\<close>\<close>

text \<open>
  \<open>struct channel\<close> as a record. The memory at \<open>elts\<close> is a list of slots of \<open>elt_size\<close> bytes;
  a slot holds one element of any type. The pointer \<open>channel_get\<close> computes is the number
  of its slot, a null pointer is \<open>None\<close>.

  This theory has the operations as one thread sees them when the other threads are between
  two of their own operations: an operation that would wait on its condition variable is
  \<open>Block\<close>. Theory \<open>Channel_Threads\<close> splits the same operations into their single steps and
  interleaves a producer, a consumer and a poisoning thread.

  The abstract specification is a bounded queue (locale \<open>bounded_fifo\<close>), with
  \<open>channel_items\<close> as abstraction function.
\<close>

subsection \<open>Ring arithmetic\<close>

definition ring_count :: "nat \<Rightarrow> nat \<Rightarrow> nat \<Rightarrow> nat" where
  "ring_count n r w = (if r \<le> w then w - r else w + n - r)"

definition ring_items :: "'a list \<Rightarrow> nat \<Rightarrow> nat \<Rightarrow> nat \<Rightarrow> 'a list" where
  "ring_items xs n r w = map (\<lambda>k. xs ! ((r + k) mod n)) [0..<ring_count n r w]"

lemma length_ring_items [simp]: "length (ring_items xs n r w) = ring_count n r w"
  by (simp add: ring_items_def)

lemma ring_count_less: "r < n \<Longrightarrow> w < n \<Longrightarrow> ring_count n r w < n"
  by (auto simp: ring_count_def)

lemma ring_count_0_iff: "r < n \<Longrightarrow> w < n \<Longrightarrow> ring_count n r w = 0 \<longleftrightarrow> r = w"
  by (auto simp: ring_count_def)

lemma ring_next: "i < n \<Longrightarrow> Suc i mod n = (if Suc i = n then 0 else Suc i)"
  by auto

lemma ring_full_iff: "r < n \<Longrightarrow> w < n \<Longrightarrow> Suc w mod n = r \<longleftrightarrow> Suc (ring_count n r w) = n"
  by (auto simp: ring_next ring_count_def)

lemma ring_pos:
  fixes n :: nat
  shows "r < n \<Longrightarrow> k < n \<Longrightarrow> (r + k) mod n = (if r + k < n then r + k else r + k - n)"
  by (auto simp: le_mod_geq)

lemma ring_pos_count: "r < n \<Longrightarrow> w < n \<Longrightarrow> (r + ring_count n r w) mod n = w"
  by (auto simp: ring_count_def)

lemma ring_pos_neq_w:
  assumes "r < n" "w < n" "k < ring_count n r w"
  shows "(r + k) mod n \<noteq> w"
proof -
  have "k < n" using ring_count_less [OF assms(1,2)] assms(3) by simp
  then show ?thesis
    using assms by (auto simp: ring_pos ring_count_def split: if_splits)
qed

lemma ring_count_send:
  "r < n \<Longrightarrow> w < n \<Longrightarrow> Suc w mod n \<noteq> r \<Longrightarrow>
    ring_count n r (Suc w mod n) = Suc (ring_count n r w)"
  by (auto simp: ring_next ring_count_def)

lemma ring_count_recv:
  "r < n \<Longrightarrow> w < n \<Longrightarrow> r \<noteq> w \<Longrightarrow> ring_count n r w = Suc (ring_count n (Suc r mod n) w)"
  by (auto simp: ring_next ring_count_def)

lemma ring_items_Nil_iff: "r < n \<Longrightarrow> w < n \<Longrightarrow> ring_items xs n r w = [] \<longleftrightarrow> r = w"
  by (metis length_0_conv length_ring_items ring_count_0_iff)

lemma ring_items_write_free:
  assumes "r < n" "w < n"
  shows "ring_items (xs[w := v]) n r w = ring_items xs n r w"
  using assms by (auto simp: ring_items_def intro: nth_list_update_neq dest: ring_pos_neq_w)

lemma ring_items_send:
  assumes "r < n" "w < n" "Suc w mod n \<noteq> r"
  shows "ring_items xs n r (Suc w mod n) = ring_items xs n r w @ [xs ! w]"
  using assms by (simp add: ring_items_def ring_count_send ring_pos_count)

lemma ring_items_recv:
  assumes "r < n" "w < n" "r \<noteq> w"
  shows "ring_items xs n r w = xs ! r # ring_items xs n (Suc r mod n) w"
proof -
  have "(Suc r mod n + k) mod n = (r + Suc k) mod n" for k
    by (simp add: mod_simps)
  then show ?thesis
    using assms ring_count_recv [OF assms]
    by (simp add: ring_items_def upt_conv_Cons map_Suc_upt [symmetric] comp_def del: upt_Suc)
qed

subsection \<open>State\<close>

record 'a channel =
  ch_elt_size :: u64
  ch_capacity :: u64
  ch_poisoned :: bool
  ch_elts :: "'a list"
  ch_wr_idx :: u64
  ch_rd_idx :: u64

datatype 'r attempt = Done 'r | Block

definition channel_next :: "'a channel \<Rightarrow> u64 \<Rightarrow> u64" where
  "channel_next chan idx = (idx + 1) mod ch_capacity chan"

definition channel_get :: "'a channel \<Rightarrow> u64 \<Rightarrow> u64" where
  "channel_get chan idx = idx mod ch_capacity chan"

definition channel_is_full :: "'a channel \<Rightarrow> bool" where
  "channel_is_full chan \<longleftrightarrow>
     ch_rd_idx chan = channel_next chan (ch_wr_idx chan) \<and> \<not> ch_poisoned chan"

definition channel_is_empty :: "'a channel \<Rightarrow> bool" where
  "channel_is_empty chan \<longleftrightarrow> ch_rd_idx chan = ch_wr_idx chan \<and> \<not> ch_poisoned chan"

text \<open>
  \<open>channel_new\<close> allocates \<open>elt_size * (capacity + 1)\<close> bytes in \<open>size_t\<close> arithmetic, which may
  wrap; the number of slots is the number of elements these bytes hold. \<open>junk\<close> is the
  uninitialised content.
\<close>

definition channel_new :: "'a \<Rightarrow> u64 \<Rightarrow> u64 \<Rightarrow> 'a channel" where
  "channel_new junk elt_size capacity =
     (let cap = capacity + 1
      in \<lparr>ch_elt_size = elt_size, ch_capacity = cap, ch_poisoned = False,
          ch_elts = replicate (unat (elt_size * cap) div unat elt_size) junk,
          ch_wr_idx = 0, ch_rd_idx = 0\<rparr>)"

definition channel_elt_size :: "'a channel \<Rightarrow> u64" where
  "channel_elt_size chan = ch_elt_size chan"

definition channel_poison :: "'a channel \<Rightarrow> 'a channel" where
  "channel_poison chan = chan\<lparr>ch_poisoned := True\<rparr>"

subsection \<open>Producer side\<close>

definition channel_reserve :: "'a channel \<Rightarrow> u64 option attempt" where
  "channel_reserve chan =
     (if ch_poisoned chan then Done None
      else if channel_is_full chan then Block
      else Done (Some (channel_get chan (ch_wr_idx chan))))"

definition channel_send_reserved :: "'a channel \<Rightarrow> u64 option \<Rightarrow> bool \<times> 'a channel" where
  "channel_send_reserved chan data =
     (if ch_poisoned chan then (False, chan)
      else if data = None \<or> data \<noteq> Some (channel_get chan (ch_wr_idx chan)) then (False, chan)
      else (True, chan\<lparr>ch_wr_idx := channel_next chan (ch_wr_idx chan)\<rparr>))"

text \<open>The caller's store through a pointer into the ring.\<close>

definition slot_write :: "'a channel \<Rightarrow> u64 \<Rightarrow> 'a \<Rightarrow> 'a channel" where
  "slot_write chan slot v = chan\<lparr>ch_elts := (ch_elts chan)[unat slot := v]\<rparr>"

definition channel_send :: "'a channel \<Rightarrow> 'a \<Rightarrow> (bool \<times> 'a channel) attempt" where
  "channel_send chan v =
     (case channel_reserve chan of
        Block \<Rightarrow> Block
      | Done None \<Rightarrow> Done (False, chan)
      | Done (Some dst) \<Rightarrow> Done (channel_send_reserved (slot_write chan dst v) (Some dst)))"

subsection \<open>Consumer side\<close>

definition channel_peek :: "'a channel \<Rightarrow> u64 option attempt" where
  "channel_peek chan =
     (if ch_poisoned chan then Done None
      else if channel_is_empty chan then Block
      else Done (Some (channel_get chan (ch_rd_idx chan))))"

definition channel_ack :: "'a channel \<Rightarrow> u64 option \<Rightarrow> bool \<times> 'a channel" where
  "channel_ack chan data =
     (if ch_poisoned chan then (False, chan)
      else if data = None \<or> data \<noteq> Some (channel_get chan (ch_rd_idx chan)) then (False, chan)
      else (True, chan\<lparr>ch_rd_idx := channel_next chan (ch_rd_idx chan)\<rparr>))"

text \<open>
  \<open>channel_recv\<close> copies the element out and acknowledges it; the copy is made whether or not the
  acknowledgement succeeds, so the result carries both.
\<close>

definition channel_recv :: "'a channel \<Rightarrow> (bool \<times> 'a option \<times> 'a channel) attempt" where
  "channel_recv chan =
     (case channel_peek chan of
        Block \<Rightarrow> Block
      | Done None \<Rightarrow> Done (False, None, chan)
      | Done (Some src) \<Rightarrow>
          let (ok, chan') = channel_ack chan (Some src)
          in Done (ok, Some (ch_elts chan ! unat src), chan'))"

subsection \<open>Invariant and abstraction\<close>

definition channel_ok :: "'a channel \<Rightarrow> bool" where
  "channel_ok chan \<longleftrightarrow>
     0 < unat (ch_capacity chan) \<and>
     length (ch_elts chan) = unat (ch_capacity chan) \<and>
     unat (ch_wr_idx chan) < unat (ch_capacity chan) \<and>
     unat (ch_rd_idx chan) < unat (ch_capacity chan)"

definition channel_items :: "'a channel \<Rightarrow> 'a list" where
  "channel_items chan =
     ring_items (ch_elts chan) (unat (ch_capacity chan))
       (unat (ch_rd_idx chan)) (unat (ch_wr_idx chan))"

definition channel_bound :: "'a channel \<Rightarrow> nat" where
  "channel_bound chan = unat (ch_capacity chan) - 1"

lemma unat_channel_next:
  assumes "unat idx < unat (ch_capacity chan)"
  shows "unat (channel_next chan idx) = Suc (unat idx) mod unat (ch_capacity chan)"
proof -
  have "unat (ch_capacity chan) < 2 ^ LENGTH(64)" by (rule unsigned_less)
  then have "unat (idx + 1) = Suc (unat idx)"
    using assms by (simp add: unat_word_ariths)
  then show ?thesis by (simp add: channel_next_def unat_mod)
qed

lemma channel_get_idx:
  "unat idx < unat (ch_capacity chan) \<Longrightarrow> channel_get chan idx = idx"
  by (simp add: channel_get_def word_unat_eq_iff unat_mod)

lemma channel_get_wr [simp]: "channel_ok chan \<Longrightarrow> channel_get chan (ch_wr_idx chan) = ch_wr_idx chan"
  and channel_get_rd [simp]: "channel_ok chan \<Longrightarrow> channel_get chan (ch_rd_idx chan) = ch_rd_idx chan"
  by (simp_all add: channel_ok_def channel_get_idx)

lemma channel_items_bound: "channel_ok chan \<Longrightarrow> length (channel_items chan) \<le> channel_bound chan"
  using ring_count_less [of "unat (ch_rd_idx chan)" "unat (ch_capacity chan)" "unat (ch_wr_idx chan)"]
  by (simp add: channel_ok_def channel_items_def channel_bound_def)

lemma channel_is_full_iff:
  assumes "channel_ok chan" "\<not> ch_poisoned chan"
  shows "channel_is_full chan \<longleftrightarrow> length (channel_items chan) = channel_bound chan"
proof -
  let ?n = "unat (ch_capacity chan)"
  have b: "0 < ?n" "unat (ch_wr_idx chan) < ?n" "unat (ch_rd_idx chan) < ?n"
    using assms(1) by (auto simp: channel_ok_def)
  have "channel_is_full chan \<longleftrightarrow> Suc (unat (ch_wr_idx chan)) mod ?n = unat (ch_rd_idx chan)"
    using assms(2) b by (auto simp: channel_is_full_def word_unat_eq_iff unat_channel_next)
  also have "\<dots> \<longleftrightarrow> Suc (length (channel_items chan)) = ?n"
    using ring_full_iff [OF b(3,2)] by (simp add: channel_items_def)
  finally show ?thesis using b(1) by (auto simp: channel_bound_def)
qed

lemma channel_is_empty_iff:
  assumes "channel_ok chan" "\<not> ch_poisoned chan"
  shows "channel_is_empty chan \<longleftrightarrow> channel_items chan = []"
  using assms
  by (auto simp: channel_is_empty_def channel_items_def channel_ok_def word_unat_eq_iff
      ring_items_Nil_iff)

lemma channel_ok_new:
  assumes "0 < unat elt_size" and "unat elt_size * Suc (unat capacity) < 2 ^ 64"
  shows "channel_ok (channel_new junk elt_size capacity)"
    and "channel_items (channel_new junk elt_size capacity) = []"
    and "channel_bound (channel_new junk elt_size capacity) = unat capacity"
proof -
  have "1 * Suc (unat capacity) \<le> unat elt_size * Suc (unat capacity)"
    using assms(1) by (intro mult_le_mono1) simp
  then have cap: "unat (capacity + 1) = Suc (unat capacity)"
    using assms(2) by (simp add: unat_word_ariths)
  have sz: "unat (elt_size * (capacity + 1)) = unat elt_size * Suc (unat capacity)"
    using assms(2) by (simp add: unat_word_ariths(2) cap)
  show "channel_ok (channel_new junk elt_size capacity)"
    using assms(1) by (simp add: channel_ok_def channel_new_def Let_def cap sz)
  show "channel_items (channel_new junk elt_size capacity) = []"
    by (simp add: channel_items_def channel_new_def Let_def ring_items_def ring_count_def)
  show "channel_bound (channel_new junk elt_size capacity) = unat capacity"
    by (simp add: channel_bound_def channel_new_def Let_def cap)
qed

subsection \<open>The operations on the abstract queue\<close>

lemma channel_poison_ok [simp]: "channel_ok (channel_poison chan) = channel_ok chan"
  by (simp add: channel_ok_def channel_poison_def)

lemma slot_write_fields [simp]:
  "ch_capacity (slot_write chan k v) = ch_capacity chan"
  "ch_poisoned (slot_write chan k v) = ch_poisoned chan"
  "ch_wr_idx (slot_write chan k v) = ch_wr_idx chan"
  "ch_rd_idx (slot_write chan k v) = ch_rd_idx chan"
  "ch_elt_size (slot_write chan k v) = ch_elt_size chan"
  by (simp_all add: slot_write_def)

lemma slot_write_ok [simp]: "channel_ok (slot_write chan k v) = channel_ok chan"
  by (simp add: channel_ok_def slot_write_def)

text \<open>Writing into the reserved slot is invisible to the reader until it is sent.\<close>

lemma slot_write_reserved:
  assumes "channel_ok chan"
  shows "channel_items (slot_write chan (ch_wr_idx chan) v) = channel_items chan"
  using assms by (simp add: channel_items_def slot_write_def channel_ok_def ring_items_write_free)

lemma channel_reserve_room:
  assumes "channel_ok chan" "\<not> ch_poisoned chan"
    and "length (channel_items chan) < channel_bound chan"
  shows "channel_reserve chan = Done (Some (ch_wr_idx chan))"
  using assms channel_is_full_iff [OF assms(1,2)] by (simp add: channel_reserve_def)

text \<open>
  Publishing the reserved slot and recycling the read one, whether or not the channel is
  poisoned: the two index updates of the code.
\<close>

definition advance_wr :: "'a channel \<Rightarrow> 'a channel" where
  "advance_wr chan = chan\<lparr>ch_wr_idx := channel_next chan (ch_wr_idx chan)\<rparr>"

definition advance_rd :: "'a channel \<Rightarrow> 'a channel" where
  "advance_rd chan = chan\<lparr>ch_rd_idx := channel_next chan (ch_rd_idx chan)\<rparr>"

lemma advance_fields [simp]:
  "ch_poisoned (advance_wr chan) = ch_poisoned chan"
  "ch_elts (advance_wr chan) = ch_elts chan"
  "ch_rd_idx (advance_wr chan) = ch_rd_idx chan"
  "channel_bound (advance_wr chan) = channel_bound chan"
  "ch_poisoned (advance_rd chan) = ch_poisoned chan"
  "ch_elts (advance_rd chan) = ch_elts chan"
  "ch_wr_idx (advance_rd chan) = ch_wr_idx chan"
  "channel_bound (advance_rd chan) = channel_bound chan"
  "ch_elt_size (advance_wr chan) = ch_elt_size chan"
  "ch_elt_size (advance_rd chan) = ch_elt_size chan"
  by (simp_all add: advance_wr_def advance_rd_def channel_bound_def)

lemma advance_ok [simp]:
  assumes "channel_ok chan"
  shows "channel_ok (advance_wr chan)" "channel_ok (advance_rd chan)"
  using assms by (auto simp: channel_ok_def advance_wr_def advance_rd_def unat_channel_next)

lemma advance_wr_items:
  assumes ok: "channel_ok chan" and room: "length (channel_items chan) < channel_bound chan"
  shows "channel_items (advance_wr chan) = channel_items chan @ [ch_elts chan ! unat (ch_wr_idx chan)]"
proof -
  let ?n = "unat (ch_capacity chan)"
  have b: "unat (ch_wr_idx chan) < ?n" "unat (ch_rd_idx chan) < ?n"
    using ok by (auto simp: channel_ok_def)
  have "Suc (unat (ch_wr_idx chan)) mod ?n \<noteq> unat (ch_rd_idx chan)"
    using ring_full_iff [OF b(2,1)] room by (auto simp: channel_items_def channel_bound_def)
  then show ?thesis
    using ring_items_send [OF b(2,1)]
    by (simp add: advance_wr_def channel_items_def unat_channel_next b)
qed

lemma advance_rd_items:
  assumes ok: "channel_ok chan" and ne: "channel_items chan \<noteq> []"
  shows "channel_items chan = ch_elts chan ! unat (ch_rd_idx chan) # channel_items (advance_rd chan)"
proof -
  let ?n = "unat (ch_capacity chan)"
  have b: "unat (ch_wr_idx chan) < ?n" "unat (ch_rd_idx chan) < ?n"
    using ok by (auto simp: channel_ok_def)
  have "unat (ch_rd_idx chan) \<noteq> unat (ch_wr_idx chan)"
    using ne ring_items_Nil_iff [OF b(2,1)] by (metis channel_items_def)
  from ring_items_recv [OF b(2,1) this, of "ch_elts chan"] show ?thesis
    by (simp add: advance_rd_def channel_items_def unat_channel_next b)
qed

lemma send_reserved_eq:
  assumes "channel_ok chan" "\<not> ch_poisoned chan"
  shows "channel_send_reserved chan (Some (ch_wr_idx chan)) = (True, advance_wr chan)"
  using assms by (simp add: channel_send_reserved_def advance_wr_def)

lemma ack_eq:
  assumes "channel_ok chan" "\<not> ch_poisoned chan"
  shows "channel_ack chan (Some (ch_rd_idx chan)) = (True, advance_rd chan)"
  using assms by (simp add: channel_ack_def advance_rd_def)

lemma channel_send_room:
  assumes "channel_ok chan" "\<not> ch_poisoned chan"
    and "length (channel_items chan) < channel_bound chan"
  shows "\<exists>chan'. channel_send chan v = Done (True, chan') \<and> channel_ok chan' \<and>
    \<not> ch_poisoned chan' \<and> channel_items chan' = channel_items chan @ [v] \<and>
    channel_bound chan' = channel_bound chan"
proof -
  define w where "w = slot_write chan (ch_wr_idx chan) v"
  have w: "channel_ok w" "\<not> ch_poisoned w" "ch_wr_idx w = ch_wr_idx chan"
    "channel_items w = channel_items chan" "channel_bound w = channel_bound chan"
    using assms slot_write_reserved by (auto simp: w_def channel_bound_def)
  have "unat (ch_wr_idx chan) < length (ch_elts chan)"
    using assms(1) by (simp add: channel_ok_def)
  then have "ch_elts w ! unat (ch_wr_idx chan) = v"
    by (simp add: w_def slot_write_def)
  moreover have "channel_send chan v = Done (True, advance_wr w)"
    using channel_reserve_room [OF assms] send_reserved_eq [OF w(1,2)] w(3)
    by (simp add: channel_send_def w_def)
  ultimately show ?thesis
    using advance_wr_items [of w] w assms(3) by auto
qed

lemma channel_send_full:
  assumes "channel_ok chan" "\<not> ch_poisoned chan"
    and "length (channel_items chan) = channel_bound chan"
  shows "channel_send chan v = Block"
  using assms channel_is_full_iff [OF assms(1,2)]
  by (simp add: channel_send_def channel_reserve_def)

lemma channel_recv_item:
  assumes "channel_ok chan" "\<not> ch_poisoned chan" and "channel_items chan = v # vs"
  shows "\<exists>chan'. channel_recv chan = Done (True, Some v, chan') \<and> channel_ok chan' \<and>
    \<not> ch_poisoned chan' \<and> channel_items chan' = vs \<and> channel_bound chan' = channel_bound chan"
proof -
  have "channel_peek chan = Done (Some (ch_rd_idx chan))"
    using assms channel_is_empty_iff [OF assms(1,2)] by (simp add: channel_peek_def)
  then show ?thesis
    using advance_rd_items [OF assms(1)] ack_eq [OF assms(1,2)] assms by (simp add: channel_recv_def)
qed

lemma channel_recv_empty:
  assumes "channel_ok chan" "\<not> ch_poisoned chan" and "channel_items chan = []"
  shows "channel_recv chan = Block"
  using assms channel_is_empty_iff [OF assms(1,2)]
  by (simp add: channel_recv_def channel_peek_def)

text \<open>The single operations as functions of the queue.\<close>

lemma channel_reserve_eq:
  assumes "channel_ok chan" "\<not> ch_poisoned chan"
  shows "channel_reserve chan =
    (if length (channel_items chan) < channel_bound chan then Done (Some (ch_wr_idx chan)) else Block)"
  using channel_items_bound [OF assms(1)] channel_is_full_iff [OF assms] assms
  by (auto simp: channel_reserve_def)

lemma channel_peek_eq:
  assumes "channel_ok chan" "\<not> ch_poisoned chan"
  shows "channel_peek chan =
    (if channel_items chan = [] then Block else Done (Some (ch_rd_idx chan)))"
  using channel_is_empty_iff [OF assms] assms by (simp add: channel_peek_def)

lemma channel_read_item:
  assumes "channel_ok chan" "channel_items chan = v # vs"
  shows "ch_elts chan ! unat (ch_rd_idx chan) = v" "channel_items (advance_rd chan) = vs"
  using advance_rd_items [OF assms(1)] assms(2) by auto

lemma slot_write_nth:
  "channel_ok chan \<Longrightarrow> ch_elts (slot_write chan (ch_wr_idx chan) v) ! unat (ch_wr_idx chan) = v"
  by (simp add: channel_ok_def slot_write_def)

lemma slot_write_bound [simp]: "channel_bound (slot_write chan k v) = channel_bound chan"
  by (simp add: channel_bound_def)

subsection \<open>Poisoned channels\<close>

lemma poisoned_ops:
  assumes "ch_poisoned chan"
  shows "channel_reserve chan = Done None" "channel_peek chan = Done None"
    "channel_send_reserved chan d = (False, chan)" "channel_ack chan d = (False, chan)"
    "channel_send chan v = Done (False, chan)" "channel_recv chan = Done (False, None, chan)"
  using assms
  by (simp_all add: channel_reserve_def channel_peek_def channel_send_reserved_def
      channel_ack_def channel_send_def channel_recv_def)

subsection \<open>The contract: a bounded first-in first-out queue\<close>

text \<open>
  A schedule of one producer and one consumer: each entry is one attempt of one of them; a
  blocked attempt has no effect. \<open>run_ops\<close> collects what was sent and what was received.
\<close>

datatype 'a chan_op = Send 'a | Recv

fun run_ops :: "('c \<Rightarrow> 'a \<Rightarrow> (bool \<times> 'c) attempt) \<Rightarrow> ('c \<Rightarrow> (bool \<times> 'a option \<times> 'c) attempt) \<Rightarrow>
    'a chan_op list \<Rightarrow> 'c \<Rightarrow> 'a list \<times> 'a list \<times> 'c" where
  "run_ops snd_op rcv_op [] c = ([], [], c)"
| "run_ops snd_op rcv_op (Send v # ops) c =
     (case snd_op c v of
        Done (True, c') \<Rightarrow> (case run_ops snd_op rcv_op ops c' of (s, r, d) \<Rightarrow> (v # s, r, d))
      | _ \<Rightarrow> run_ops snd_op rcv_op ops c)"
| "run_ops snd_op rcv_op (Recv # ops) c =
     (case rcv_op c of
        Done (True, Some v, c') \<Rightarrow>
          (case run_ops snd_op rcv_op ops c' of (s, r, d) \<Rightarrow> (s, v # r, d))
      | _ \<Rightarrow> run_ops snd_op rcv_op ops c)"

locale bounded_fifo =
  fixes ok :: "'c \<Rightarrow> bool"
    and items :: "'c \<Rightarrow> 'a list"
    and bound :: "'c \<Rightarrow> nat"
    and send :: "'c \<Rightarrow> 'a \<Rightarrow> (bool \<times> 'c) attempt"
    and recv :: "'c \<Rightarrow> (bool \<times> 'a option \<times> 'c) attempt"
  assumes items_bound: "ok c \<Longrightarrow> length (items c) \<le> bound c"
    and send_full: "ok c \<Longrightarrow> length (items c) = bound c \<Longrightarrow> send c v = Block"
    and send_room: "ok c \<Longrightarrow> length (items c) < bound c \<Longrightarrow>
      \<exists>c'. send c v = Done (True, c') \<and> ok c' \<and> items c' = items c @ [v] \<and> bound c' = bound c"
    and recv_empty: "ok c \<Longrightarrow> items c = [] \<Longrightarrow> recv c = Block"
    and recv_item: "ok c \<Longrightarrow> items c = v # vs \<Longrightarrow>
      \<exists>c'. recv c = Done (True, Some v, c') \<and> ok c' \<and> items c' = vs \<and> bound c' = bound c"
begin

lemma send_cases:
  assumes "ok c"
  obtains (full) "length (items c) = bound c" "send c v = Block"
  | (room) c' where "send c v = Done (True, c')" "ok c'" "items c' = items c @ [v]"
      "bound c' = bound c"
  using items_bound [OF assms] send_full [OF assms] send_room [OF assms] by (metis le_neq_implies_less)

lemma recv_cases:
  assumes "ok c"
  obtains (empty) "items c = []" "recv c = Block"
  | (item) v c' where "recv c = Done (True, Some v, c')" "ok c'" "items c = v # items c'"
      "bound c' = bound c"
proof (cases "items c")
  case Nil
  then show ?thesis using recv_empty [OF assms] that(1) by blast
next
  case (Cons v vs)
  then show ?thesis using recv_item [OF assms Cons] that(2) by blast
qed

text \<open>What was received, followed by what is still queued, is what was sent, in order.\<close>

lemma run_fifo:
  "ok c \<Longrightarrow> run_ops send recv ops c = (s, r, d) \<Longrightarrow>
    ok d \<and> bound d = bound c \<and> r @ items d = items c @ s"
proof (induction ops arbitrary: c s r d)
  case Nil
  then show ?case by simp
next
  case (Cons oper ops)
  show ?case
  proof (cases oper)
    case (Send v)
    from Cons.prems(1) show ?thesis
    proof (cases rule: send_cases [where v = v])
      case full
      then show ?thesis using Cons.IH [OF Cons.prems(1)] Cons.prems(2) Send by simp
    next
      case (room c')
      obtain s' r' d' where run: "run_ops send recv ops c' = (s', r', d')"
        by (cases "run_ops send recv ops c'") auto
      then show ?thesis
        using Cons.IH [OF room(2) run] Cons.prems(2) Send room by auto
    qed
  next
    case Recv
    from Cons.prems(1) show ?thesis
    proof (cases rule: recv_cases)
      case empty
      then show ?thesis using Cons.IH [OF Cons.prems(1)] Cons.prems(2) Recv by simp
    next
      case (item v c')
      obtain s' r' d' where run: "run_ops send recv ops c' = (s', r', d')"
        by (cases "run_ops send recv ops c'") auto
      then show ?thesis
        using Cons.IH [OF item(2) run] Cons.prems(2) Recv item by auto
    qed
  qed
qed

lemma not_both_blocked: "ok c \<Longrightarrow> 0 < bound c \<Longrightarrow> send c v \<noteq> Block \<or> recv c \<noteq> Block"
  by (metis attempt.distinct(1) gr_implies_not0 items_bound length_0_conv list.exhaust
      nat_less_le recv_item send_room)

text \<open>A producer and a consumer that take turns transfer everything.\<close>

lemma run_turns:
  assumes "ok c" "items c = []" "0 < bound c"
  shows "\<exists>d. run_ops send recv (concat (map (\<lambda>v. [Send v, Recv]) vs)) c = (vs, vs, d)"
  using assms
proof (induction vs arbitrary: c)
  case Nil
  then show ?case by simp
next
  case (Cons v vs)
  obtain c1 where c1: "send c v = Done (True, c1)" "ok c1" "items c1 = [v]" "bound c1 = bound c"
    using send_room [OF Cons.prems(1), of v] Cons.prems by auto
  obtain c2 where c2: "recv c1 = Done (True, Some v, c2)" "ok c2" "items c2 = []" "bound c2 = bound c1"
    using recv_item [OF c1(2,3)] by blast
  obtain d where "run_ops send recv (concat (map (\<lambda>v. [Send v, Recv]) vs)) c2 = (vs, vs, d)"
    using Cons.IH [of c2] c1 c2 Cons.prems(3) by auto
  then show ?case using c1 c2 by simp
qed

end

definition channel_live :: "'a channel \<Rightarrow> bool" where
  "channel_live chan \<longleftrightarrow> channel_ok chan \<and> \<not> ch_poisoned chan"

interpretation chan: bounded_fifo channel_live channel_items channel_bound channel_send channel_recv
proof
  fix c :: "'a channel" and v :: 'a and vs :: "'a list"
  assume "channel_live c"
  then have ok: "channel_ok c" "\<not> ch_poisoned c" by (auto simp: channel_live_def)
  show "length (channel_items c) \<le> channel_bound c"
    using ok by (simp add: channel_items_bound)
  show "length (channel_items c) = channel_bound c \<Longrightarrow> channel_send c v = Block"
    using ok by (rule channel_send_full)
  show "length (channel_items c) < channel_bound c \<Longrightarrow> \<exists>c'. channel_send c v = Done (True, c') \<and>
      channel_live c' \<and> channel_items c' = channel_items c @ [v] \<and> channel_bound c' = channel_bound c"
    using channel_send_room [OF ok] by (auto simp: channel_live_def)
  show "channel_items c = [] \<Longrightarrow> channel_recv c = Block"
    using ok by (rule channel_recv_empty)
  show "channel_items c = v # vs \<Longrightarrow> \<exists>c'. channel_recv c = Done (True, Some v, c') \<and>
      channel_live c' \<and> channel_items c' = vs \<and> channel_bound c' = channel_bound c"
    using channel_recv_item [OF ok] by (auto simp: channel_live_def)
qed

lemma channel_live_new:
  "0 < unat elt_size \<Longrightarrow> unat elt_size * Suc (unat capacity) < 2 ^ 64 \<Longrightarrow>
    channel_live (channel_new junk elt_size capacity)"
  using channel_ok_new(1) [of elt_size capacity junk]
  by (simp add: channel_live_def channel_new_def Let_def)

subsection \<open>The refinement of all operations\<close>

text \<open>The refinement of the channel by a bounded queue, for every operation of the interface. A
  client holds at most one pointer of each side: the one \<open>channel_reserve\<close> returned, through which it
  stores an element, and the one \<open>channel_peek\<close> returned, through which it reads one. It forgets
  a pointer when it has given it back, or when it calls the copying variant of its side.\<close>

datatype 'a chan_call =
  Call_Send 'a | Call_Reserve 'a | Call_Send_Reserved
| Call_Recv | Call_Peek | Call_Read | Call_Ack | Call_Poison

datatype 'a chan_result =
  Blocks | Returns bool | Pointer bool | Received bool "'a option" | Element "'a option" | No_Result

record 'a chan_client =
  cl_chan :: "'a channel"
  cl_slot :: "u64 option"
  cl_item :: "u64 option"

fun client_call :: "'a chan_call \<Rightarrow> 'a chan_client \<Rightarrow> 'a chan_result \<times> 'a chan_client" where
  "client_call (Call_Send v) c =
     (case channel_send (cl_chan c) v of
        Block \<Rightarrow> (Blocks, c)
      | Done (ok, chan) \<Rightarrow> (Returns ok, c\<lparr>cl_chan := chan, cl_slot := None\<rparr>))"
| "client_call (Call_Reserve v) c =
     (case channel_reserve (cl_chan c) of
        Block \<Rightarrow> (Blocks, c)
      | Done None \<Rightarrow> (Pointer False, c\<lparr>cl_slot := None\<rparr>)
      | Done (Some dst) \<Rightarrow>
          (Pointer True, c\<lparr>cl_chan := slot_write (cl_chan c) dst v, cl_slot := Some dst\<rparr>))"
| "client_call Call_Send_Reserved c =
     (let (ok, chan) = channel_send_reserved (cl_chan c) (cl_slot c)
      in (Returns ok, c\<lparr>cl_chan := chan, cl_slot := None\<rparr>))"
| "client_call Call_Recv c =
     (case channel_recv (cl_chan c) of
        Block \<Rightarrow> (Blocks, c)
      | Done (ok, v, chan) \<Rightarrow> (Received ok v, c\<lparr>cl_chan := chan, cl_item := None\<rparr>))"
| "client_call Call_Peek c =
     (case channel_peek (cl_chan c) of
        Block \<Rightarrow> (Blocks, c)
      | Done src \<Rightarrow> (Pointer (src \<noteq> None), c\<lparr>cl_item := src\<rparr>))"
| "client_call Call_Read c =
     (Element (map_option (\<lambda>src. ch_elts (cl_chan c) ! unat src) (cl_item c)), c)"
| "client_call Call_Ack c =
     (let (ok, chan) = channel_ack (cl_chan c) (cl_item c)
      in (Returns ok, c\<lparr>cl_chan := chan, cl_item := None\<rparr>))"
| "client_call Call_Poison c = (No_Result, c\<lparr>cl_chan := channel_poison (cl_chan c)\<rparr>)"

text \<open>The specification: a queue of at most \<open>bq_bound\<close> elements, an element that is stored but not
  yet sent, and whether the consumer holds the first element.\<close>

record 'a bqueue =
  bq_items :: "'a list"
  bq_bound :: nat
  bq_poisoned :: bool
  bq_stored :: "'a option"
  bq_held :: bool

fun queue_call :: "'a chan_call \<Rightarrow> 'a bqueue \<Rightarrow> 'a chan_result \<times> 'a bqueue" where
  "queue_call (Call_Send v) q =
     (if bq_poisoned q then (Returns False, q\<lparr>bq_stored := None\<rparr>)
      else if length (bq_items q) < bq_bound q
      then (Returns True, q\<lparr>bq_items := bq_items q @ [v], bq_stored := None\<rparr>)
      else (Blocks, q))"
| "queue_call (Call_Reserve v) q =
     (if bq_poisoned q then (Pointer False, q\<lparr>bq_stored := None\<rparr>)
      else if length (bq_items q) < bq_bound q then (Pointer True, q\<lparr>bq_stored := Some v\<rparr>)
      else (Blocks, q))"
| "queue_call Call_Send_Reserved q =
     (if bq_poisoned q then (Returns False, q\<lparr>bq_stored := None\<rparr>)
      else case bq_stored q of
        None \<Rightarrow> (Returns False, q)
      | Some v \<Rightarrow> (Returns True, q\<lparr>bq_items := bq_items q @ [v], bq_stored := None\<rparr>))"
| "queue_call Call_Recv q =
     (if bq_poisoned q then (Received False None, q\<lparr>bq_held := False\<rparr>)
      else case bq_items q of
        [] \<Rightarrow> (Blocks, q)
      | v # vs \<Rightarrow> (Received True (Some v), q\<lparr>bq_items := vs, bq_held := False\<rparr>))"
| "queue_call Call_Peek q =
     (if bq_poisoned q then (Pointer False, q\<lparr>bq_held := False\<rparr>)
      else if bq_items q = [] then (Blocks, q)
      else (Pointer True, q\<lparr>bq_held := True\<rparr>))"
| "queue_call Call_Read q = (Element (if bq_held q then Some (hd (bq_items q)) else None), q)"
| "queue_call Call_Ack q =
     (if bq_held q \<and> \<not> bq_poisoned q
      then (Returns True, q\<lparr>bq_items := tl (bq_items q), bq_held := False\<rparr>)
      else (Returns False, q\<lparr>bq_held := False\<rparr>))"
| "queue_call Call_Poison q = (No_Result, q\<lparr>bq_poisoned := True\<rparr>)"

fun run_calls :: "('k \<Rightarrow> 's \<Rightarrow> 'r \<times> 's) \<Rightarrow> 'k list \<Rightarrow> 's \<Rightarrow> 'r list \<times> 's" where
  "run_calls call [] s = ([], s)"
| "run_calls call (k # ks) s =
     (let (r, s') = call k s; (rs, t) = run_calls call ks s' in (r # rs, t))"

definition new_client :: "'a channel \<Rightarrow> 'a chan_client" where
  "new_client chan = \<lparr>cl_chan = chan, cl_slot = None, cl_item = None\<rparr>"

definition empty_queue :: "nat \<Rightarrow> 'a bqueue" where
  "empty_queue n = \<lparr>bq_items = [], bq_bound = n, bq_poisoned = False, bq_stored = None,
     bq_held = False\<rparr>"

definition queue_of :: "'a chan_client \<Rightarrow> 'a bqueue" where
  "queue_of c = \<lparr>bq_items = channel_items (cl_chan c), bq_bound = channel_bound (cl_chan c),
     bq_poisoned = ch_poisoned (cl_chan c),
     bq_stored = map_option (\<lambda>dst. ch_elts (cl_chan c) ! unat dst) (cl_slot c),
     bq_held = (cl_item c \<noteq> None)\<rparr>"

text \<open>The pointers a client holds are the current slots of the channel: the free one the producer
  fills, as long as there is room, and the one of the first element.\<close>

definition client_ok :: "'a chan_client \<Rightarrow> bool" where
  "client_ok c \<longleftrightarrow> channel_ok (cl_chan c) \<and>
     (\<forall>dst. cl_slot c = Some dst \<longrightarrow> dst = ch_wr_idx (cl_chan c) \<and>
        length (channel_items (cl_chan c)) < channel_bound (cl_chan c)) \<and>
     (\<forall>src. cl_item c = Some src \<longrightarrow> src = ch_rd_idx (cl_chan c) \<and>
        channel_items (cl_chan c) \<noteq> [])"

lemma channel_poison_fields [simp]:
  "channel_items (channel_poison chan) = channel_items chan"
  "channel_bound (channel_poison chan) = channel_bound chan"
  "ch_poisoned (channel_poison chan)" "ch_elts (channel_poison chan) = ch_elts chan"
  "ch_wr_idx (channel_poison chan) = ch_wr_idx chan"
  "ch_rd_idx (channel_poison chan) = ch_rd_idx chan"
  by (simp_all add: channel_poison_def channel_items_def channel_bound_def)

lemma channel_send_eq:
  assumes "channel_ok chan" "\<not> ch_poisoned chan"
  shows "channel_send chan v =
    (if length (channel_items chan) < channel_bound chan
     then Done (True, advance_wr (slot_write chan (ch_wr_idx chan) v)) else Block)"
  using assms send_reserved_eq [of "slot_write chan (ch_wr_idx chan) v"]
  by (simp add: channel_send_def channel_reserve_eq)

lemma channel_recv_eq:
  assumes "channel_ok chan" "\<not> ch_poisoned chan"
  shows "channel_recv chan =
    (if channel_items chan = [] then Block
     else Done (True, Some (hd (channel_items chan)), advance_rd chan))"
  using assms advance_rd_items [of chan]
  by (auto simp: channel_recv_def channel_peek_eq ack_eq)

lemma channel_read_hd:
  assumes "channel_ok chan" "channel_items chan \<noteq> []"
  shows "ch_elts chan ! unat (ch_rd_idx chan) = hd (channel_items chan)"
    "channel_items (advance_rd chan) = tl (channel_items chan)"
  using advance_rd_items [OF assms] by simp_all

lemma channel_send_slot:
  assumes "channel_ok chan" "length (channel_items chan) < channel_bound chan"
  shows "channel_items (advance_wr (slot_write chan (ch_wr_idx chan) v)) = channel_items chan @ [v]"
  using assms advance_wr_items [of "slot_write chan (ch_wr_idx chan) v"]
  by (simp add: slot_write_reserved slot_write_nth)

lemmas channel_call_simps =
  poisoned_ops channel_send_eq channel_recv_eq channel_reserve_eq channel_peek_eq send_reserved_eq
  ack_eq slot_write_reserved slot_write_nth advance_wr_items channel_read_hd channel_send_slot

lemma null_pointer_refused:
  "channel_send_reserved chan None = (False, chan)" "channel_ack chan None = (False, chan)"
  by (simp_all add: channel_send_reserved_def channel_ack_def)

text \<open>Each call on the channel is the call on the queue.\<close>

lemma client_call_refines:
  assumes "client_ok c"
  shows "queue_call k (queue_of c) = map_prod id queue_of (client_call k c) \<and>
    client_ok (snd (client_call k c))"
proof (cases "ch_poisoned (cl_chan c)")
  case True
  then show ?thesis
    using assms by (cases k) (auto simp: client_ok_def queue_of_def poisoned_ops channel_read_hd)
next
  case False
  then show ?thesis
    using assms
    by (cases k; cases "cl_slot c"; cases "cl_item c")
      (auto simp: client_ok_def queue_of_def channel_call_simps null_pointer_refused neq_Nil_conv
        split: list.splits)
qed

subsection \<open>Properties\<close>

lemma run_calls_refines:
  "client_ok c \<Longrightarrow>
    run_calls queue_call ks (queue_of c) = map_prod id queue_of (run_calls client_call ks c)"
proof (induction ks arbitrary: c)
  case Nil
  then show ?case by simp
next
  case (Cons k ks)
  obtain r c' where call: "client_call k c = (r, c')" by fastforce
  have "queue_call k (queue_of c) = (r, queue_of c')" "client_ok c'"
    using client_call_refines [OF Cons.prems, of k] by (simp_all add: call)
  then show ?case
    using Cons.IH [of c'] by (cases "run_calls client_call ks c'") (simp add: call)
qed

text \<open>C6: a new channel behaves as a queue of exactly \<open>capacity\<close> elements. For every sequence of
  calls of all the operations of the interface (sending a copy, reserving a slot and storing into it,
  sending the reserved slot, receiving a copy, peeking, reading through the peeked pointer,
  acknowledging, poisoning; each call one step, a call that would wait is answered
  \<open>Blocks\<close>), each call gives the answer the queue gives and the channel ends in a state
  that represents the queue's.\<close>

theorem channel_refines_queue:
  assumes "0 < unat elt_size" and "unat elt_size * Suc (unat capacity) < 2 ^ 64"
  shows "map_prod id queue_of
      (run_calls client_call ks (new_client (channel_new junk elt_size capacity))) =
    run_calls queue_call ks (empty_queue (unat capacity))"
proof -
  let ?c = "new_client (channel_new junk elt_size capacity)"
  note new = channel_ok_new [OF assms, of junk]
  have "client_ok ?c" using new(1) by (simp add: client_ok_def new_client_def)
  moreover have "queue_of ?c = empty_queue (unat capacity)"
    using new channel_live_new [OF assms, of junk]
    by (simp add: queue_of_def new_client_def empty_queue_def channel_live_def)
  ultimately show ?thesis using run_calls_refines [of ?c ks] by simp
qed

text \<open>Two slots: the third element does not fit, the reserved element is sent last, the poison
  refuses what follows, and the peeked element stays readable.\<close>

theorem channel_refines_queue_witness:
  "fst (run_calls client_call
      [Call_Send 1, Call_Reserve 2, Call_Peek, Call_Send_Reserved, Call_Send 3, Call_Ack, Call_Recv,
       Call_Recv, Call_Send 4, Call_Peek, Call_Poison, Call_Read, Call_Ack]
      (new_client (channel_new (0 :: nat) 4 2))) =
    [Returns True, Pointer True, Pointer True, Returns True, Blocks, Returns True,
     Received True (Some 2), Blocks, Returns True, Pointer True, No_Result, Element (Some 4),
     Returns False]"
proof -
  let ?ks = "[Call_Send (1 :: nat), Call_Reserve 2, Call_Peek, Call_Send_Reserved, Call_Send 3, Call_Ack,
    Call_Recv, Call_Recv, Call_Send 4, Call_Peek, Call_Poison, Call_Read, Call_Ack]"
  have "fst (run_calls client_call ?ks (new_client (channel_new 0 4 2))) =
      fst (run_calls queue_call ?ks (empty_queue 2))"
    using arg_cong [where f = fst, OF channel_refines_queue [of 4 2 ?ks 0]]
    by (simp del: run_calls.simps)
  also have "\<dots> = [Returns True, Pointer True, Pointer True, Returns True, Blocks, Returns True,
      Received True (Some 2), Blocks, Returns True, Pointer True, No_Result, Element (Some 4),
      Returns False]"
    by (simp add: empty_queue_def)
  finally show ?thesis .
qed

text \<open>In particular: for any schedule of attempts of one producer and one consumer on a new channel,
  what was received followed by what is queued is what was sent, in order and without loss, and
  never more than \<open>capacity\<close> elements are queued.\<close>

theorem channel_fifo:
  assumes "0 < unat elt_size" and "unat elt_size * Suc (unat capacity) < 2 ^ 64"
    and "run_ops channel_send channel_recv ops (channel_new junk elt_size capacity) = (s, r, d)"
  shows "s = r @ channel_items d \<and> length (channel_items d) \<le> unat capacity"
proof -
  note new = channel_ok_new [OF assms(1,2), of junk]
  note run = chan.run_fifo [OF channel_live_new [OF assms(1,2)] assms(3)]
  then have "channel_ok d" by (simp add: channel_live_def)
  from channel_items_bound [OF this] run show ?thesis by (simp add: new)
qed

theorem channel_fifo_witness:
  "(case run_ops channel_send channel_recv [Send 1, Send 2, Send 3, Recv, Send 4]
      (channel_new 0 4 2) of (s, r, d) \<Rightarrow>
    s = [1, 2, 4 :: nat] \<and> r = [1] \<and> s = r @ channel_items d \<and> length (channel_items d) \<le> 2)"
proof -
  obtain s r d where run: "run_ops channel_send channel_recv [Send 1, Send 2, Send 3, Recv, Send 4]
      (channel_new (0 :: nat) 4 2) = (s, r, d)"
    by (metis prod_cases3)
  have "fst (run_ops channel_send channel_recv [Send 1, Send 2, Send 3, Recv, Send 4]
      (channel_new (0 :: nat) 4 2)) = [1, 2, 4] \<and>
    fst (snd (run_ops channel_send channel_recv [Send 1, Send 2, Send 3, Recv, Send 4]
      (channel_new (0 :: nat) 4 2))) = [1]"
    by code_simp
  then have "s = [1, 2, 4] \<and> r = [1]" unfolding run by simp
  moreover have "s = r @ channel_items d \<and> length (channel_items d) \<le> 2"
    using channel_fifo [OF _ _ run] by simp
  ultimately show ?thesis unfolding run prod.case by blast
qed

text \<open>Whatever was exchanged before, on a channel of positive capacity the producer and the
  consumer are never both blocked, so one of the two threads can always go on.\<close>

theorem channel_never_both_blocked:
  assumes "0 < unat elt_size" and "unat elt_size * Suc (unat capacity) < 2 ^ 64"
    and "0 < unat capacity"
    and "run_ops channel_send channel_recv ops (channel_new junk elt_size capacity) = (s, r, d)"
  shows "\<not> (channel_send d v = Block \<and> channel_recv d = Block)"
proof -
  note run = chan.run_fifo [OF channel_live_new [OF assms(1,2)] assms(4)]
  then show ?thesis
    using chan.not_both_blocked [of d v] assms(3)
    by (auto simp: channel_ok_new(3) [OF assms(1,2)])
qed

theorem channel_never_both_blocked_witness:
  "\<not> (channel_send (channel_new (0 :: nat) 4 1) 7 = Block \<and>
      channel_recv (channel_new (0 :: nat) 4 1) = Block)"
  using channel_never_both_blocked [of 4 1 "[]" 0 "[]" "[]" "channel_new 0 4 1" 7] by simp

text \<open>A poisoned channel never blocks: every operation of both sides fails and leaves the
  channel as it is, so a thread that comes to it afterwards is let go.\<close>

theorem poisoned_channel_refuses:
  fixes c :: "'a channel"
  defines "p \<equiv> channel_poison c"
  shows "channel_reserve p = Done None \<and> channel_send_reserved p d = (False, p) \<and>
    channel_send p v = Done (False, p) \<and> channel_peek p = Done None \<and>
    channel_ack p d = (False, p) \<and> channel_recv p = Done (False, None, p)"
  by (simp add: p_def channel_poison_def poisoned_ops)

text \<open>A channel of capacity zero is useless: both sides block on it from the start. The
  receiver creates one when \<open>mem_limit / 2\<close> is smaller than a packet slot.\<close>

theorem zero_capacity_blocks:
  "channel_send (channel_new junk elt_size 0) v = Block \<and>
   channel_recv (channel_new junk elt_size 0) = Block"
  by (simp add: channel_send_def channel_recv_def channel_reserve_def channel_peek_def
      channel_is_full_def channel_is_empty_def channel_next_def channel_new_def Let_def)

end
