(* ===== verification/Send_System.thy ===== *)
theory Send_System
  imports End_To_End Channel
begin

section \<open>The sender's three threads over their channels: \<open>src/lib/hgap_send.c\<close>\<close>

text \<open>
  \<open>hgap_send\<close> runs \<open>read_loop\<close>, \<open>encode_loop\<close> and \<open>send_loop\<close> as three threads around two channels of 16
  slots. Theory \<open>SendLoop\<close> models each thread as a function of what its channel operations
  gave it; here the threads share the channels of theory \<open>Channel\<close> and run interleaved. A step of
  a thread is one channel operation with the code around it that touches no shared state. An
  operation that would wait is no step.

  The keepalive thread of \<open>hgap_sender_new\<close> is not one of these: it uses neither channel, and it shares
  the socket and the limiter with the sender thread only. Theory \<open>Transfer_System\<close> adds it, and
  shows that the transfer is not affected.

  The theorems: from the start of an undisturbed transfer no interleaving blocks the three threads,
  none runs for ever, and all end with the same datagrams on the wire. When wirehair refuses the first
  chunk and the input is longer than the channel, the reader never ends, so neither
  does \<open>hgap_send\<close>.
\<close>

subsection \<open>State\<close>

text \<open>Where a thread is, with the local variables that matter there.\<close>

datatype reader_pc =
    R_Loop                      \<comment> \<open>at the head of the loop\<close>
  | R_Send u64                  \<comment> \<open>slot reserved and filled\<close>
  | R_Pill hgap_err             \<comment> \<open>after the loop, with \<open>retval\<close>\<close>
  | R_Pill_Send u64 hgap_err    \<comment> \<open>slot reserved and reset\<close>
  | R_Done hgap_err

datatype 's encoder_pc =
    E_Peek
  | E_Send u64 "'s enc_chunk"   \<comment> \<open>slot peeked, its chunk initialised\<close>
  | E_Ack u64
  | E_Pill hgap_err
  | E_Done hgap_err

datatype sender_pc =
    S_Start
  | S_Recv
  | S_Teardown
  | S_Done hgap_err

record 's send_sys =
  ss_in2enc :: "sized_buf channel"
  ss_enc2net :: "'s enc_chunk option channel"
  ss_file :: infile
  ss_reader :: reader_pc
  ss_enc :: hgap_encoder
  ss_encoder :: "'s encoder_pc"
  ss_send :: send_state
  ss_sender :: sender_pc

text \<open>What the content area of a slot holds.\<close>

definition slot_content :: "sized_buf \<Rightarrow> bytes" where
  "slot_content b = (case sb_data b of Some d \<Rightarrow> d | None \<Rightarrow> [])"

subsection \<open>Steps\<close>

definition reader_step :: "nat \<Rightarrow> 's send_sys \<Rightarrow> 's send_sys outcome option" where
  "reader_step buf_size s =
     (let chan = ss_in2enc s in
      case ss_reader s of
        R_Loop \<Rightarrow>
          (case channel_reserve chan of
             Block \<Rightarrow> None
           | Done None \<Rightarrow> Some Exit
           | Done (Some slot) \<Rightarrow>
               let (buf, f) = read_chunk (ss_file s) buf_size (slot_content (ch_elts chan ! unat slot));
                   s' = s\<lparr>ss_in2enc := slot_write chan slot buf, ss_file := f\<rparr>
               in Some (Ret (if f_err f then s'\<lparr>ss_reader := R_Pill HGAP_ERR_FILE_READ\<rparr>
                             else s'\<lparr>ss_reader := R_Send slot\<rparr>)))
      | R_Send slot \<Rightarrow>
          (case channel_send_reserved chan (Some slot) of
             (ok, chan') \<Rightarrow> Some (Ret (s\<lparr>ss_in2enc := chan', ss_reader :=
               if \<not> ok then R_Pill HGAP_ERR_IPC
               else if f_eof (ss_file s) then R_Pill HGAP_SUCCESS else R_Loop\<rparr>)))
      | R_Pill ret \<Rightarrow>
          (case channel_reserve chan of
             Block \<Rightarrow> None
           | Done None \<Rightarrow> Some (Ret (s\<lparr>ss_reader := R_Done ret\<rparr>))
           | Done (Some slot) \<Rightarrow> Some (Ret (s\<lparr>ss_in2enc := slot_write chan slot SBUF_NULL,
               ss_reader := R_Pill_Send slot ret\<rparr>)))
      | R_Pill_Send slot ret \<Rightarrow>
          (case channel_send_reserved chan (Some slot) of
             (ok, chan') \<Rightarrow> Some (Ret (s\<lparr>ss_in2enc := chan',
               ss_reader := R_Done (if ok then ret else HGAP_ERR_IPC)\<rparr>)))
      | R_Done ret \<Rightarrow> None)"

definition encoder_step :: "'s wirehair \<Rightarrow> 's send_sys \<Rightarrow> 's send_sys outcome option" where
  "encoder_step W s =
     (let chan_in = ss_in2enc s; chan_out = ss_enc2net s in
      case ss_encoder s of
        E_Peek \<Rightarrow>
          (case channel_peek chan_in of
             Block \<Rightarrow> None
           | Done None \<Rightarrow> Some (Ret (s\<lparr>ss_encoder := E_Pill HGAP_SUCCESS\<rparr>))
           | Done (Some slot) \<Rightarrow>
               let to_enc = ch_elts chan_in ! unat slot
               in case sb_data to_enc of
                    None \<Rightarrow> Some (Ret (s\<lparr>ss_encoder := E_Pill HGAP_SUCCESS\<rparr>))
                  | Some data \<Rightarrow> Some (
                      obind (hgap_enc_chunk_init W (ss_enc s) hgap_enc_chunk_new data (sb_size to_enc))
                        (\<lambda>(ret, enc, chunk). Ret (s\<lparr>ss_enc := enc, ss_encoder :=
                           if ret \<noteq> HGAP_SUCCESS then E_Pill ret else E_Send slot chunk\<rparr>))))
      | E_Send slot chunk \<Rightarrow>
          (case channel_send chan_out (Some chunk) of
             Block \<Rightarrow> None
           | Done (ok, chan') \<Rightarrow> Some (Ret (s\<lparr>ss_enc2net := chan', ss_encoder :=
               if ok then E_Ack slot else E_Pill HGAP_ERR_IPC\<rparr>)))
      | E_Ack slot \<Rightarrow>
          Some (Ret (s\<lparr>ss_in2enc := snd (channel_ack chan_in (Some slot)), ss_encoder := E_Peek\<rparr>))
      | E_Pill ret \<Rightarrow>
          (case channel_send chan_out None of
             Block \<Rightarrow> None
           | Done (ok, chan') \<Rightarrow> Some (Ret (s\<lparr>ss_enc2net := chan', ss_encoder :=
               E_Done (if ok then ret else HGAP_ERR_IPC)\<rparr>)))
      | E_Done ret \<Rightarrow> None)"

text \<open>
  \<open>sender_end\<close> is the label \<open>send_loop_fail\<close>. The first step announces the transfer; a step that receives
  a chunk sends all of it.
\<close>

definition sender_end :: "hgap_err \<Rightarrow> 's send_sys \<Rightarrow> 's send_sys outcome" where
  "sender_end retval s =
     obind (hgap_sender_free (Some (sl_sender (ss_send s)))) (\<lambda>hs.
       Ret (s\<lparr>ss_send := (ss_send s)\<lparr>sl_sender := hs\<rparr>, ss_sender := S_Done retval\<rparr>))"

definition sender_step ::
  "sender_env \<Rightarrow> 's wirehair \<Rightarrow> dbl \<Rightarrow> u64 \<Rightarrow> 's send_sys \<Rightarrow> 's send_sys outcome option" where
  "sender_step env W wanted psz s =
     (let st = ss_send s; chan = ss_enc2net s in
      case ss_sender s of
        S_Start \<Rightarrow> Some (
          obind (hgap_encoder_handwave (ss_enc s) (sl_pkt st) psz) (\<lambda>(ret, pkt, send_size).
            let s1 = s\<lparr>ss_send := st\<lparr>sl_pkt := pkt\<rparr>\<rparr>
            in if ret \<noteq> HGAP_SUCCESS then sender_end HGAP_ERR_BUFFER_TOO_SMALL s1
               else obind (hgap_sender_control env (sl_sender st) pkt send_size) (\<lambda>(sent, hs).
                 let s2 = s1\<lparr>ss_send := st\<lparr>sl_pkt := pkt, sl_sender := hs\<rparr>\<rparr>
                 in if sent \<noteq> 0 then sender_end HGAP_ERR_NETWORK s2
                    else Ret (s2\<lparr>ss_sender := S_Recv\<rparr>))))
      | S_Recv \<Rightarrow>
          (case channel_recv chan of
             Block \<Rightarrow> None
           | Done (ok, v, chan') \<Rightarrow>
               let s' = s\<lparr>ss_enc2net := chan'\<rparr>
               in if \<not> ok then Some (sender_end HGAP_ERR_IPC s')
                  else case v of
                    Some (Some chunk) \<Rightarrow> Some (
                      obind (returns (emit_loop env W wanted psz chunk st)) (\<lambda>(_, st').
                        Ret (s'\<lparr>ss_send := st',
                          ss_sender := if sl_more st' then S_Recv else S_Teardown\<rparr>)))
                  | _ \<Rightarrow> Some (Ret (s'\<lparr>ss_sender := S_Teardown\<rparr>)))
      | S_Teardown \<Rightarrow> Some (
          obind (hgap_encoder_teardown (ss_enc s) (sl_pkt st) psz) (\<lambda>(_, pkt, send_size).
          obind (hgap_sender_control env (sl_sender st) pkt send_size) (\<lambda>(_, hs).
            sender_end (sl_ret st) (s\<lparr>ss_send := st\<lparr>sl_pkt := pkt, sl_sender := hs\<rparr>\<rparr>))))
      | S_Done ret \<Rightarrow> None)"

inductive send_sys_step ::
  "sender_env \<Rightarrow> 's wirehair \<Rightarrow> 'f hgap_config \<Rightarrow> 's send_sys \<Rightarrow> 's send_sys \<Rightarrow> bool"
  for env W cfg where
  read_step: "reader_step (unat (send_elt_size cfg - 16)) s = Some (Ret t) \<Longrightarrow>
    send_sys_step env W cfg s t"
| encode_step: "encoder_step W s = Some (Ret t) \<Longrightarrow> send_sys_step env W cfg s t"
| send_step: "sender_step env W (redund cfg) (pkt_size cfg) s = Some (Ret t) \<Longrightarrow>
    send_sys_step env W cfg s t"

text \<open>
  The start: both channels new, \<open>sizeof (struct hgap_enc_chunk *)\<close> is 8; \<open>junk\<close> and \<open>junk'\<close> are what
  their memory held, \<open>hs\<close> the sender that \<open>hgap_sender_new\<close> made.
\<close>

definition send_sys_init ::
  "'f hgap_config \<Rightarrow> sized_buf \<Rightarrow> 's enc_chunk option \<Rightarrow> hgap_sender \<Rightarrow> bytes \<Rightarrow> 's send_sys" where
  "send_sys_init cfg junk junk' hs data =
     \<lparr>ss_in2enc = channel_new junk (send_elt_size cfg) 16,
      ss_enc2net = channel_new junk' 8 16,
      ss_file = \<lparr>f_rest = data, f_fail_at = None, f_eof = False, f_err = False\<rparr>,
      ss_reader = R_Loop,
      ss_enc = hgap_encoder_new (pkt_size cfg),
      ss_encoder = E_Peek,
      ss_send = \<lparr>sl_sender = hs, sl_pkt = replicate (unat (pkt_size cfg)) 0, sl_data_sent = 0,
        sl_ret = HGAP_SUCCESS, sl_more = True\<rparr>,
      ss_sender = S_Start\<rparr>"

subsection \<open>The invariant of an undisturbed transfer\<close>

text \<open>
  Token \<open>k\<close> of the transfer is piece \<open>k\<close> of the input, or the pill behind the last. \<open>counts\<close> are the tokens
  the reader sent, the encoder acknowledged, the encoder sent and the sender received.
\<close>

record counts =
  n_read :: nat
  n_acked :: nat
  n_encoded :: nat
  n_received :: nat

definition token :: "'a list \<Rightarrow> nat \<Rightarrow> 'a option" where
  "token ms k = (if k < length ms then Some (ms ! k) else None)"

definition buf_is :: "sized_buf \<Rightarrow> bytes option \<Rightarrow> bool" where
  "buf_is b t \<longleftrightarrow>
     (case t of
        None \<Rightarrow> sb_data b = None
      | Some m \<Rightarrow> sb_size b = of_nat (length m) \<and> (\<exists>rest. sb_data b = Some (m @ rest)))"

definition fresh_chunk :: "'s wirehair \<Rightarrow> u64 \<Rightarrow> u64 \<Rightarrow> bytes \<Rightarrow> 's enc_chunk" where
  "fresh_chunk W psz num m =
     \<lparr>ck_num = num, ck_len = of_nat (length m), ck_pkt_size = of_nat (chunk_payload psz m + 24),
      ck_next_pkt_id = 0, ck_wh_state = chunk_encoder W psz m, ck_data = Some m, ck_total_gen = 0\<rparr>"

definition chunk_tokens :: "'s wirehair \<Rightarrow> u64 \<Rightarrow> bytes list \<Rightarrow> 's enc_chunk list" where
  "chunk_tokens W psz ms = map (\<lambda>k. fresh_chunk W psz (of_nat k) (ms ! k)) [0..<length ms]"

definition queue_ok :: "'a channel \<Rightarrow> bool" where
  "queue_ok chan \<longleftrightarrow> channel_ok chan \<and> \<not> ch_poisoned chan \<and> channel_bound chan = 16"

definition reader_ok :: "bytes list \<Rightarrow> nat \<Rightarrow> nat \<Rightarrow> 's send_sys \<Rightarrow> bool" where
  "reader_ok ms n r s \<longleftrightarrow>
     f_fail_at (ss_file s) = None \<and> \<not> f_err (ss_file s) \<and>
     (case ss_reader s of
        R_Loop \<Rightarrow> r < length ms \<and> chunks_of n (f_rest (ss_file s)) = drop r ms \<and> \<not> f_eof (ss_file s)
      | R_Send slot \<Rightarrow> r < length ms \<and> slot = ch_wr_idx (ss_in2enc s) \<and>
          length (channel_items (ss_in2enc s)) < 16 \<and>
          buf_is (ch_elts (ss_in2enc s) ! unat slot) (Some (ms ! r)) \<and>
          (if f_eof (ss_file s) then Suc r = length ms
           else Suc r < length ms \<and> chunks_of n (f_rest (ss_file s)) = drop (Suc r) ms)
      | R_Pill ret \<Rightarrow> ret = HGAP_SUCCESS \<and> r = length ms
      | R_Pill_Send slot ret \<Rightarrow> ret = HGAP_SUCCESS \<and> r = length ms \<and> slot = ch_wr_idx (ss_in2enc s) \<and>
          length (channel_items (ss_in2enc s)) < 16 \<and>
          buf_is (ch_elts (ss_in2enc s) ! unat slot) None
      | R_Done ret \<Rightarrow> ret = HGAP_SUCCESS \<and> r = Suc (length ms))"

definition in_queue_ok :: "bytes list \<Rightarrow> counts \<Rightarrow> 's send_sys \<Rightarrow> bool" where
  "in_queue_ok ms g s \<longleftrightarrow> queue_ok (ss_in2enc s) \<and> n_acked g \<le> n_read g \<and>
     list_all2 buf_is (channel_items (ss_in2enc s)) (map (token ms) [n_acked g..<n_read g])"

definition encoder_ok :: "'s wirehair \<Rightarrow> u64 \<Rightarrow> bytes list \<Rightarrow> counts \<Rightarrow> 's send_sys \<Rightarrow> bool" where
  "encoder_ok W psz ms g s \<longleftrightarrow>
     enc_pkt_size (ss_enc s) = psz \<and>
     (case ss_encoder s of
        E_Peek \<Rightarrow> n_encoded g = n_acked g \<and> n_acked g \<le> length ms \<and>
          next_chunk_num (ss_enc s) = of_nat (n_acked g)
      | E_Send slot chunk \<Rightarrow> slot = ch_rd_idx (ss_in2enc s) \<and> n_acked g < n_read g \<and>
          n_encoded g = n_acked g \<and> n_acked g < length ms \<and>
          chunk = chunk_tokens W psz ms ! n_acked g \<and>
          next_chunk_num (ss_enc s) = of_nat (Suc (n_acked g))
      | E_Ack slot \<Rightarrow> slot = ch_rd_idx (ss_in2enc s) \<and> n_acked g < n_read g \<and>
          n_encoded g = Suc (n_acked g) \<and> n_acked g < length ms \<and>
          next_chunk_num (ss_enc s) = of_nat (Suc (n_acked g))
      | E_Pill ret \<Rightarrow> ret = HGAP_SUCCESS \<and> n_acked g = length ms \<and> n_encoded g = length ms
      | E_Done ret \<Rightarrow> ret = HGAP_SUCCESS \<and> n_acked g = length ms \<and> n_encoded g = Suc (length ms))"

definition out_queue_ok :: "'s wirehair \<Rightarrow> u64 \<Rightarrow> bytes list \<Rightarrow> counts \<Rightarrow> 's send_sys \<Rightarrow> bool" where
  "out_queue_ok W psz ms g s \<longleftrightarrow> queue_ok (ss_enc2net s) \<and> n_received g \<le> n_encoded g \<and>
     channel_items (ss_enc2net s) = map (token (chunk_tokens W psz ms)) [n_received g..<n_encoded g]"

definition begin_salve :: "bytes list" where
  "begin_salve = replicate 32 (header_bytes hgap_header_begin)"

definition sender_ok ::
  "sender_env \<Rightarrow> 's wirehair \<Rightarrow> u64 \<Rightarrow> dbl \<Rightarrow> bytes list \<Rightarrow> nat \<Rightarrow> 's send_sys \<Rightarrow> bool" where
  "sender_ok env W psz wanted ms d s \<longleftrightarrow>
     send_ready env psz (ss_send s) \<and> sl_ret (ss_send s) = HGAP_SUCCESS \<and> sl_more (ss_send s) \<and>
     (let cs = chunks_from W psz wanted 0 ms; wire = hs_wire (sl_sender (ss_send s)) in
      case ss_sender s of
        S_Start \<Rightarrow> d = 0 \<and> wire = []
      | S_Recv \<Rightarrow> d \<le> length ms \<and> wire = begin_salve @ concat (map (sent_packets W psz) (take d cs))
      | S_Teardown \<Rightarrow> d = Suc (length ms) \<and> wire = begin_salve @ concat (map (sent_packets W psz) cs)
      | S_Done ret \<Rightarrow> ret = HGAP_SUCCESS \<and> d = Suc (length ms) \<and> wire = transfer_wire W psz cs)"

subsection \<open>Each thread keeps the invariant and moves on\<close>

lemma list_all2_tokens:
  "list_all2 P items (map f [a..<r]) \<Longrightarrow> length items = r - a"
  by (auto dest: list_all2_lengthD)

lemma list_all2_send:
  "list_all2 P items (map f [a..<r]) \<Longrightarrow> a \<le> r \<Longrightarrow> P v (f r) \<Longrightarrow>
    list_all2 P (items @ [v]) (map f [a..<Suc r])"
  by (simp add: list_all2_appendI)

lemma chunks_of_next:
  assumes "chunks_of n xs = drop r ms" "0 < n" "r < length ms"
  shows "ms ! r = take n xs"
    and "if length xs < n then Suc r = length ms
      else Suc r < length ms \<and> chunks_of n (drop n xs) = drop (Suc r) ms"
proof -
  have d: "drop r ms = ms ! r # drop (Suc r) ms" using assms(3) by (rule Cons_nth_drop_Suc [symmetric])
  show "ms ! r = take n xs"
    using assms d by (subst (asm) chunks_of.simps) (auto split: if_splits)
  have ne: "chunks_of n ys \<noteq> []" for ys :: "'a list"
    by (subst chunks_of.simps) simp
  show "if length xs < n then Suc r = length ms
      else Suc r < length ms \<and> chunks_of n (drop n xs) = drop (Suc r) ms"
  proof (cases "length xs < n")
    case True
    then have "drop (Suc r) ms = []" using assms d by (subst (asm) chunks_of.simps) auto
    then show ?thesis using True assms(3) by simp
  next
    case False
    then have eq: "chunks_of n (drop n xs) = drop (Suc r) ms"
      using assms d by (subst (asm) chunks_of.simps) auto
    then have "drop (Suc r) ms \<noteq> []" using ne [of "drop n xs"] by simp
    then show ?thesis using False eq by simp
  qed
qed

primrec reader_rank :: "reader_pc \<Rightarrow> nat" where
  "reader_rank R_Loop = 0"
| "reader_rank (R_Send slot) = 1"
| "reader_rank (R_Pill ret) = 0"
| "reader_rank (R_Pill_Send slot ret) = 1"
| "reader_rank (R_Done ret) = 0"

lemma piece_buf_is: "buf_is (piece_buf m slot) (Some m)"
  by (simp add: buf_is_def piece_buf_def)

lemma reader_step_ok:
  assumes inv: "reader_ok ms n (n_read g) s" "in_queue_ok ms g s" and n: "0 < n"
    and step: "reader_step n s = Some x"
  shows "\<exists>t r. x = Ret t \<and> reader_ok ms n r t \<and> in_queue_ok ms (g\<lparr>n_read := r\<rparr>) t \<and>
    n_read g \<le> r \<and> r \<le> Suc (length ms) \<and>
    2 * r + reader_rank (ss_reader t) = 2 * n_read g + reader_rank (ss_reader s) + 1 \<and>
    t = s\<lparr>ss_in2enc := ss_in2enc t, ss_file := ss_file t, ss_reader := ss_reader t\<rparr> \<and>
    ch_rd_idx (ss_in2enc t) = ch_rd_idx (ss_in2enc s)"
proof -
  let ?c = "ss_in2enc s" and ?r = "n_read g"
  have q: "channel_ok ?c" "\<not> ch_poisoned ?c" "channel_bound ?c = 16" "n_acked g \<le> ?r"
    and items: "list_all2 buf_is (channel_items ?c) (map (token ms) [n_acked g..<?r])"
    using inv(2) by (simp_all add: in_queue_ok_def queue_ok_def)
  have room: "channel_reserve ?c = (if length (channel_items ?c) < 16 then Done (Some (ch_wr_idx ?c)) else Block)"
    using channel_reserve_eq [OF q(1,2)] q(3) by simp
  note sent = send_reserved_eq [OF q(1,2)] advance_wr_items [OF q(1)]
  have filled: "in_queue_ok ms g (s\<lparr>ss_in2enc := slot_write ?c (ch_wr_idx ?c) v, ss_file := f, ss_reader := p\<rparr>)"
    "channel_items (slot_write ?c (ch_wr_idx ?c) v) = channel_items ?c" for v f p
    using q items slot_write_reserved [OF q(1)] by (simp_all add: in_queue_ok_def queue_ok_def)
  have same: "in_queue_ok ms g t \<Longrightarrow> n_read g = k \<Longrightarrow> in_queue_ok ms (g\<lparr>n_read := k\<rparr>) t"
    for t :: "'a send_sys" and k
    by (simp add: in_queue_ok_def)
  have pushed: "in_queue_ok ms (g\<lparr>n_read := Suc ?r\<rparr>) (s\<lparr>ss_in2enc := advance_wr ?c, ss_reader := p\<rparr>)"
    if "length (channel_items ?c) < 16" "buf_is (ch_elts ?c ! unat (ch_wr_idx ?c)) (token ms ?r)" for p
    using q items sent(2) that list_all2_send [OF items q(4) that(2)]
    by (simp add: in_queue_ok_def queue_ok_def)
  show ?thesis
  proof (cases "ss_reader s")
    case R_Loop
    let ?f = "ss_file s"
    have f: "f_fail_at ?f = None" "\<not> f_err ?f" "\<not> f_eof ?f" "?r < length ms"
      "chunks_of n (f_rest ?f) = drop ?r ms"
      using inv(1) R_Loop by (simp_all add: reader_ok_def)
    note next_piece = chunks_of_next [OF f(5) n f(4)]
    show ?thesis
      using step R_Loop room f q(1) next_piece filled(2) filled(1) [where p = "R_Send (ch_wr_idx ?c)"]
        read_chunk_piece [OF f(1) n]
      by (auto simp: reader_step_def Let_def reader_ok_def slot_write_nth piece_buf_is
          split: if_splits intro!: exI [of _ ?r])
  next
    case (R_Send slot)
    then show ?thesis
      using step inv(1) sent(1) pushed q(3)
      by (auto simp: reader_step_def Let_def reader_ok_def token_def split: if_splits
          intro!: exI [of _ "Suc ?r"])
  next
    case (R_Pill ret)
    then show ?thesis
      using step inv(1) room q(1) filled(2) filled(1) [where f = "ss_file s" and p = "R_Pill_Send (ch_wr_idx ?c) ret"]
      by (auto simp: reader_step_def Let_def reader_ok_def slot_write_nth buf_is_def SBUF_NULL_def same
          split: if_splits intro!: exI [of _ ?r])
  next
    case (R_Pill_Send slot ret)
    then show ?thesis
      using step inv(1) sent(1) pushed
      by (auto simp: reader_step_def Let_def reader_ok_def token_def intro!: exI [of _ "Suc ?r"])
  next
    case (R_Done ret)
    then show ?thesis using step by (simp add: reader_step_def)
  qed
qed

text \<open>The encoder initialises exactly the fresh chunks.\<close>

lemma encodes_fresh:
  assumes "encodes W psz num m c" "ck_next_pkt_id c = 0" "ck_total_gen c = 0"
    and "ck_wh_state c = chunk_encoder W psz m"
  shows "c = fresh_chunk W psz num m"
proof -
  have "ck_pkt_size c = of_nat (unat (ck_pkt_size c))" by simp
  then have "ck_pkt_size c = of_nat (chunk_payload psz m + 24)"
    using assms(1) by (simp only: encodes_def)
  then show ?thesis using assms by (cases c) (simp add: encodes_def fresh_chunk_def)
qed

lemma init_fresh:
  assumes psz: "24 < unat (enc_pkt_size enc)" and m: "encodable W (enc_pkt_size enc) m"
  shows "hgap_enc_chunk_init W enc hgap_enc_chunk_new (m @ rest) (of_nat (length m)) =
    Ret (HGAP_SUCCESS, enc\<lparr>next_chunk_num := next_chunk_num enc + 1\<rparr>,
      fresh_chunk W (enc_pkt_size enc) (next_chunk_num enc) m)"
    and "encodes W (enc_pkt_size enc) num m (fresh_chunk W (enc_pkt_size enc) num m)"
proof -
  have init: "hgap_enc_chunk_init W enc hgap_enc_chunk_new (m @ rest) (of_nat (length m)) =
      Ret (HGAP_SUCCESS, enc\<lparr>next_chunk_num := next_chunk_num enc + 1\<rparr>,
        fresh_chunk W (enc_pkt_size enc) (next_chunk_num enc) m) \<and>
      encodes W (enc_pkt_size enc) (next_chunk_num enc) m
        (fresh_chunk W (enc_pkt_size enc) (next_chunk_num enc) m)"
    if p: "24 < unat (enc_pkt_size enc)" "encodable W (enc_pkt_size enc) m" for enc
  proof -
    obtain c where c: "hgap_enc_chunk_init W enc hgap_enc_chunk_new (m @ rest) (of_nat (length m)) =
        Ret (HGAP_SUCCESS, enc\<lparr>next_chunk_num := next_chunk_num enc + 1\<rparr>, c)"
      "encodes W (enc_pkt_size enc) (next_chunk_num enc) m c" "ck_next_pkt_id c = 0"
      "ck_total_gen c = 0" "ck_wh_state c = chunk_encoder W (enc_pkt_size enc) m"
      using hgap_enc_chunk_init_cases [OF p(1), of "of_nat (length m)" "m @ rest" W hgap_enc_chunk_new]
        p(2) unat_of_length [of m]
      by (auto simp: encodable_def hgap_enc_chunk_new_def chunk_encoder_def split: if_splits)
    then show ?thesis using encodes_fresh [OF c(2-5)] by simp
  qed
  show "hgap_enc_chunk_init W enc hgap_enc_chunk_new (m @ rest) (of_nat (length m)) =
    Ret (HGAP_SUCCESS, enc\<lparr>next_chunk_num := next_chunk_num enc + 1\<rparr>,
      fresh_chunk W (enc_pkt_size enc) (next_chunk_num enc) m)"
    using init [OF psz m] by blast
  show "encodes W (enc_pkt_size enc) num m (fresh_chunk W (enc_pkt_size enc) num m)"
    using init [of "enc\<lparr>next_chunk_num := num\<rparr>"] psz m by simp
qed

lemma queue_head:
  assumes "in_queue_ok ms g s" "channel_items (ss_in2enc s) \<noteq> []"
  shows "n_acked g < n_read g"
    and "buf_is (ch_elts (ss_in2enc s) ! unat (ch_rd_idx (ss_in2enc s))) (token ms (n_acked g))"
proof -
  let ?c = "ss_in2enc s"
  have q: "channel_ok ?c" "list_all2 buf_is (channel_items ?c) (map (token ms) [n_acked g..<n_read g])"
    using assms(1) by (simp_all add: in_queue_ok_def queue_ok_def)
  show a: "n_acked g < n_read g"
    using q(2) assms(2) by (cases "n_acked g < n_read g") auto
  obtain v vs where v: "channel_items ?c = v # vs" using assms(2) by (cases "channel_items ?c") auto
  then have "buf_is v (token ms (n_acked g))"
    using q(2) a by (simp add: upt_conv_Cons)
  then show "buf_is (ch_elts ?c ! unat (ch_rd_idx ?c)) (token ms (n_acked g))"
    using channel_read_item [OF q(1) v] by simp
qed

lemma queue_ack:
  assumes "in_queue_ok ms g s" "n_acked g < n_read g" and t: "ss_in2enc t = advance_rd (ss_in2enc s)"
  shows "in_queue_ok ms (g\<lparr>n_acked := Suc (n_acked g), n_encoded := e\<rparr>) t"
    and "length (channel_items (ss_in2enc t)) \<le> length (channel_items (ss_in2enc s))"
proof -
  let ?c = "ss_in2enc s"
  have q: "channel_ok ?c" "list_all2 buf_is (channel_items ?c) (map (token ms) [n_acked g..<n_read g])"
    using assms(1) by (simp_all add: in_queue_ok_def queue_ok_def)
  obtain v vs where v: "channel_items ?c = v # vs"
    using q(2) assms(2) by (cases "channel_items ?c") auto
  note i = channel_read_item [OF q(1) v]
  show "in_queue_ok ms (g\<lparr>n_acked := Suc (n_acked g), n_encoded := e\<rparr>) t"
    using assms q(2) v i(2) by (auto simp: in_queue_ok_def queue_ok_def upt_conv_Cons)
  show "length (channel_items (ss_in2enc t)) \<le> length (channel_items ?c)"
    using i(2) v t by simp
qed

lemma out_queue_send:
  assumes "out_queue_ok W psz ms g s" "n_encoded g = e" "token (chunk_tokens W psz ms) e = v"
    and "channel_send (ss_enc2net s) v = Done (ok, chan')"
  shows "ok" and "ss_enc2net t = chan' \<Longrightarrow>
      out_queue_ok W psz ms (g\<lparr>n_acked := a, n_encoded := Suc e\<rparr>) t"
proof -
  let ?c = "ss_enc2net s"
  have q: "channel_ok ?c" "\<not> ch_poisoned ?c" "channel_bound ?c = 16"
    using assms(1) by (simp_all add: out_queue_ok_def queue_ok_def)
  then have "length (channel_items ?c) < channel_bound ?c"
    using channel_items_bound [OF q(1)] channel_send_full [OF q(1,2)] assms(4)
    by (cases "length (channel_items ?c) = channel_bound ?c") auto
  then show "ok" "ss_enc2net t = chan' \<Longrightarrow>
      out_queue_ok W psz ms (g\<lparr>n_acked := a, n_encoded := Suc e\<rparr>) t"
    using channel_send_room [OF q(1,2), of v] assms q(3)
    by (auto simp: out_queue_ok_def queue_ok_def)
qed

primrec encoder_rank :: "'s encoder_pc \<Rightarrow> nat" where
  "encoder_rank E_Peek = 0"
| "encoder_rank (E_Send slot chunk) = 1"
| "encoder_rank (E_Ack slot) = 2"
| "encoder_rank (E_Pill ret) = 1"
| "encoder_rank (E_Done ret) = 2"

lemma encoder_step_ok:
  assumes inv: "encoder_ok W psz ms g s" "in_queue_ok ms g s" "out_queue_ok W psz ms g s"
    and r: "n_read g \<le> Suc (length ms)" and psz: "24 < unat psz"
    and enc: "list_all (encodable W psz) ms" and step: "encoder_step W s = Some x"
  shows "\<exists>t a e. x = Ret t \<and> encoder_ok W psz ms (g\<lparr>n_acked := a, n_encoded := e\<rparr>) t \<and>
    in_queue_ok ms (g\<lparr>n_acked := a, n_encoded := e\<rparr>) t \<and>
    out_queue_ok W psz ms (g\<lparr>n_acked := a, n_encoded := e\<rparr>) t \<and>
    3 * a + encoder_rank (ss_encoder t) = 3 * n_acked g + encoder_rank (ss_encoder s) + 1 \<and>
    t = s\<lparr>ss_in2enc := ss_in2enc t, ss_enc2net := ss_enc2net t, ss_enc := ss_enc t,
      ss_encoder := ss_encoder t\<rparr> \<and>
    ch_wr_idx (ss_in2enc t) = ch_wr_idx (ss_in2enc s) \<and>
    ch_elts (ss_in2enc t) = ch_elts (ss_in2enc s) \<and>
    length (channel_items (ss_in2enc t)) \<le> length (channel_items (ss_in2enc s))"
proof -
  let ?c = "ss_in2enc s" and ?a = "n_acked g" and ?e = "n_encoded g"
  have q: "channel_ok ?c" "\<not> ch_poisoned ?c"
    using inv(2) by (simp_all add: in_queue_ok_def queue_ok_def)
  show ?thesis
  proof (cases "ss_encoder s")
    case E_Peek
    then have e: "?e = ?a" "?a \<le> length ms" "next_chunk_num (ss_enc s) = of_nat ?a"
      "enc_pkt_size (ss_enc s) = psz"
      using inv(1) by (simp_all add: encoder_ok_def)
    have ne: "channel_items ?c \<noteq> []"
      using step E_Peek channel_peek_eq [OF q] by (auto simp: encoder_step_def Let_def split: if_splits)
    note head = queue_head [OF inv(2) ne]
    show ?thesis
    proof (cases "?a < length ms")
      case True
      then have "buf_is (ch_elts ?c ! unat (ch_rd_idx ?c)) (Some (ms ! ?a))"
        using head(2) by (simp add: token_def)
      then obtain rest where b: "sb_data (ch_elts ?c ! unat (ch_rd_idx ?c)) = Some (ms ! ?a @ rest)"
        "sb_size (ch_elts ?c ! unat (ch_rd_idx ?c)) = of_nat (length (ms ! ?a))"
        by (auto simp: buf_is_def)
      have "encodable W (enc_pkt_size (ss_enc s)) (ms ! ?a)"
        using enc True by (simp add: e(4) list_all_length)
      note init = init_fresh(1) [OF _ this, of rest]
      show ?thesis
        using step E_Peek channel_peek_eq [OF q] ne b init psz head(1) True e inv
        by (intro exI [of _ "s\<lparr>ss_enc := (ss_enc s)\<lparr>next_chunk_num := next_chunk_num (ss_enc s) + 1\<rparr>,
              ss_encoder := E_Send (ch_rd_idx ?c) (fresh_chunk W psz (of_nat ?a) (ms ! ?a))\<rparr>"]
            exI [of _ ?a] exI [of _ ?e])
          (simp add: encoder_step_def Let_def encoder_ok_def chunk_tokens_def in_queue_ok_def out_queue_ok_def)
    next
      case False
      then have "buf_is (ch_elts ?c ! unat (ch_rd_idx ?c)) None" using head(2) by (simp add: token_def)
      then show ?thesis
        using step E_Peek channel_peek_eq [OF q] ne False e inv
        by (intro exI [of _ "s\<lparr>ss_encoder := E_Pill HGAP_SUCCESS\<rparr>"] exI [of _ ?a] exI [of _ ?e])
          (simp add: encoder_step_def Let_def encoder_ok_def buf_is_def in_queue_ok_def out_queue_ok_def)
    qed
  next
    case (E_Send slot chunk)
    then have e: "slot = ch_rd_idx ?c" "?a < n_read g" "?e = ?a" "?a < length ms"
      "token (chunk_tokens W psz ms) ?a = Some chunk"
      using inv(1) by (simp_all add: encoder_ok_def token_def chunk_tokens_def)
    obtain ok c' where c': "channel_send (ss_enc2net s) (Some chunk) = Done (ok, c')"
      using step E_Send by (auto simp: encoder_step_def Let_def split: attempt.splits)
    let ?t = "s\<lparr>ss_enc2net := c', ss_encoder := E_Ack slot\<rparr>"
    note out = out_queue_send(1) [OF inv(3) e(3,5) c'] out_queue_send(2) [OF inv(3) e(3,5) c', of ?t ?a]
    show ?thesis
      using step E_Send c' out e inv(1,2)
      by (intro exI [of _ ?t] exI [of _ ?a] exI [of _ "Suc ?a"])
        (simp add: encoder_step_def Let_def encoder_ok_def in_queue_ok_def)
  next
    case (E_Ack slot)
    then have e: "slot = ch_rd_idx ?c" "?a < n_read g" "?e = Suc ?a" "?a < length ms"
      using inv(1) by (simp_all add: encoder_ok_def)
    let ?t = "s\<lparr>ss_in2enc := advance_rd ?c, ss_encoder := E_Peek\<rparr>"
    note ack = queue_ack(1) [OF inv(2) e(2), of ?t ?e] queue_ack(2) [OF inv(2) e(2), of ?t]
    show ?thesis
      using step E_Ack e inv(1,3) ack ack_eq [OF q]
      by (intro exI [of _ ?t] exI [of _ "Suc ?a"] exI [of _ ?e])
        (simp add: encoder_step_def Let_def encoder_ok_def out_queue_ok_def advance_rd_def)
  next
    case (E_Pill ret)
    then have e: "?e = length ms" "?a = length ms" "ret = HGAP_SUCCESS"
      "token (chunk_tokens W psz ms) (length ms) = None"
      using inv(1) by (simp_all add: encoder_ok_def token_def chunk_tokens_def)
    obtain ok c' where c': "channel_send (ss_enc2net s) None = Done (ok, c')"
      using step E_Pill by (auto simp: encoder_step_def Let_def split: attempt.splits)
    let ?t = "s\<lparr>ss_enc2net := c', ss_encoder := E_Done ret\<rparr>"
    note out = out_queue_send(1) [OF inv(3) e(1,4) c'] out_queue_send(2) [OF inv(3) e(1,4) c', of ?t ?a]
    show ?thesis
      using step E_Pill c' out e inv(1,2)
      by (intro exI [of _ ?t] exI [of _ ?a] exI [of _ "Suc (length ms)"])
        (simp add: encoder_step_def Let_def encoder_ok_def in_queue_ok_def)
  next
    case (E_Done ret)
    then show ?thesis using step by (simp add: encoder_step_def)
  qed
qed

text \<open>Sending a chunk adds its packets to the wire.\<close>

lemma sent_packets_nth:
  assumes "d < length ms"
  shows "sent_packets W psz (chunks_from W psz wanted num ms ! d) =
    chunk_packets W psz wanted (num + of_nat d) (ms ! d) (chunk_encoder W psz (ms ! d))"
  using assms
proof (induction ms arbitrary: d num)
  case (Cons m ms)
  then show ?case
    by (cases d)
      (simp_all add: sent_packets_def chunk_packets_def packets_def comp_def add.assoc)
qed simp

lemma out_queue_recv:
  assumes "out_queue_ok W psz ms g s" "n_received g = d"
    and "channel_recv (ss_enc2net s) = Done (ok, v, chan')"
  shows "ok" and "v = Some (token (chunk_tokens W psz ms) d)" and "d < n_encoded g"
    and "ss_enc2net t = chan' \<Longrightarrow> out_queue_ok W psz ms (g\<lparr>n_received := Suc d\<rparr>) t"
proof -
  let ?c = "ss_enc2net s"
  have q: "channel_ok ?c" "\<not> ch_poisoned ?c" "channel_bound ?c = 16"
    and items: "channel_items ?c = map (token (chunk_tokens W psz ms)) [d..<n_encoded g]"
    using assms(1,2) by (simp_all add: out_queue_ok_def queue_ok_def)
  have ne: "channel_items ?c \<noteq> []"
    using channel_recv_empty [OF q(1,2)] assms(3) by auto
  then show d: "d < n_encoded g" by (simp add: items)
  then have "channel_items ?c = token (chunk_tokens W psz ms) d #
      map (token (chunk_tokens W psz ms)) [Suc d..<n_encoded g]"
    by (simp add: items upt_conv_Cons)
  note r = channel_recv_item [OF q(1,2) this]
  then show "ok" "v = Some (token (chunk_tokens W psz ms) d)"
    using assms(3) by auto
  show "out_queue_ok W psz ms (g\<lparr>n_received := Suc d\<rparr>) t" if "ss_enc2net t = chan'"
    using r assms(3) d that q(3) by (auto simp: out_queue_ok_def queue_ok_def)
qed

primrec sender_rank :: "sender_pc \<Rightarrow> nat" where
  "sender_rank S_Start = 0"
| "sender_rank S_Recv = 1"
| "sender_rank S_Teardown = 1"
| "sender_rank (S_Done ret) = 2"

lemma sender_end_ready:
  assumes "send_ready env psz (ss_send s)"
  shows "\<exists>hs. sender_end ret s =
      Ret (s\<lparr>ss_send := (ss_send s)\<lparr>sl_sender := hs\<rparr>, ss_sender := S_Done ret\<rparr>) \<and>
    good_env env hs \<and> hs_wire hs = hs_wire (sl_sender (ss_send s))"
proof -
  let ?hs = "sl_sender (ss_send s)"
  show ?thesis
    using assms
    by (intro exI [of _ "if hs_cont ?hs then ?hs\<lparr>hs_cont := False\<rparr> else ?hs"])
      (simp add: sender_end_def hgap_sender_free_def send_ready_def good_env_def)
qed

lemma sender_step_ok:
  assumes inv: "sender_ok env W psz wanted ms (n_received g) s" "out_queue_ok W psz ms g s"
    and wh: "wh_block_size W" and w: "wanted_ok wanted" and psz: "24 < unat psz" "unat psz \<le> 1500"
    and ms: "list_all (\<lambda>m. length m \<le> 96000000) ms" "list_all (encodable W psz) ms"
      "list_all (\<lambda>m. writes_all W psz m (chunk_encoder W psz m)) ms"
    and step: "sender_step env W wanted psz s = Some x"
  shows "\<exists>t d. x = Ret t \<and> sender_ok env W psz wanted ms d t \<and>
    out_queue_ok W psz ms (g\<lparr>n_received := d\<rparr>) t \<and>
    d + sender_rank (ss_sender t) = n_received g + sender_rank (ss_sender s) + 1 \<and>
    t = s\<lparr>ss_enc2net := ss_enc2net t, ss_send := ss_send t, ss_sender := ss_sender t\<rparr>"
proof -
  let ?st = "ss_send s" and ?d = "n_received g"
  let ?cs = "chunks_from W psz wanted 0 ms"
  have ready: "send_ready env psz ?st" "sl_ret ?st = HGAP_SUCCESS" "sl_more ?st"
    using inv(1) by (simp_all add: sender_ok_def)
  then have env: "good_env env (sl_sender ?st)" and len: "length (sl_pkt ?st) = unat psz"
    by (simp_all add: send_ready_def)
  have p24: "24 \<le> unat psz" using psz by simp
  show ?thesis
  proof (cases "ss_sender s")
    case S_Start
    let ?pkt = "header_bytes hgap_header_begin @ drop 24 (sl_pkt ?st)"
    obtain hs where hs: "hgap_sender_control env (sl_sender ?st) ?pkt HGAP_HEADER_LEN = Ret (0, hs)"
      "good_env env hs"
      "hs_wire hs = hs_wire (sl_sender ?st) @ replicate 32 (header_bytes hgap_header_begin)"
      using control_ok [OF env, of HGAP_HEADER_LEN ?pkt] by (auto simp: HGAP_SALVE_LEN_def)
    show ?thesis
      using step S_Start hs handwave_eq [OF p24 len, of "ss_enc s"] inv ready len p24
      by (intro exI [of _ "s\<lparr>ss_send := ?st\<lparr>sl_pkt := ?pkt, sl_sender := hs\<rparr>, ss_sender := S_Recv\<rparr>"]
          exI [of _ 0])
        (simp add: sender_step_def Let_def sender_ok_def send_ready_def begin_salve_def out_queue_ok_def)
  next
    case S_Recv
    then have d: "?d \<le> length ms"
      and wire: "hs_wire (sl_sender ?st) = begin_salve @ concat (map (sent_packets W psz) (take ?d ?cs))"
      using inv(1) by (simp_all add: sender_ok_def Let_def)
    obtain ok v c' where rcv: "channel_recv (ss_enc2net s) = Done (ok, v, c')"
      using step S_Recv by (auto simp: sender_step_def Let_def split: attempt.splits)
    note out = out_queue_recv(1-3) [OF inv(2) refl rcv]
    note out4 = out_queue_recv(4) [OF inv(2) refl rcv]
    show ?thesis
    proof (cases "?d < length ms")
      case True
      let ?m = "ms ! ?d" and ?c = "fresh_chunk W psz (of_nat ?d) (ms ! ?d)"
      have v: "v = Some (Some ?c)" using out(2) True by (simp add: token_def chunk_tokens_def)
      have m: "length ?m \<le> 96000000" "encodable W psz ?m" "writes_all W psz ?m (ck_wh_state ?c)"
        using ms True by (simp_all add: list_all_length fresh_chunk_def)
      have enc: "encodes W psz (of_nat ?d) ?m ?c" "ck_next_pkt_id ?c = 0" "ck_total_gen ?c = 0"
        using init_fresh(2) [of "hgap_encoder_new psz" W ?m] psz m(2)
        by (simp_all add: hgap_encoder_new_def fresh_chunk_def)
      obtain ch st' where st': "emit_loop env W wanted psz ?c ?st = Some (Ret (ch, st'))"
        "send_ready env psz st'"
        "hs_wire (sl_sender st') = hs_wire (sl_sender ?st) @
          chunk_packets W psz wanted (of_nat ?d) ?m (ck_wh_state ?c)"
        "sl_ret st' = sl_ret ?st" "sl_more st' = sl_more ?st"
        using chunk_emission [OF wh m(3) w psz m(1) enc ready(1)] by blast
      have "hs_wire (sl_sender st') = begin_salve @ concat (map (sent_packets W psz) (take (Suc ?d) ?cs))"
        using sent_packets_nth [OF True, of W psz wanted 0] True
        by (simp add: st'(3) wire take_Suc_conv_app_nth fresh_chunk_def)
      then show ?thesis
        using step S_Recv rcv out(1) v st' ready True out4
          [of "s\<lparr>ss_enc2net := c', ss_send := st', ss_sender := S_Recv\<rparr>"]
        by (intro exI [of _ "s\<lparr>ss_enc2net := c', ss_send := st', ss_sender := S_Recv\<rparr>"]
            exI [of _ "Suc ?d"])
          (simp add: sender_step_def Let_def sender_ok_def)
    next
      case False
      then have v: "v = Some None" using out(2) by (simp add: token_def chunk_tokens_def)
      show ?thesis
        using step S_Recv rcv out(1) v ready False d wire out4
          [of "s\<lparr>ss_enc2net := c', ss_sender := S_Teardown\<rparr>"]
        by (intro exI [of _ "s\<lparr>ss_enc2net := c', ss_sender := S_Teardown\<rparr>"] exI [of _ "Suc ?d"])
          (simp add: sender_step_def Let_def sender_ok_def)
    qed
  next
    case S_Teardown
    let ?pkt = "header_bytes hgap_header_end @ drop 24 (sl_pkt ?st)"
    obtain hs where hs: "hgap_sender_control env (sl_sender ?st) ?pkt HGAP_HEADER_LEN = Ret (0, hs)"
      "good_env env hs"
      "hs_wire hs = hs_wire (sl_sender ?st) @ replicate 32 (header_bytes hgap_header_end)"
      using control_ok [OF env, of HGAP_HEADER_LEN ?pkt] by (auto simp: HGAP_SALVE_LEN_def)
    let ?s1 = "s\<lparr>ss_send := ?st\<lparr>sl_pkt := ?pkt, sl_sender := hs\<rparr>\<rparr>"
    have "send_ready env psz (ss_send ?s1)" using hs(2) len p24 by (simp add: send_ready_def)
    then obtain hs' where end': "sender_end HGAP_SUCCESS ?s1 =
        Ret (?s1\<lparr>ss_send := (ss_send ?s1)\<lparr>sl_sender := hs'\<rparr>, ss_sender := S_Done HGAP_SUCCESS\<rparr>)"
      "good_env env hs'" "hs_wire hs' = hs_wire hs"
      using sender_end_ready [of env psz ?s1 HGAP_SUCCESS] by auto
    show ?thesis
      using step S_Teardown hs end' teardown_eq [OF p24 len, of "ss_enc s"] inv ready len p24
      by (intro exI [of _ "?s1\<lparr>ss_send := (ss_send ?s1)\<lparr>sl_sender := hs'\<rparr>,
            ss_sender := S_Done HGAP_SUCCESS\<rparr>"] exI [of _ ?d])
        (simp add: sender_step_def Let_def sender_ok_def send_ready_def begin_salve_def
          out_queue_ok_def transfer_wire_def)
  next
    case (S_Done ret)
    then show ?thesis using step by (simp add: sender_step_def)
  qed
qed

subsection \<open>The whole system\<close>

definition send_sys_inv ::
  "sender_env \<Rightarrow> 's wirehair \<Rightarrow> 'f hgap_config \<Rightarrow> bytes list \<Rightarrow> counts \<Rightarrow> 's send_sys \<Rightarrow> bool" where
  "send_sys_inv env W cfg ms g s \<longleftrightarrow>
     n_read g \<le> Suc (length ms) \<and>
     reader_ok ms (unat (send_elt_size cfg - 16)) (n_read g) s \<and> in_queue_ok ms g s \<and>
     encoder_ok W (pkt_size cfg) ms g s \<and> out_queue_ok W (pkt_size cfg) ms g s \<and>
     sender_ok env W (pkt_size cfg) (redund cfg) ms (n_received g) s"

text \<open>The number of steps made so far.\<close>

definition progress :: "counts \<Rightarrow> 's send_sys \<Rightarrow> nat" where
  "progress g s = 2 * n_read g + reader_rank (ss_reader s) + 3 * n_acked g +
     encoder_rank (ss_encoder s) + n_received g + sender_rank (ss_sender s)"

text \<open>What the theorems assume of the system and of the configuration.\<close>

definition undisturbed ::
  "sender_env \<Rightarrow> 's wirehair \<Rightarrow> 'f hgap_config \<Rightarrow> bytes list \<Rightarrow> bool" where
  "undisturbed env W cfg ms \<longleftrightarrow>
     wh_block_size W \<and> wanted_ok (redund cfg) \<and>
     24 < unat (pkt_size cfg) \<and> unat (pkt_size cfg) \<le> 1500 \<and>
     0 < unat (send_elt_size cfg - 16) \<and>
     list_all (\<lambda>m. length m \<le> 96000000 \<and> encodable W (pkt_size cfg) m \<and>
       writes_all W (pkt_size cfg) m (chunk_encoder W (pkt_size cfg) m)) ms"

lemma send_sys_read:
  assumes ok: "undisturbed env W cfg ms" and inv: "send_sys_inv env W cfg ms g s"
    and step: "reader_step (unat (send_elt_size cfg - 16)) s = Some x"
  shows "\<exists>t g'. x = Ret t \<and> send_sys_inv env W cfg ms g' t \<and> progress g' t = Suc (progress g s)"
proof -
  let ?n = "unat (send_elt_size cfg - 16)"
  have n: "0 < ?n" using ok by (simp add: undisturbed_def)
  have i: "reader_ok ms ?n (n_read g) s" "in_queue_ok ms g s" "encoder_ok W (pkt_size cfg) ms g s"
    "out_queue_ok W (pkt_size cfg) ms g s"
    "sender_ok env W (pkt_size cfg) (redund cfg) ms (n_received g) s"
    using inv by (simp_all add: send_sys_inv_def)
  obtain t r where t: "x = Ret t" "reader_ok ms ?n r t" "in_queue_ok ms (g\<lparr>n_read := r\<rparr>) t"
    "n_read g \<le> r" "r \<le> Suc (length ms)"
    "2 * r + reader_rank (ss_reader t) = 2 * n_read g + reader_rank (ss_reader s) + 1"
    "ch_rd_idx (ss_in2enc t) = ch_rd_idx (ss_in2enc s)"
    and eq: "t = s\<lparr>ss_in2enc := ss_in2enc t, ss_file := ss_file t, ss_reader := ss_reader t\<rparr>"
    using reader_step_ok [OF i(1,2) n step] by blast
  have same: "ss_enc2net t = ss_enc2net s" "ss_enc t = ss_enc s" "ss_encoder t = ss_encoder s"
    "ss_send t = ss_send s" "ss_sender t = ss_sender s"
    using arg_cong [OF eq, of ss_enc2net] arg_cong [OF eq, of ss_enc] arg_cong [OF eq, of ss_encoder]
      arg_cong [OF eq, of ss_send] arg_cong [OF eq, of ss_sender]
    by simp_all
  have "encoder_ok W (pkt_size cfg) ms (g\<lparr>n_read := r\<rparr>) t"
    using i(3) t(4,7) same by (auto simp: encoder_ok_def split: encoder_pc.splits)
  then show ?thesis
    using t i(4,5) same
    by (intro exI [of _ t] exI [of _ "g\<lparr>n_read := r\<rparr>"])
      (simp add: send_sys_inv_def progress_def out_queue_ok_def sender_ok_def)
qed

lemma send_sys_encode:
  assumes ok: "undisturbed env W cfg ms" and inv: "send_sys_inv env W cfg ms g s"
    and step: "encoder_step W s = Some x"
  shows "\<exists>t g'. x = Ret t \<and> send_sys_inv env W cfg ms g' t \<and> progress g' t = Suc (progress g s)"
proof -
  let ?n = "unat (send_elt_size cfg - 16)"
  have psz: "24 < unat (pkt_size cfg)" and enc: "list_all (encodable W (pkt_size cfg)) ms"
    using ok by (auto simp: undisturbed_def list_all_iff)
  have i: "reader_ok ms ?n (n_read g) s" "in_queue_ok ms g s" "encoder_ok W (pkt_size cfg) ms g s"
    "out_queue_ok W (pkt_size cfg) ms g s" "n_read g \<le> Suc (length ms)"
    "sender_ok env W (pkt_size cfg) (redund cfg) ms (n_received g) s"
    using inv by (simp_all add: send_sys_inv_def)
  obtain t a e where t: "x = Ret t" "encoder_ok W (pkt_size cfg) ms (g\<lparr>n_acked := a, n_encoded := e\<rparr>) t"
    "in_queue_ok ms (g\<lparr>n_acked := a, n_encoded := e\<rparr>) t"
    "out_queue_ok W (pkt_size cfg) ms (g\<lparr>n_acked := a, n_encoded := e\<rparr>) t"
    "3 * a + encoder_rank (ss_encoder t) = 3 * n_acked g + encoder_rank (ss_encoder s) + 1"
    "ch_wr_idx (ss_in2enc t) = ch_wr_idx (ss_in2enc s)"
    "ch_elts (ss_in2enc t) = ch_elts (ss_in2enc s)"
    "length (channel_items (ss_in2enc t)) \<le> length (channel_items (ss_in2enc s))"
    and eq: "t = s\<lparr>ss_in2enc := ss_in2enc t, ss_enc2net := ss_enc2net t, ss_enc := ss_enc t,
      ss_encoder := ss_encoder t\<rparr>"
    using encoder_step_ok [OF i(3,2,4,5) psz enc step] by blast
  have same: "ss_file t = ss_file s" "ss_reader t = ss_reader s" "ss_send t = ss_send s"
    "ss_sender t = ss_sender s"
    using arg_cong [OF eq, of ss_file] arg_cong [OF eq, of ss_reader] arg_cong [OF eq, of ss_send]
      arg_cong [OF eq, of ss_sender]
    by simp_all
  have "reader_ok ms ?n (n_read g) t"
    using i(1) t(6-8) same by (auto simp: reader_ok_def split: reader_pc.splits)
  then show ?thesis
    using t i(5,6) same
    by (intro exI [of _ t] exI [of _ "g\<lparr>n_acked := a, n_encoded := e\<rparr>"])
      (simp add: send_sys_inv_def progress_def sender_ok_def)
qed

lemma send_sys_send:
  assumes ok: "undisturbed env W cfg ms" and inv: "send_sys_inv env W cfg ms g s"
    and step: "sender_step env W (redund cfg) (pkt_size cfg) s = Some x"
  shows "\<exists>t g'. x = Ret t \<and> send_sys_inv env W cfg ms g' t \<and> progress g' t = Suc (progress g s)"
proof -
  let ?n = "unat (send_elt_size cfg - 16)" and ?psz = "pkt_size cfg"
  have psz: "24 < unat ?psz" "unat ?psz \<le> 1500" and wh: "wh_block_size W" "wanted_ok (redund cfg)"
    and ms: "list_all (\<lambda>m. length m \<le> 96000000) ms" "list_all (encodable W ?psz) ms"
      "list_all (\<lambda>m. writes_all W ?psz m (chunk_encoder W ?psz m)) ms"
    using ok by (auto simp: undisturbed_def list_all_iff)
  have i: "reader_ok ms ?n (n_read g) s" "in_queue_ok ms g s" "encoder_ok W ?psz ms g s"
    "out_queue_ok W ?psz ms g s" "n_read g \<le> Suc (length ms)"
    "sender_ok env W ?psz (redund cfg) ms (n_received g) s"
    using inv by (simp_all add: send_sys_inv_def)
  obtain t d where t: "x = Ret t" "sender_ok env W ?psz (redund cfg) ms d t"
    "out_queue_ok W ?psz ms (g\<lparr>n_received := d\<rparr>) t"
    "d + sender_rank (ss_sender t) = n_received g + sender_rank (ss_sender s) + 1"
    and eq: "t = s\<lparr>ss_enc2net := ss_enc2net t, ss_send := ss_send t, ss_sender := ss_sender t\<rparr>"
    using sender_step_ok [OF i(6,4) wh psz ms step] by blast
  have same: "ss_in2enc t = ss_in2enc s" "ss_file t = ss_file s" "ss_reader t = ss_reader s"
    "ss_enc t = ss_enc s" "ss_encoder t = ss_encoder s"
    using arg_cong [OF eq, of ss_in2enc] arg_cong [OF eq, of ss_file] arg_cong [OF eq, of ss_reader]
      arg_cong [OF eq, of ss_enc] arg_cong [OF eq, of ss_encoder]
    by simp_all
  have "reader_ok ms ?n (n_read g) t = reader_ok ms ?n (n_read g) s"
    "in_queue_ok ms (g\<lparr>n_received := d\<rparr>) t = in_queue_ok ms g s"
    "encoder_ok W ?psz ms (g\<lparr>n_received := d\<rparr>) t = encoder_ok W ?psz ms g s"
    unfolding reader_ok_def in_queue_ok_def encoder_ok_def same
    by (simp_all split: encoder_pc.split)
  then show ?thesis
    using t i(1-3,5) same
    by (intro exI [of _ t] exI [of _ "g\<lparr>n_received := d\<rparr>"])
      (simp add: send_sys_inv_def progress_def)
qed

lemmas send_sys_moves = send_sys_read send_sys_encode send_sys_send

text \<open>The system as a transition system over the states and their counts.\<close>

lemma send_sys_step_inv:
  assumes "undisturbed env W cfg ms" "send_sys_inv env W cfg ms g s" "send_sys_step env W cfg s t"
  shows "\<exists>g'. send_sys_inv env W cfg ms g' t \<and> progress g' t = Suc (progress g s)"
  using assms(3,1,2)
  by cases (auto dest: send_sys_moves)

lemma send_sys_run:
  assumes "undisturbed env W cfg ms" "send_sys_inv env W cfg ms g s"
    and "(send_sys_step env W cfg ^^ k) s t"
  shows "\<exists>g'. send_sys_inv env W cfg ms g' t \<and> progress g' t = progress g s + k"
  using assms(3)
proof (induction k arbitrary: t)
  case 0
  then show ?case using assms(2) by auto
next
  case (Suc k)
  from Suc.prems obtain u where u: "(send_sys_step env W cfg ^^ k) s u" "send_sys_step env W cfg u t"
    by auto
  from Suc.IH [OF u(1)] obtain g' where g': "send_sys_inv env W cfg ms g' u"
    "progress g' u = progress g s + k"
    by blast
  from send_sys_step_inv [OF assms(1) g'(1) u(2)] show ?case using g'(2) by simp
qed

lemma progress_bound: "send_sys_inv env W cfg ms g s \<Longrightarrow> progress g s \<le> 6 * length ms + 7"
  by (auto simp: send_sys_inv_def progress_def reader_ok_def encoder_ok_def sender_ok_def Let_def
      split: reader_pc.splits encoder_pc.splits sender_pc.splits)

text \<open>Nobody can move only when everybody is done.\<close>

lemma send_sys_stuck:
  assumes inv: "send_sys_inv env W cfg ms g s"
    and stuck: "reader_step (unat (send_elt_size cfg - 16)) s = None" "encoder_step W s = None"
      "sender_step env W (redund cfg) (pkt_size cfg) s = None"
  shows "ss_reader s = R_Done HGAP_SUCCESS" "ss_encoder s = E_Done HGAP_SUCCESS"
    "ss_sender s = S_Done HGAP_SUCCESS"
    "hs_wire (sl_sender (ss_send s)) =
      transfer_wire W (pkt_size cfg) (chunks_from W (pkt_size cfg) (redund cfg) 0 ms)"
proof -
  let ?ci = "ss_in2enc s" and ?co = "ss_enc2net s"
  have q: "channel_ok ?ci" "\<not> ch_poisoned ?ci" "channel_bound ?ci = 16"
    "channel_ok ?co" "\<not> ch_poisoned ?co" "channel_bound ?co = 16"
    and li: "length (channel_items ?ci) = n_read g - n_acked g"
    and lo: "channel_items ?co = map (token (chunk_tokens W (pkt_size cfg) ms)) [n_received g..<n_encoded g]"
    using inv by (auto simp: send_sys_inv_def in_queue_ok_def out_queue_ok_def queue_ok_def
        dest: list_all2_tokens)
  have i: "reader_ok ms (unat (send_elt_size cfg - 16)) (n_read g) s"
    "encoder_ok W (pkt_size cfg) ms g s"
    "sender_ok env W (pkt_size cfg) (redund cfg) ms (n_received g) s"
    using inv by (simp_all add: send_sys_inv_def)
  have out_empty: "n_encoded g \<le> n_received g"
  proof (cases "ss_sender s")
    case S_Recv
    then have "channel_recv ?co = Block"
      using stuck(3) by (auto simp: sender_step_def Let_def split: attempt.splits if_splits option.splits)
    then have "channel_items ?co = []"
      using channel_recv_item [OF q(4,5)] by (cases "channel_items ?co") auto
    then show ?thesis using lo by auto
  next
    case (S_Done ret)
    then show ?thesis
      using i(2,3) by (auto simp: sender_ok_def encoder_ok_def Let_def split: encoder_pc.splits)
  qed (use stuck(3) in \<open>simp_all add: sender_step_def Let_def\<close>)
  then have room: "channel_send ?co v \<noteq> Block" for v
    using channel_send_room [OF q(4,5), of v] q(6) by (auto simp: lo)
  have in_empty: "channel_items ?ci = [] \<or> (\<exists>ret. ss_encoder s = E_Done ret)"
  proof (cases "ss_encoder s")
    case E_Peek
    then show ?thesis
      using stuck(2) channel_peek_eq [OF q(1,2)]
      by (auto simp: encoder_step_def Let_def split: if_splits option.splits)
  qed (use stuck(2) room in \<open>auto simp: encoder_step_def Let_def split: attempt.splits\<close>)
  have "length (channel_items ?ci) < 16 \<or> (\<exists>ret. ss_reader s = R_Done ret)"
  proof -
    have "length (channel_items ?ci) \<le> 1" if "ss_encoder s = E_Done ret" for ret
      using i(2) inv that by (auto simp: encoder_ok_def li send_sys_inv_def)
    then show ?thesis using in_empty by fastforce
  qed
  have reader: "\<exists>ret. ss_reader s = R_Done ret"
    using stuck(1) channel_reserve_eq [OF q(1,2)] q(3)
      \<open>length (channel_items ?ci) < 16 \<or> (\<exists>ret. ss_reader s = R_Done ret)\<close>
    by (cases "ss_reader s") (auto simp: reader_step_def Let_def split: prod.splits)
  then have r: "n_read g = Suc (length ms)" and r': "ss_reader s = R_Done HGAP_SUCCESS"
    using i(1) by (auto simp: reader_ok_def)
  show "ss_reader s = R_Done HGAP_SUCCESS" by (rule r')
  have "\<exists>ret. ss_encoder s = E_Done ret"
  proof (rule ccontr)
    assume no: "\<not> (\<exists>ret. ss_encoder s = E_Done ret)"
    then have "n_read g \<le> n_acked g" using in_empty li by simp
    then show False using i(2) r no by (auto simp: encoder_ok_def split: encoder_pc.splits)
  qed
  then have e: "n_encoded g = Suc (length ms)" and e': "ss_encoder s = E_Done HGAP_SUCCESS"
    using i(2) by (auto simp: encoder_ok_def)
  show "ss_encoder s = E_Done HGAP_SUCCESS" by (rule e')
  have "\<exists>ret. ss_sender s = S_Done ret"
    using i(3) out_empty e stuck(3)
    by (cases "ss_sender s") (auto simp: sender_ok_def sender_step_def Let_def)
  then show "ss_sender s = S_Done HGAP_SUCCESS" "hs_wire (sl_sender (ss_send s)) =
      transfer_wire W (pkt_size cfg) (chunks_from W (pkt_size cfg) (redund cfg) 0 ms)"
    using i(3) by (auto simp: sender_ok_def Let_def)
qed

text \<open>The start satisfies the invariant.\<close>

lemma channel_new_alive: "\<not> ch_poisoned (channel_new junk elt_size capacity)"
  by (simp add: channel_new_def Let_def)

lemma send_sys_channels:
  assumes "hgap_check_config_sender resolves ferror cfg = HGAP_SUCCESS"
  shows "queue_ok (channel_new junk (send_elt_size cfg) 16)"
    "channel_items (channel_new junk (send_elt_size cfg) 16) = []"
    "queue_ok (channel_new junk' 8 16)" "channel_items (channel_new junk' 8 16) = []"
proof -
  have "unat (send_elt_size cfg) = 16 + unat (send_buf_size cfg)"
    using send_buf_size_bounds(3) [OF assms] by (simp add: send_elt_size_def unat_word_ariths)
  then have e: "0 < unat (send_elt_size cfg)" "unat (send_elt_size cfg) * Suc (unat (16 :: u64)) < 2 ^ 64"
    using send_buf_size_bounds(3) [OF assms] by simp_all
  show "queue_ok (channel_new junk (send_elt_size cfg) 16)"
    "channel_items (channel_new junk (send_elt_size cfg) 16) = []"
    "queue_ok (channel_new junk' 8 16)" "channel_items (channel_new junk' 8 16) = []"
    using channel_ok_new [OF e, of junk] channel_ok_new [of 8 16 junk'] channel_new_alive
    by (simp_all add: queue_ok_def)
qed

abbreviation no_counts :: counts where
  "no_counts \<equiv> \<lparr>n_read = 0, n_acked = 0, n_encoded = 0, n_received = 0\<rparr>"

lemma chunks_of_not_Nil: "chunks_of n xs \<noteq> []"
  by (subst chunks_of.simps) simp

lemma init_reader_ok:
  fixes data :: bytes
  assumes "hgap_check_config_sender resolves ferror cfg = HGAP_SUCCESS"
  defines "ms \<equiv> chunks_of (unat (send_buf_size cfg)) data"
  shows "reader_ok ms (unat (send_elt_size cfg - 16)) 0 (send_sys_init cfg junk junk' hs data)"
    and "in_queue_ok ms no_counts (send_sys_init cfg junk junk' hs data)"
  using send_sys_channels [OF assms(1), of junk]
  by (simp_all add: reader_ok_def in_queue_ok_def send_sys_init_def send_elt_size_def ms_def
      chunks_of_not_Nil)

lemma send_sys_init_inv:
  assumes cfg: "hgap_check_config_sender resolves ferror cfg = HGAP_SUCCESS"
    and env: "good_env env hs" "hs_wire hs = []"
  shows "send_sys_inv env W cfg (chunks_of (unat (send_buf_size cfg)) data) no_counts
    (send_sys_init cfg junk junk' hs data)"
proof -
  have "out_queue_ok W (pkt_size cfg) ms no_counts (send_sys_init cfg junk junk' hs data)" for ms
    using send_sys_channels(3,4) [OF cfg, of junk'] by (simp add: out_queue_ok_def send_sys_init_def)
  moreover have "encoder_ok W (pkt_size cfg) ms no_counts (send_sys_init cfg junk junk' hs data)" for ms
    by (simp add: encoder_ok_def send_sys_init_def hgap_encoder_new_def)
  moreover have "sender_ok env W (pkt_size cfg) (redund cfg) ms 0 (send_sys_init cfg junk junk' hs data)" for ms
    using env by (simp add: sender_ok_def send_ready_def send_sys_init_def)
  ultimately show ?thesis
    using init_reader_ok [OF cfg, of data junk junk' hs] by (simp add: send_sys_inv_def)
qed

lemma undisturbed_config:
  assumes cfg: "hgap_check_config_sender resolves ferror cfg = HGAP_SUCCESS"
    and "redund cfg = Fin r" "is_double r" "r \<le> 1048576"
    and wh: "wh_block_size W" "wh_works W (pkt_size cfg - 24) (unat (send_buf_size cfg))"
  shows "undisturbed env W cfg (chunks_of (unat (send_buf_size cfg)) data)"
proof -
  let ?n = "unat (send_buf_size cfg)"
  have psz: "24 < unat (pkt_size cfg)" "unat (pkt_size cfg) \<le> 1500" and r: "1 \<le> r"
    using cfg assms(2) by (simp_all add: sender_config_SUCCESS not_less)
  note n = send_buf_size_bounds(2,3) [OF cfg]
  have n': "?n \<le> 96000000" using n(2) by simp
  have "length m \<le> 96000000 \<and> encodable W (pkt_size cfg) m \<and>
      writes_all W (pkt_size cfg) m (chunk_encoder W (pkt_size cfg) m)"
    if "m \<in> set (chunks_of ?n data)" for m
  proof -
    have m: "length m \<le> ?n" by (rule chunks_of_bound [OF n(1) that])
    then show ?thesis
      using works_encodable [OF wh(2) psz(1) m n'] works_encodes [OF wh(2) psz(1) m] n'
      by (auto simp: writes_all_def)
  qed
  then show ?thesis
    using psz r assms(2-4) wh(1) n(1)
    by (simp add: undisturbed_def wanted_ok_def send_elt_size_def list_all_iff)
qed

lemma reader_frame:
  assumes "ss_in2enc t = ss_in2enc s" "ss_file t = ss_file s" "ss_reader t = ss_reader s"
  shows "reader_ok ms n r t = reader_ok ms n r s" and "in_queue_ok ms g t = in_queue_ok ms g s"
  unfolding reader_ok_def in_queue_ok_def assms by simp_all

text \<open>An encoder that met a failure of wirehair at the first piece acknowledges nothing.\<close>

definition encoder_failing :: "'f hgap_config \<Rightarrow> bytes list \<Rightarrow> 's send_sys \<Rightarrow> bool" where
  "encoder_failing cfg ms s \<longleftrightarrow>
     (\<exists>r. n_read r \<le> Suc (length ms) \<and> n_acked r = 0 \<and>
        reader_ok ms (unat (send_elt_size cfg - 16)) (n_read r) s \<and> in_queue_ok ms r s) \<and>
     enc_pkt_size (ss_enc s) = pkt_size cfg \<and>
     (case ss_encoder s of E_Send slot c \<Rightarrow> False | E_Ack slot \<Rightarrow> False | _ \<Rightarrow> True)"

lemma sender_step_frame:
  assumes "sender_step env W wanted psz s = Some (Ret t)"
  shows "ss_in2enc t = ss_in2enc s \<and> ss_file t = ss_file s \<and> ss_reader t = ss_reader s \<and>
    ss_enc t = ss_enc s \<and> ss_encoder t = ss_encoder s"
  using assms
  by (auto simp: sender_step_def Let_def sender_end_def obind_Ret_iff
      split: sender_pc.splits attempt.splits if_splits option.splits)

lemma failing_step:
  assumes inv: "encoder_failing cfg ms s" and n: "0 < unat (send_elt_size cfg - 16)"
    and psz: "24 < unat (pkt_size cfg)"
    and bad: "ms \<noteq> []" "unat (pkt_size cfg) - 24 < length (hd ms)" "length (hd ms) \<le> 96000000"
      "wh_encode W None (hd ms) (pkt_size cfg - 24) = None"
    and step: "send_sys_step env W cfg s t"
  shows "encoder_failing cfg ms t"
proof -
  obtain g where g: "n_read g \<le> Suc (length ms)" "n_acked g = 0"
    "reader_ok ms (unat (send_elt_size cfg - 16)) (n_read g) s" "in_queue_ok ms g s"
    and enc: "enc_pkt_size (ss_enc s) = pkt_size cfg"
    and pc: "case ss_encoder s of E_Send slot c \<Rightarrow> False | E_Ack slot \<Rightarrow> False | _ \<Rightarrow> True"
    using inv by (auto simp: encoder_failing_def)
  show ?thesis
    using step
  proof cases
    case read_step
    obtain r where r: "reader_ok ms (unat (send_elt_size cfg - 16)) r t"
      "in_queue_ok ms (g\<lparr>n_read := r\<rparr>) t" "r \<le> Suc (length ms)"
      and eq: "t = s\<lparr>ss_in2enc := ss_in2enc t, ss_file := ss_file t, ss_reader := ss_reader t\<rparr>"
      using reader_step_ok [OF g(3,4) n read_step] by blast
    have "ss_enc t = ss_enc s" "ss_encoder t = ss_encoder s"
      using arg_cong [OF eq, of ss_enc] arg_cong [OF eq, of ss_encoder] by simp_all
    then show ?thesis
      using r g(2) enc pc unfolding encoder_failing_def
      by (intro conjI exI [of _ "g\<lparr>n_read := r\<rparr>"]) simp_all
  next
    case encode_step
    have q: "channel_ok (ss_in2enc s)" "\<not> ch_poisoned (ss_in2enc s)"
      using g(4) by (simp_all add: in_queue_ok_def queue_ok_def)
    have fails: "\<exists>enc c. hgap_enc_chunk_init W (ss_enc s) hgap_enc_chunk_new (hd ms @ rest)
        (of_nat (length (hd ms))) = Ret (HGAP_ERR_WIREHAIR_ERROR, enc, c) \<and>
        enc_pkt_size enc = pkt_size cfg" for rest
      using hgap_enc_chunk_init_cases [of "ss_enc s" "of_nat (length (hd ms))" "hd ms @ rest" W
          hgap_enc_chunk_new] psz enc bad(2-4) unat_of_length [of "hd ms"]
      by (auto simp: hgap_enc_chunk_new_def)
    have "ss_in2enc t = ss_in2enc s \<and> ss_file t = ss_file s \<and> ss_reader t = ss_reader s \<and>
        enc_pkt_size (ss_enc t) = pkt_size cfg \<and>
        (case ss_encoder t of E_Send slot c \<Rightarrow> False | E_Ack slot \<Rightarrow> False | _ \<Rightarrow> True)"
    proof (cases "ss_encoder s")
      case E_Peek
      then have ne: "channel_items (ss_in2enc s) \<noteq> []"
        using encode_step channel_peek_eq [OF q] by (auto simp: encoder_step_def Let_def split: if_splits)
      then have "buf_is (ch_elts (ss_in2enc s) ! unat (ch_rd_idx (ss_in2enc s))) (Some (hd ms))"
        using queue_head(2) [OF g(4) ne] bad(1) g(2) by (simp add: token_def hd_conv_nth)
      then obtain rest where
        "sb_data (ch_elts (ss_in2enc s) ! unat (ch_rd_idx (ss_in2enc s))) = Some (hd ms @ rest)"
        "sb_size (ch_elts (ss_in2enc s) ! unat (ch_rd_idx (ss_in2enc s))) = of_nat (length (hd ms))"
        by (auto simp: buf_is_def)
      then show ?thesis
        using encode_step E_Peek channel_peek_eq [OF q] ne fails [of rest]
        by (auto simp: encoder_step_def Let_def)
    qed (use encode_step enc pc in \<open>auto simp: encoder_step_def Let_def split: attempt.splits\<close>)
    then show ?thesis
      using g unfolding encoder_failing_def
      by (intro conjI exI [of _ g]) (simp_all add: reader_frame [of t s])
  next
    case send_step
    note same = sender_step_frame [OF send_step]
    show ?thesis
      using g same enc pc unfolding encoder_failing_def
      by (intro conjI exI [of _ g]) (simp_all add: reader_frame [of t s])
  qed
qed

subsection \<open>Runs of a schedule\<close>

datatype send_thread = Reader | Encoder | Sender

definition send_thread_step ::
  "sender_env \<Rightarrow> 's wirehair \<Rightarrow> 'f hgap_config \<Rightarrow> send_thread \<Rightarrow> 's send_sys \<Rightarrow> 's send_sys outcome option" where
  "send_thread_step env W cfg i s =
     (case i of
        Reader \<Rightarrow> reader_step (unat (send_elt_size cfg - 16)) s
      | Encoder \<Rightarrow> encoder_step W s
      | Sender \<Rightarrow> sender_step env W (redund cfg) (pkt_size cfg) s)"

lemma send_sys_step_iff:
  "send_sys_step env W cfg s t \<longleftrightarrow> (\<exists>i. send_thread_step env W cfg i s = Some (Ret t))"
proof
  show "\<exists>i. send_thread_step env W cfg i s = Some (Ret t)" if "send_sys_step env W cfg s t"
    using that by cases (metis send_thread_step_def send_thread.case)+
  show "send_sys_step env W cfg s t" if "\<exists>i. send_thread_step env W cfg i s = Some (Ret t)"
  proof -
    from that obtain i where "send_thread_step env W cfg i s = Some (Ret t)" by blast
    then show ?thesis by (cases i) (auto simp: send_thread_step_def intro: send_sys_step.intros)
  qed
qed

primrec run_send_threads ::
  "sender_env \<Rightarrow> 's wirehair \<Rightarrow> 'f hgap_config \<Rightarrow> send_thread list \<Rightarrow> 's send_sys \<Rightarrow> 's send_sys option" where
  "run_send_threads env W cfg [] s = Some s"
| "run_send_threads env W cfg (i # is) s =
     (case send_thread_step env W cfg i s of
        Some (Ret t) \<Rightarrow> run_send_threads env W cfg is t
      | _ \<Rightarrow> None)"

lemma run_send_threads_steps:
  "run_send_threads env W cfg is s = Some t \<Longrightarrow> (send_sys_step env W cfg ^^ length is) s t"
proof (induction "is" arbitrary: s)
  case (Cons i "is")
  then obtain u where "send_thread_step env W cfg i s = Some (Ret u)" "run_send_threads env W cfg is u = Some t"
    by (auto split: option.splits outcome.splits)
  then have "send_sys_step env W cfg s u" "(send_sys_step env W cfg ^^ length is) u t"
    using Cons.IH by (auto intro: send_sys_step_iff [THEN iffD2])
  then show ?case by (simp only: list.size add_0_right add_Suc_right) (rule relpowp_Suc_I2)
qed simp

subsection \<open>Properties\<close>

definition send_finished :: "bytes list \<Rightarrow> 's send_sys \<Rightarrow> bool" where
  "send_finished wire s \<longleftrightarrow> ss_reader s = R_Done HGAP_SUCCESS \<and> ss_encoder s = E_Done HGAP_SUCCESS \<and>
     ss_sender s = S_Done HGAP_SUCCESS \<and> hs_wire (sl_sender (ss_send s)) = wire"

lemma sending_stuck:
  assumes "undisturbed env W cfg ms" and g: "send_sys_inv env W cfg ms g s"
    and "\<nexists>t. send_sys_step env W cfg s t"
  shows "send_finished (transfer_wire W (pkt_size cfg) (chunks_from W (pkt_size cfg) (redund cfg) 0 ms)) s"
proof -
  have "\<exists>t. x = Ret t" if "send_thread_step env W cfg i s = Some x" for i x
    using that send_sys_moves [OF assms(1) g] by (auto simp: send_thread_step_def split: send_thread.splits)
  then have "send_thread_step env W cfg i s = None" for i
    using assms(3) unfolding send_sys_step_iff by (metis option.exhaust)
  from this [of Reader] this [of Encoder] this [of Sender] show ?thesis
    using send_sys_stuck [OF g] by (simp add: send_finished_def send_thread_step_def)
qed

text \<open>C3: the sender's three threads, run in any order over their two channels of 16 slots, for every
  configuration the sender accepts with a finite redundancy of at most 2^20 and an undisturbed environment. A step that
  can be taken returns (no exit, no undefined behaviour, no endless loop); there are at most
  \<open>6 n + 7\<close> of them for an input of \<open>n\<close> pieces; when none can be taken, nobody waits for anybody: all
  three have ended with success and the wire holds the datagrams of the transfer, whatever the order.\<close>

theorem send_threads_finish:
  assumes "hgap_check_config_sender resolves ferror cfg = HGAP_SUCCESS"
    and "redund cfg = Fin r" and "is_double r" and "r \<le> 1048576"
    and "wh_block_size W" and "wh_works W (pkt_size cfg - 24) (unat (send_buf_size cfg))"
    and "good_env env hs" and "hs_wire hs = []"
    and "(send_sys_step env W cfg ^^ k) (send_sys_init cfg junk junk' hs data) s"
  defines "ms \<equiv> chunks_of (unat (send_buf_size cfg)) data"
  shows "k \<le> 6 * length ms + 7 \<and>
    (\<forall>i x. send_thread_step env W cfg i s = Some x \<longrightarrow> (\<exists>t. x = Ret t)) \<and>
    ((\<nexists>t. send_sys_step env W cfg s t) \<longrightarrow>
      send_finished (transfer_wire W (pkt_size cfg) (chunks_from W (pkt_size cfg) (redund cfg) 0 ms)) s)"
proof -
  have ok: "undisturbed env W cfg ms"
    unfolding ms_def by (rule undisturbed_config [OF assms(1-6)])
  obtain g where g: "send_sys_inv env W cfg ms g s"
    and k: "progress g s = progress no_counts (send_sys_init cfg junk junk' hs data) + k"
    using send_sys_run [OF ok _ assms(9)] send_sys_init_inv [OF assms(1,7,8)] unfolding ms_def by blast
  have ret: "\<exists>t. x = Ret t" if "send_thread_step env W cfg i s = Some x" for i x
    using that send_sys_moves [OF ok g] by (auto simp: send_thread_step_def split: send_thread.splits)
  have "send_finished (transfer_wire W (pkt_size cfg) (chunks_from W (pkt_size cfg) (redund cfg) 0 ms)) s"
    if "\<nexists>t. send_sys_step env W cfg s t"
    by (rule sending_stuck [OF ok g that])
  then show ?thesis using progress_bound [OF g] k ret by auto
qed

text \<open>C29: when wirehair refuses the first piece of an input of 16 pieces or more, the encoder thread
  ends without emptying its input channel, which nobody poisons. In no state that any order of the
  threads reaches has the reader ended: \<open>hgap_send\<close> waits in \<open>pthread_join\<close> for ever.\<close>

theorem encode_failure_strands_the_reader:
  fixes data :: bytes
  assumes "hgap_check_config_sender resolves ferror cfg = HGAP_SUCCESS"
  defines "ms \<equiv> chunks_of (unat (send_buf_size cfg)) data"
  assumes "16 \<le> length ms" and "unat (pkt_size cfg) - 24 < length (hd ms)"
    and "wh_encode W None (hd ms) (pkt_size cfg - 24) = None"
    and "(send_sys_step env W cfg)\<^sup>*\<^sup>* (send_sys_init cfg junk junk' hs data) s"
  shows "ss_reader s \<noteq> R_Done ret"
proof -
  note n = send_buf_size_bounds(2,3) [OF assms(1)]
  have psz: "24 < unat (pkt_size cfg)"
    using assms(1) by (simp add: sender_config_SUCCESS not_less)
  have elt: "0 < unat (send_elt_size cfg - 16)" using n(1) by (simp add: send_elt_size_def)
  have hd: "ms \<noteq> []" "length (hd ms) \<le> 96000000"
    using assms(3) chunks_of_bound [OF n(1), of "hd ms" data] n(2) unfolding ms_def
    by (auto simp: chunks_of_not_Nil)
  have "encoder_failing cfg ms s"
    using assms(6)
  proof (induction rule: rtranclp_induct)
    case base
    show ?case
      using init_reader_ok [OF assms(1), of data junk junk' hs] unfolding encoder_failing_def ms_def
      by (intro conjI exI [of _ no_counts]) (simp_all add: send_sys_init_def hgap_encoder_new_def)
  next
    case (step t u)
    show ?case by (rule failing_step [OF step.IH elt psz hd(1) assms(4) hd(2) assms(5) step.hyps(2)])
  qed
  then obtain g where g: "n_read g \<le> Suc (length ms)" "n_acked g = 0"
    "reader_ok ms (unat (send_elt_size cfg - 16)) (n_read g) s" "in_queue_ok ms g s"
    by (auto simp: encoder_failing_def)
  then have "n_read g \<le> 16"
    using channel_items_bound [of "ss_in2enc s"]
    by (auto simp: in_queue_ok_def queue_ok_def dest: list_all2_tokens)
  then show ?thesis using g(3) assms(3) by (auto simp: reader_ok_def)
qed

text \<open>Both at the example configuration, with a schedule that fills the channel.\<close>

definition failing_wirehair :: "cyc wirehair" where
  "failing_wirehair = cyclic\<lparr>wh_encode := \<lambda>_ _ _. None\<rparr>"

definition example_start :: "bytes \<Rightarrow> cyc send_sys" where
  "example_start data = send_sys_init example_config \<lparr>sb_size = 0, sb_data = Some [1, 1, 1, 1]\<rparr> None
     example_sender data"

lemma example_config_facts:
  "hgap_check_config_sender (\<lambda>_. True) (\<lambda>_. False) example_config = HGAP_SUCCESS"
  "redund example_config = Fin 2" "pkt_size example_config = 26" "send_buf_size example_config = 4"
  by (simp_all add: sender_config_SUCCESS example_config_def send_buf_size_def HGAP_HEADER_LEN_def)

definition example_run :: "cyc wirehair \<Rightarrow> bytes \<Rightarrow> send_thread list \<Rightarrow> cyc send_sys option" where
  "example_run W data is = run_send_threads example_env W example_config is (example_start data)"

lemma example_run_steps:
  assumes "example_run W data is = Some s"
  shows "(send_sys_step example_env W example_config ^^ length is)
    (send_sys_init example_config \<lparr>sb_size = 0, sb_data = Some [1, 1, 1, 1]\<rparr> None example_sender data) s"
  using assms by (simp add: example_run_def example_start_def run_send_threads_steps)

theorem send_threads_finish_witness:
  "\<exists>s. example_run cyclic [7, 8, 9] [Reader, Reader, Encoder, Reader, Reader, Encoder, Encoder] = Some s \<and>
     ss_reader s = R_Done HGAP_SUCCESS \<and> ss_encoder s = E_Peek \<and>
     (\<forall>i x. send_thread_step example_env cyclic example_config i s = Some x \<longrightarrow> (\<exists>t. x = Ret t))"
proof -
  let ?is = "[Reader, Reader, Encoder, Reader, Reader, Encoder, Encoder]"
  have "map_option (\<lambda>s. (ss_reader s, ss_encoder s)) (example_run cyclic [7, 8, 9] ?is) =
     Some (R_Done HGAP_SUCCESS, E_Peek)"
    by code_simp
  then obtain s where s: "example_run cyclic [7, 8, 9] ?is = Some s"
    "ss_reader s = R_Done HGAP_SUCCESS" "ss_encoder s = E_Peek"
    by auto
  have d: "is_double 2" unfolding is_double_def by code_simp
  have works: "wh_works cyclic 2 4" by (auto simp: wh_works_def cyclic_def)
  have env: "good_env example_env example_sender" "hs_wire example_sender = []"
    by (simp_all add: good_env_def sends_all_def rate_ok_def example_env_def example_sender_def
        hgap_limiter_new_def)
  show ?thesis
    using send_threads_finish [OF example_config_facts(1,2) d _ cyclic_block_size _ env
        example_run_steps [OF s(1)]] works s
    by (simp add: example_config_facts)
qed

theorem encode_failure_strands_the_reader_witness:
  "\<exists>s. example_run failing_wirehair (replicate 64 7)
       ([Reader, Reader, Encoder, Encoder] @ replicate 30 Reader) = Some s \<and>
     ss_encoder s = E_Done HGAP_ERR_WIREHAIR_ERROR \<and>
     reader_step 4 s = None \<and> ss_reader s \<noteq> R_Done HGAP_SUCCESS"
proof -
  let ?is = "[Reader, Reader, Encoder, Encoder] @ replicate 30 Reader"
  have "map_option (\<lambda>s. (ss_encoder s, reader_step 4 s))
      (example_run failing_wirehair (replicate 64 7) ?is) =
     Some (E_Done HGAP_ERR_WIREHAIR_ERROR, None)"
    by code_simp
  then obtain s where s: "example_run failing_wirehair (replicate 64 7) ?is = Some s"
    "ss_encoder s = E_Done HGAP_ERR_WIREHAIR_ERROR" "reader_step 4 s = None"
    by auto
  have ms: "length (chunks_of 4 (replicate 64 (7 :: u8))) = 17"
    "hd (chunks_of 4 (replicate 64 (7 :: u8))) = [7, 7, 7, 7]"
    by code_simp+
  show ?thesis
    using encode_failure_strands_the_reader [OF example_config_facts(1), of "replicate 64 7"
        failing_wirehair example_env _ _ example_sender s HGAP_SUCCESS] s
      relpowp_imp_rtranclp [OF example_run_steps [OF s(1)]] ms
    by (simp add: example_config_facts failing_wirehair_def)
qed

end
