(* ===== verification/Receive_System.thy ===== *)
theory Receive_System
  imports Send_System
begin

section \<open>The receiver's three threads over their channels: \<open>src/lib/hgap_receive.c\<close>\<close>

text \<open>
  The counterpart of theory \<open>Send_System\<close>: \<open>hgapr_net_reader\<close>, \<open>decloop\<close> and \<open>writer\<close> interleaved over
  \<open>chan_net2dec\<close> and \<open>chan_dec2out\<close>, with the socket. A step is one channel operation or one system
  call with the code around it that touches no shared state.

  The theorems: whatever the interleaving, the threads end and the output is what the sequential
  composition of theory \<open>ReceiveLoop\<close> gives; a memory limit without room for a packet blocks the receiver
  for ever, and so does an output that fails; an error of the decoder ends the process.
\<close>

subsection \<open>The socket\<close>

text \<open>
  The system: \<open>socket\<close>, \<open>inet_addr\<close>, whether \<open>bind\<close> and \<open>setsockopt\<close> succeed, and \<open>re_write k n\<close>, the result
  of the \<open>k\<close>-th \<open>write\<close>, of \<open>n\<close> bytes.
\<close>

record recv_env =
  re_socket :: int
  re_inet_addr :: "string \<Rightarrow> u32"
  re_bind :: "u32 \<Rightarrow> 16 word \<Rightarrow> bool"
  re_setsockopt :: "timeval \<Rightarrow> bool"
  re_write :: "nat \<Rightarrow> int \<Rightarrow> int"

text \<open>The second result is the list of the sockets left open.\<close>

definition hgapr_open_udp_socket :: "recv_env \<Rightarrow> string \<Rightarrow> 16 word \<Rightarrow> int \<times> int list" where
  "hgapr_open_udp_socket env a prt =
     (let sockfd = re_socket env
      in if sockfd = -1 then (-1, [])
         else if re_inet_addr env a = INADDR_NONE then (-1, [])
         else if \<not> re_bind env (re_inet_addr env a) prt then (-1, [])
         else (sockfd, [sockfd]))"

definition hgapr_set_socket_timeout :: "u64 \<Rightarrow> timeval" where
  "hgapr_set_socket_timeout tmo =
     \<lparr>tv_sec = int (unat (tmo div 1000000)), tv_usec = int (unat (tmo mod 1000000))\<rparr>"

subsection \<open>State\<close>

datatype net_pc =
    N_Open
  | N_Loop
  | N_Recv u64                 \<comment> \<open>slot reserved, waiting in \<open>recvfrom\<close>\<close>
  | N_Send u64 hgap_pkt_t      \<comment> \<open>slot filled\<close>
  | N_Pill int                 \<comment> \<open>at the label \<open>closing\<close>, with \<open>retval\<close>\<close>
  | N_Pill_Send u64 int
  | N_Done int

datatype decoder_pc =
    D_Peek
  | D_Ack u64 int              \<comment> \<open>packet decoded, with \<open>dec_ret\<close>\<close>
  | D_Send                     \<comment> \<open>chunk ready to be sent\<close>
  | D_Poison int               \<comment> \<open>about to poison \<open>chan_net2dec\<close>\<close>
  | D_Pill int
  | D_Done int

record 's recv_sys =
  rs_net2dec :: "sized_buf channel"
  rs_dec2out :: "sized_buf channel"
  rs_incoming :: "recvfrom_result list"   \<comment> \<open>what \<open>recvfrom\<close> will give\<close>
  rs_sockets :: "int list"                \<comment> \<open>open sockets\<close>
  rs_started :: bool
  rs_net :: net_pc
  rs_dec :: "'s hgap_decoder"
  rs_chunk :: sized_buf                   \<comment> \<open>\<open>chunk\<close> of \<open>decloop\<close>\<close>
  rs_decoder :: decoder_pc
  rs_writes :: nat
  rs_writer :: writer_state

subsection \<open>Steps\<close>

definition net_step ::
  "recv_env \<Rightarrow> 'f hgap_config \<Rightarrow> 's recv_sys \<Rightarrow> 's recv_sys outcome option" where
  "net_step env cfg s =
     (let chan = rs_net2dec s; mtu = unat (channel_elt_size chan - 16) in
      case rs_net s of
        N_Open \<Rightarrow>
          (case addr cfg of
             None \<Rightarrow> Some Undef
           | Some a \<Rightarrow>
               let (sockfd, fds) = hgapr_open_udp_socket env a (port cfg)
               in Some (Ret (s\<lparr>rs_sockets := fds, rs_net :=
                 if sockfd = -1 then N_Pill (err_num HGAP_ERR_NETWORK) else N_Loop\<rparr>)))
      | N_Loop \<Rightarrow>
          (case channel_reserve chan of
             Block \<Rightarrow> None
           | Done None \<Rightarrow> Some Exit
           | Done (Some slot) \<Rightarrow> Some (Ret (s\<lparr>rs_net := N_Recv slot\<rparr>)))
      | N_Recv slot \<Rightarrow>
          (case rs_incoming s of
             [] \<Rightarrow> None
           | Timed_out # rest \<Rightarrow> Some (Ret (s\<lparr>rs_incoming := rest, rs_sockets := [],
               rs_net := N_Pill (err_num HGAP_ERR_TIMEOUT)\<rparr>))
           | Recv_failed # rest \<Rightarrow> Some (Ret (s\<lparr>rs_incoming := rest, rs_sockets := [],
               rs_net := N_Pill (err_num HGAP_ERR_NETWORK)\<rparr>))
           | Datagram d # rest \<Rightarrow>
               let content = recv_into mtu (slot_content (ch_elts chan ! unat slot)) d;
                   sz = of_nat (length (take mtu d));
                   s' = s\<lparr>rs_incoming := rest, rs_net2dec :=
                     slot_write chan slot \<lparr>sb_size = sz, sb_data = Some content\<rparr>\<rparr>
               in Some (
                 obind (hgap_pkt_type content sz) (\<lambda>pkt_type.
                   if pkt_type = HGAP_PKT_BEGIN \<and> \<not> rs_started s
                   then CHK (re_setsockopt env (hgapr_set_socket_timeout (timeout cfg)))
                     (Ret (s'\<lparr>rs_started := True, rs_net := N_Send slot pkt_type\<rparr>))
                   else Ret (s'\<lparr>rs_net := N_Send slot pkt_type\<rparr>))))
      | N_Send slot pkt_type \<Rightarrow>
          (case channel_send_reserved chan (Some slot) of
             (ok, chan') \<Rightarrow> Some (Ret (
               let s' = s\<lparr>rs_net2dec := chan'\<rparr>
               in if \<not> ok then s'\<lparr>rs_sockets := [], rs_net := N_Pill (err_num HGAP_ERR_IPC)\<rparr>
                  else if pkt_type = HGAP_PKT_END
                  then s'\<lparr>rs_sockets := [], rs_net := N_Pill (err_num HGAP_SUCCESS)\<rparr>
                  else s'\<lparr>rs_net := N_Loop\<rparr>)))
      | N_Pill ret \<Rightarrow>
          (case channel_reserve chan of
             Block \<Rightarrow> None
           | Done None \<Rightarrow> Some (Ret (s\<lparr>rs_net := N_Done ret\<rparr>))
           | Done (Some slot) \<Rightarrow> Some (Ret (s\<lparr>rs_net2dec :=
               slot_write chan slot ((ch_elts chan ! unat slot)\<lparr>sb_data := None\<rparr>),
               rs_net := N_Pill_Send slot ret\<rparr>)))
      | N_Pill_Send slot ret \<Rightarrow>
          (case channel_send_reserved chan (Some slot) of
             (ok, chan') \<Rightarrow> Some (Ret (s\<lparr>rs_net2dec := chan',
               rs_net := N_Done (if ok then ret else err_num HGAP_ERR_IPC)\<rparr>)))
      | N_Done ret \<Rightarrow> None)"

text \<open>The buffer of \<open>xmalloc\<close> is taken to be zeroed, as in theory \<open>ReceiveLoop\<close>.\<close>

definition decloop_step :: "'s wirehair \<Rightarrow> 's recv_sys \<Rightarrow> 's recv_sys outcome option" where
  "decloop_step W s =
     (let chan_in = rs_net2dec s; chan_out = rs_dec2out s in
      case rs_decoder s of
        D_Peek \<Rightarrow>
          (case channel_peek chan_in of
             Block \<Rightarrow> None
           | Done None \<Rightarrow> Some (Ret (s\<lparr>rs_decoder := D_Pill (err_num HGAP_ERR_IPC)\<rparr>))
           | Done (Some slot) \<Rightarrow>
               let pkt = ch_elts chan_in ! unat slot
               in case sb_data pkt of
                    None \<Rightarrow> Some (Ret (s\<lparr>rs_decoder := D_Pill (err_num HGAP_SUCCESS)\<rparr>))
                  | Some raw \<Rightarrow> Some (
                      obind (hgap_decoder_read W (rs_dec s) raw (sb_size pkt)) (\<lambda>(dec_ret, dec).
                        Ret (s\<lparr>rs_dec := dec, rs_decoder := D_Ack slot dec_ret\<rparr>))))
      | D_Ack slot dec_ret \<Rightarrow>
          (case channel_ack chan_in (Some slot) of
             (ok, chan') \<Rightarrow>
               let s' = s\<lparr>rs_net2dec := chan'\<rparr>; len = of_int dec_ret :: u64
               in Some (
                 if \<not> ok then Ret (s'\<lparr>rs_decoder := D_Pill (err_num HGAP_ERR_IPC)\<rparr>)
                 else if dec_ret = 0 then Ret (s'\<lparr>rs_decoder := D_Peek\<rparr>)
                 else if dec_ret = - err_num HGAP_EOT
                 then Ret (s'\<lparr>rs_decoder := D_Pill (err_num HGAP_SUCCESS)\<rparr>)
                 else if dec_ret < 0 then Ret (s'\<lparr>rs_decoder := D_Poison (- dec_ret)\<rparr>)
                 else obind (hgap_decoder_emit W (rs_dec s) (replicate (unat len) 0) len)
                   (\<lambda>(emit_ret, dec, data).
                     if emit_ret = HGAP_SUCCESS
                     then Ret (s'\<lparr>rs_dec := dec, rs_decoder := D_Send,
                       rs_chunk := \<lparr>sb_size = len, sb_data = Some data\<rparr>\<rparr>)
                     else Ret (s'\<lparr>rs_dec := dec, rs_chunk := SBUF_NULL,
                       rs_decoder := D_Poison (err_num emit_ret)\<rparr>))))
      | D_Send \<Rightarrow>
          (case channel_send chan_out (rs_chunk s) of
             Block \<Rightarrow> None
           | Done (ok, chan') \<Rightarrow> Some (Ret (s\<lparr>rs_dec2out := chan', rs_decoder :=
               if ok then D_Peek else D_Pill (err_num HGAP_ERR_IPC)\<rparr>)))
      | D_Poison ret \<Rightarrow>
          Some (Ret (s\<lparr>rs_net2dec := channel_poison chan_in, rs_decoder := D_Pill ret\<rparr>))
      | D_Pill ret \<Rightarrow>
          (case channel_send chan_out ((rs_chunk s)\<lparr>sb_data := None\<rparr>) of
             Block \<Rightarrow> None
           | Done (ok, chan') \<Rightarrow> Some (Ret (s\<lparr>rs_dec2out := chan', rs_decoder := D_Done (
               if ok then ret else if ret = err_num HGAP_SUCCESS then err_num HGAP_ERR_IPC
               else ret)\<rparr>)))
      | D_Done ret \<Rightarrow> None)"

text \<open>One turn of the writer's loop; it has ended when it has a result.\<close>

definition writer_step :: "recv_env \<Rightarrow> 's recv_sys \<Rightarrow> 's recv_sys outcome option" where
  "writer_step env s =
     (if wr_ret (rs_writer s) \<noteq> Waiting then None
      else case channel_recv (rs_dec2out s) of
             Block \<Rightarrow> None
           | Done (ok, v, chan') \<Rightarrow>
               let chunk = (if ok then v else None);
                   n = (case chunk of Some b \<Rightarrow> sint (sb_size b) | None \<Rightarrow> 0)
               in Some (Ret (s\<lparr>rs_dec2out := chan', rs_writes := rs_writes s + 1,
                 rs_writer := writer [\<lparr>wt_chunk = chunk, wt_written = re_write env (rs_writes s) n\<rparr>]
                   (rs_writer s)\<rparr>)))"

datatype recv_thread = Net | Decoder | Writer

definition recv_thread_step ::
  "recv_env \<Rightarrow> 's wirehair \<Rightarrow> 'f hgap_config \<Rightarrow> recv_thread \<Rightarrow> 's recv_sys \<Rightarrow> 's recv_sys outcome option" where
  "recv_thread_step env W cfg i s =
     (case i of Net \<Rightarrow> net_step env cfg s | Decoder \<Rightarrow> decloop_step W s | Writer \<Rightarrow> writer_step env s)"

inductive recv_sys_step ::
  "recv_env \<Rightarrow> 's wirehair \<Rightarrow> 'f hgap_config \<Rightarrow> 's recv_sys \<Rightarrow> 's recv_sys \<Rightarrow> bool"
  for env W cfg where
  "recv_thread_step env W cfg i s = Some (Ret t) \<Longrightarrow> recv_sys_step env W cfg s t"

definition recv_sys_init ::
  "'f hgap_config \<Rightarrow> sized_buf \<Rightarrow> sized_buf \<Rightarrow> recvfrom_result list \<Rightarrow> 's recv_sys" where
  "recv_sys_init cfg junk junk' incoming =
     \<lparr>rs_net2dec = channel_new junk (receive_pkt_size (pkt_size cfg))
        (receive_pkt_chan_size (mem_limit cfg) (pkt_size cfg)),
      rs_dec2out = channel_new junk' 16 (receive_chunk_chan_size (mem_limit cfg)),
      rs_incoming = incoming, rs_sockets = [], rs_started = False, rs_net = N_Open,
      rs_dec = hgap_decoder_new, rs_chunk = SBUF_NULL, rs_decoder = D_Peek,
      rs_writes = 0, rs_writer = writer_start\<rparr>"

subsection \<open>What the decoder makes of a list of datagrams\<close>

text \<open>
  \<open>dec_run W raws dec ms\<close>: from \<open>dec\<close> the decoder takes the datagrams one by one, whatever lies behind them
  in their slots; it emits the messages \<open>ms\<close>, and the last datagram is the end of the transfer.
\<close>

fun dec_run :: "'s wirehair \<Rightarrow> bytes list \<Rightarrow> 's hgap_decoder \<Rightarrow> bytes list \<Rightarrow> bool" where
  "dec_run W [] dec ms \<longleftrightarrow> False"
| "dec_run W (raw # raws) dec ms \<longleftrightarrow>
     (\<forall>junk. \<exists>x dec'. hgap_decoder_read W dec (raw @ junk) (of_nat (length raw)) = Ret (x, dec') \<and>
        (x = - err_num HGAP_EOT \<and> raws = [] \<and> ms = [] \<or>
         x = 0 \<and> raws \<noteq> [] \<and> dec_run W raws dec' ms \<or>
         0 < x \<and> raws \<noteq> [] \<and> (\<exists>m ms' dec''. ms = m # ms' \<and> of_int x = (of_nat (length m) :: u64) \<and>
           hgap_decoder_emit W dec' (replicate (unat (of_int x :: u64)) 0) (of_int x) =
             Ret (HGAP_SUCCESS, dec'', m) \<and> dec_run W raws dec'' ms')))"

lemma decloop_out_grows:
  "decloop W pill sz ts st = Ret fin \<Longrightarrow> \<exists>os. dl_out fin = dl_out st @ os"
proof (induction ts arbitrary: sz st)
  case (Cons t ts)
  have closing: "\<exists>os. dl_out (dec_closing p z r st') = dl_out st' @ os"
    for p :: bool and z :: u64 and r :: int and st' :: "'a dec_thread"
    by (simp add: dec_closing_def)
  show ?case
    using Cons.prems closing
    by (auto simp: decloop.simps(2) Let_def obind_Ret_iff split: option.splits if_splits
        dest!: Cons.IH) (fastforce simp: dec_closing_def)+
qed simp

lemma decloop_one:
  assumes run: "decloop W True sz (packet_turn (raw, junk) # ts) st = Ret fin"
    and fin: "dl_ret st = Waiting" "\<not> dl_poisoned fin"
  shows "\<exists>x dec'. hgap_decoder_read W (dl_dec st) (raw @ junk) (of_nat (length raw)) = Ret (x, dec') \<and>
    (x = - err_num HGAP_EOT \<and> fin = dec_closing True sz (err_num HGAP_SUCCESS) (st\<lparr>dl_dec := dec'\<rparr>) \<or>
     x = 0 \<and> decloop W True sz ts (st\<lparr>dl_dec := dec'\<rparr>) = Ret fin \<or>
     0 < x \<and> (\<exists>m dec''.
       hgap_decoder_emit W dec' (replicate (unat (of_int x :: u64)) 0) (of_int x) =
         Ret (HGAP_SUCCESS, dec'', m) \<and>
       decloop W True (of_int x) ts (st\<lparr>dl_dec := dec'',
         dl_out := dl_out st @ [\<lparr>sb_size = of_int x, sb_data = Some m\<rparr>]\<rparr>) = Ret fin))"
  using run fin
  by (auto simp: decloop.simps(2) packet_turn_def dec_turn_of_def slot_buf_def Let_def obind_Ret_iff
      dec_closing_def split: if_splits)

lemma closing_not_waiting: "dl_ret (dec_closing p sz r st) \<noteq> Waiting"
  by (simp add: dec_closing_def)

definition decodes_to :: "'s wirehair \<Rightarrow> bytes list \<Rightarrow> u64 \<Rightarrow> 's dec_thread \<Rightarrow> bytes list \<Rightarrow> bool" where
  "decodes_to W raws sz st ms \<longleftrightarrow>
     dl_ret st = Waiting \<and> raws \<noteq> [] \<and>
     (\<forall>js. length js = length raws \<longrightarrow>
        (\<exists>fin sz'. decloop W True sz (map packet_turn (zip raws js)) st = Ret fin \<and>
          dl_ret fin \<noteq> Waiting \<and> \<not> dl_poisoned fin \<and>
          dl_out fin = dl_out st @ map data_buf ms @ [\<lparr>sb_size = sz', sb_data = None\<rparr>])) \<and>
     (\<forall>js. length js + 1 = length raws \<longrightarrow>
        (\<exists>fin. decloop W True sz (map packet_turn (zip raws js)) st = Ret fin \<and>
          dl_ret fin = Waiting \<and> \<not> dl_poisoned fin))"

lemma decodes_to_next:
  assumes run: "decodes_to W (raw # raws) sz st ms"
  shows "\<exists>x dec'. hgap_decoder_read W (dl_dec st) (raw @ junk) (of_nat (length raw)) = Ret (x, dec') \<and>
    (x = - err_num HGAP_EOT \<and> raws = [] \<and> ms = [] \<or>
     x = 0 \<and> decodes_to W raws sz (st\<lparr>dl_dec := dec'\<rparr>) ms \<or>
     0 < x \<and> (\<exists>m ms' dec''. ms = m # ms' \<and> of_int x = (of_nat (length m) :: u64) \<and>
       hgap_decoder_emit W dec' (replicate (unat (of_int x :: u64)) 0) (of_int x) =
         Ret (HGAP_SUCCESS, dec'', m) \<and>
       decodes_to W raws (of_int x) (st\<lparr>dl_dec := dec'', dl_out := dl_out st @ [data_buf m]\<rparr>) ms'))"
proof -
  let ?turns = "\<lambda>js. map packet_turn (zip raws js)"
  have st: "dl_ret st = Waiting" using run by (simp add: decodes_to_def)
  have full: "\<exists>fin sz'. decloop W True sz (packet_turn (raw, junk) # ?turns js) st = Ret fin \<and>
      dl_ret fin \<noteq> Waiting \<and> \<not> dl_poisoned fin \<and>
      dl_out fin = dl_out st @ map data_buf ms @ [\<lparr>sb_size = sz', sb_data = None\<rparr>]"
    if "length js = length raws" for js
    using run that unfolding decodes_to_def by (auto dest: spec [of _ "junk # js"])
  have part: "\<exists>fin. decloop W True sz (packet_turn (raw, junk) # ?turns js) st = Ret fin \<and>
      dl_ret fin = Waiting \<and> \<not> dl_poisoned fin"
    if "length js + 1 = length raws" for js
    using run that unfolding decodes_to_def by (auto dest: spec [of _ "junk # js"])
  have ends: "raws = []" if "hgap_decoder_read W (dl_dec st) (raw @ junk) (of_nat (length raw)) =
      Ret (- err_num HGAP_EOT, dec')" for dec'
  proof (rule ccontr)
    assume "raws \<noteq> []"
    then obtain fin where "decloop W True sz (packet_turn (raw, junk) # ?turns (tl (map (\<lambda>_. []) raws))) st = Ret fin"
      "dl_ret fin = Waiting" "\<not> dl_poisoned fin"
      using part [of "tl (map (\<lambda>_. []) raws)"] by (auto simp: Suc_diff_1 neq_Nil_conv)
    from decloop_one [OF this(1) st this(3)] this(2) that show False
      by (auto simp: dec_closing_def)
  qed
  obtain x dec' where rd: "hgap_decoder_read W (dl_dec st) (raw @ junk) (of_nat (length raw)) = Ret (x, dec')"
    using full [of "map (\<lambda>_. []) raws"] decloop_one [OF _ st] by fastforce
  note one = decloop_one [OF _ st, of W sz raw junk, unfolded rd outcome.inject prod.inject]
  let ?full = "map (\<lambda>_. []) raws :: bytes list"
  obtain fin sz' where fin: "decloop W True sz (packet_turn (raw, junk) # ?turns ?full) st = Ret fin"
    "dl_ret fin \<noteq> Waiting" "\<not> dl_poisoned fin"
    "dl_out fin = dl_out st @ map data_buf ms @ [\<lparr>sb_size = sz', sb_data = None\<rparr>]"
    using full [of ?full] by auto
  have more: "raws \<noteq> []" if "x \<noteq> - err_num HGAP_EOT"
    using one [OF fin(1,3)] fin(2) st that by (auto simp del: of_int_eq_iff)
  from one [OF fin(1,3)] consider (eot) "x = - err_num HGAP_EOT"
    "fin = dec_closing True sz (err_num HGAP_SUCCESS) (st\<lparr>dl_dec := dec'\<rparr>)"
    | (none) "x = 0" | (some) m dec'' where "0 < x"
      "hgap_decoder_emit W dec' (replicate (unat (of_int x :: u64)) 0) (of_int x) =
        Ret (HGAP_SUCCESS, dec'', m)"
      "decloop W True (of_int x) (?turns ?full) (st\<lparr>dl_dec := dec'',
        dl_out := dl_out st @ [\<lparr>sb_size = of_int x, sb_data = Some m\<rparr>]\<rparr>) = Ret fin"
    by blast
  then show ?thesis
  proof cases
    case eot
    then show ?thesis using rd ends fin(4) by (simp add: dec_closing_def)
  next
    case none
    have "\<exists>fin sz'. decloop W True sz (?turns js) (st\<lparr>dl_dec := dec'\<rparr>) = Ret fin \<and>
        dl_ret fin \<noteq> Waiting \<and> \<not> dl_poisoned fin \<and>
        dl_out fin = dl_out st @ map data_buf ms @ [\<lparr>sb_size = sz', sb_data = None\<rparr>]"
      if "length js = length raws" for js
      using full [OF that] one none by fastforce
    moreover have "\<exists>fin. decloop W True sz (?turns js) (st\<lparr>dl_dec := dec'\<rparr>) = Ret fin \<and>
        dl_ret fin = Waiting \<and> \<not> dl_poisoned fin" if "length js + 1 = length raws" for js
      using part [OF that] one none by fastforce
    ultimately have "decodes_to W raws sz (st\<lparr>dl_dec := dec'\<rparr>) ms"
      using st more none by (simp add: decodes_to_def)
    then show ?thesis using rd none by blast
  next
    case some
    let ?b = "\<lparr>sb_size = of_int x, sb_data = Some m\<rparr>"
    let ?st = "st\<lparr>dl_dec := dec'', dl_out := dl_out st @ [?b]\<rparr>"
    obtain os where "dl_out fin = dl_out ?st @ os" using decloop_out_grows [OF some(3)] by blast
    then obtain m' ms' where "ms = m' # ms'" "data_buf m' = ?b"
      using fin(4) by (cases ms) (auto simp: data_buf_def)
    then have ms: "ms = m # ms'" "?b = data_buf m" "of_int x = (of_nat (length m) :: u64)"
      by (auto simp: data_buf_def)
    have "\<exists>fin sz'. decloop W True (of_int x) (?turns js) ?st = Ret fin \<and>
        dl_ret fin \<noteq> Waiting \<and> \<not> dl_poisoned fin \<and>
        dl_out fin = dl_out ?st @ map data_buf ms' @ [\<lparr>sb_size = sz', sb_data = None\<rparr>]"
      if "length js = length raws" for js
      using full [OF that] one some(1,2) ms by fastforce
    moreover have "\<exists>fin. decloop W True (of_int x) (?turns js) ?st = Ret fin \<and>
        dl_ret fin = Waiting \<and> \<not> dl_poisoned fin" if "length js + 1 = length raws" for js
      using part [OF that] one some(1,2) by fastforce
    ultimately have "decodes_to W raws (of_int x) ?st ms'"
      using st more some(1) by (simp add: decodes_to_def)
    then have "decodes_to W raws (of_int x) (st\<lparr>dl_dec := dec'', dl_out := dl_out st @ [data_buf m]\<rparr>) ms'"
      by (simp only: ms(2))
    then show ?thesis using rd some(1,2) ms by blast
  qed
qed

lemma decodes_to_run: "decodes_to W raws sz st ms \<Longrightarrow> dec_run W raws (dl_dec st) ms"
proof (induction raws arbitrary: sz st ms)
  case Nil
  then show ?case by (simp add: decodes_to_def)
next
  case (Cons raw raws)
  have ne: "raws \<noteq> []" if "decodes_to W raws sz' st' ms'" for sz' st' ms'
    using that by (simp add: decodes_to_def)
  show ?case
    using decodes_to_next [OF Cons.prems] Cons.IH ne by simp (fastforce dest: Cons.IH)
qed

lemma transfer_dec_run:
  assumes wh: "wh_block_size W" "wh_sound W" and raws: "raws = pre @ body @ [fin]"
    and pre: "announces pre" and body: "chunks_stream W psz cs body" and fin: "ends fin"
    and cs: "list_all (wire_chunk_ok W psz) cs" "chunk_sequence cs"
  shows "dec_run W raws hgap_decoder_new (filter (\<lambda>m. m \<noteq> []) (map wc_msg cs))"
proof -
  let ?ms = "filter (\<lambda>m. m \<noteq> []) (map wc_msg cs)"
  have out: "concat (map (chunk_out \<circ> wc_msg) cs) = map data_buf ?ms"
    by (induction cs) (simp_all add: chunk_out_def)
  have "\<exists>fin sz'. decloop W True 0 (map packet_turn (zip raws js)) decloop_start = Ret fin \<and>
      dl_ret fin \<noteq> Waiting \<and> \<not> dl_poisoned fin \<and>
      dl_out fin = map data_buf ?ms @ [\<lparr>sb_size = sz', sb_data = None\<rparr>]"
    if "length js = length raws" for js
    using decloop_transfer [OF wh _ pre body fin cs, of "zip raws js" "[]"] that raws out by auto
  moreover have "\<exists>fin. decloop W True 0 (map packet_turn (zip raws js)) decloop_start = Ret fin \<and>
      dl_ret fin = Waiting \<and> \<not> dl_poisoned fin" if "length js + 1 = length raws" for js
  proof -
    have "zip raws js = zip (pre @ body) js"
      using that raws zip_append1 [of "pre @ body" "[fin]" js] by simp
    then show ?thesis
      using decloop_body [OF wh _ pre body cs, of "zip (pre @ body) js" "[]"] that raws
      by (auto simp: decloop_start_def)
  qed
  ultimately have "decodes_to W raws 0 decloop_start ?ms"
    using raws by (simp add: decodes_to_def decloop_start_def)
  from decodes_to_run [OF this] show ?thesis by (simp add: decloop_start_def)
qed

subsection \<open>The invariant of an undisturbed reception\<close>

text \<open>
  \<open>raws\<close> are the datagrams, the last one the first end packet; \<open>ms\<close> the messages the decoder emits. The
  counts \<open>r\<close>, \<open>a\<close>, \<open>e\<close>, \<open>d\<close> are the elements the network reader sent, the decoder acknowledged, the
  decoder sent and the writer received.
\<close>

definition recv_env_ok :: "recv_env \<Rightarrow> 'f hgap_config \<Rightarrow> bool" where
  "recv_env_ok env cfg \<longleftrightarrow>
     (\<exists>a. addr cfg = Some a \<and> fst (hgapr_open_udp_socket env a (port cfg)) \<noteq> -1) \<and>
     (\<forall>tv. re_setsockopt env tv)"

definition writes_everything :: "recv_env \<Rightarrow> bool" where
  "writes_everything env \<longleftrightarrow> (\<forall>k n. re_write env k n = n)"

definition raws_ok :: "u64 \<Rightarrow> bytes list \<Rightarrow> bool" where
  "raws_ok elt raws \<longleftrightarrow> raws \<noteq> [] \<and> list_all (\<lambda>raw. length raw \<le> unat (elt - 16)) raws \<and>
     (\<forall>k < length raws. ends (raws ! k) \<longleftrightarrow> Suc k = length raws)"

definition ring_ok :: "nat \<Rightarrow> sized_buf channel \<Rightarrow> bytes list \<Rightarrow> nat \<Rightarrow> nat \<Rightarrow> bool" where
  "ring_ok cap chan xs i j \<longleftrightarrow> channel_ok chan \<and> \<not> ch_poisoned chan \<and> channel_bound chan = cap \<and>
     i \<le> j \<and> list_all2 buf_is (channel_items chan) (map (token xs) [i..<j])"

definition to_come :: "bytes list \<Rightarrow> 's recv_sys \<Rightarrow> bool" where
  "to_come raws s \<longleftrightarrow> (\<exists>others. rs_incoming s = map Datagram raws @ others)"

definition net_ok :: "u64 \<Rightarrow> nat \<Rightarrow> bytes list \<Rightarrow> nat \<Rightarrow> 's recv_sys \<Rightarrow> bool" where
  "net_ok elt cap raws r s \<longleftrightarrow>
     ch_elt_size (rs_net2dec s) = elt \<and>
     (case rs_net s of
        N_Open \<Rightarrow> r = 0 \<and> to_come raws s
      | N_Loop \<Rightarrow> r < length raws \<and> to_come (drop r raws) s
      | N_Recv slot \<Rightarrow> r < length raws \<and> to_come (drop r raws) s \<and>
          slot = ch_wr_idx (rs_net2dec s) \<and> length (channel_items (rs_net2dec s)) < cap
      | N_Send slot ty \<Rightarrow> r < length raws \<and> to_come (drop (Suc r) raws) s \<and>
          slot = ch_wr_idx (rs_net2dec s) \<and> length (channel_items (rs_net2dec s)) < cap \<and>
          buf_is (ch_elts (rs_net2dec s) ! unat slot) (token raws r) \<and>
          (ty = HGAP_PKT_END \<longleftrightarrow> Suc r = length raws)
      | N_Pill ret \<Rightarrow> ret = 0 \<and> r = length raws \<and> rs_sockets s = []
      | N_Pill_Send slot ret \<Rightarrow> ret = 0 \<and> r = length raws \<and> rs_sockets s = [] \<and>
          slot = ch_wr_idx (rs_net2dec s) \<and> length (channel_items (rs_net2dec s)) < cap \<and>
          buf_is (ch_elts (rs_net2dec s) ! unat slot) (token raws r)
      | N_Done ret \<Rightarrow> ret = 0 \<and> r = Suc (length raws) \<and> rs_sockets s = [])"

text \<open>What a result of \<open>hgap_decoder_read\<close> on datagram \<open>a\<close> means, after \<open>e\<close> messages.\<close>

definition decoded ::
  "'s wirehair \<Rightarrow> bytes list \<Rightarrow> bytes list \<Rightarrow> nat \<Rightarrow> nat \<Rightarrow> int \<Rightarrow> 's hgap_decoder \<Rightarrow> bool" where
  "decoded W raws ms a e x dec \<longleftrightarrow>
     x = - err_num HGAP_EOT \<and> Suc a = length raws \<and> e = length ms \<or>
     x = 0 \<and> Suc a < length raws \<and> dec_run W (drop (Suc a) raws) dec (drop e ms) \<or>
     0 < x \<and> Suc a < length raws \<and> e < length ms \<and> of_int x = (of_nat (length (ms ! e)) :: u64) \<and>
       (\<exists>dec'. hgap_decoder_emit W dec (replicate (unat (of_int x :: u64)) 0) (of_int x) =
         Ret (HGAP_SUCCESS, dec', ms ! e) \<and> dec_run W (drop (Suc a) raws) dec' (drop (Suc e) ms))"

lemma dec_run_decoded:
  assumes run: "dec_run W (drop a raws) dec (drop e ms)" and a: "a < length raws" "e \<le> length ms"
  shows "\<exists>x dec'. hgap_decoder_read W dec (raws ! a @ junk) (of_nat (length (raws ! a))) = Ret (x, dec') \<and>
    decoded W raws ms a e x dec'"
proof -
  have d: "drop a raws = raws ! a # drop (Suc a) raws" using a(1) by (rule Cons_nth_drop_Suc [symmetric])
  have m: "e < length ms \<and> m = ms ! e \<and> ms' = drop (Suc e) ms" if "drop e ms = m # ms'" for m ms'
    using that by (metis Cons_nth_drop_Suc drop_eq_Nil list.distinct(1) list.inject not_less)
  obtain x dec' where rd: "hgap_decoder_read W dec (raws ! a @ junk) (of_nat (length (raws ! a))) = Ret (x, dec')"
    and "x = - err_num HGAP_EOT \<and> drop (Suc a) raws = [] \<and> drop e ms = [] \<or>
      x = 0 \<and> drop (Suc a) raws \<noteq> [] \<and> dec_run W (drop (Suc a) raws) dec' (drop e ms) \<or>
      0 < x \<and> drop (Suc a) raws \<noteq> [] \<and> (\<exists>m ms' dec''. drop e ms = m # ms' \<and>
        of_int x = (of_nat (length m) :: u64) \<and>
        hgap_decoder_emit W dec' (replicate (unat (of_int x :: u64)) 0) (of_int x) =
          Ret (HGAP_SUCCESS, dec'', m) \<and> dec_run W (drop (Suc a) raws) dec'' ms')"
    using run [unfolded d dec_run.simps(2), THEN spec, of junk] by (elim exE conjE) (rule that)
  then have "decoded W raws ms a e x dec'"
  proof (elim disjE exE conjE)
    fix m ms' dec''
    assume "drop e ms = m # ms'" "0 < x" "drop (Suc a) raws \<noteq> []"
      "of_int x = (of_nat (length m) :: u64)"
      "hgap_decoder_emit W dec' (replicate (unat (of_int x :: u64)) 0) (of_int x) =
        Ret (HGAP_SUCCESS, dec'', m)" "dec_run W (drop (Suc a) raws) dec'' ms'"
    then show ?thesis using m by (auto simp: decoded_def)
  qed (use a in \<open>auto simp: decoded_def\<close>)
  then show ?thesis using rd by blast
qed

definition decoder_ok ::
  "'s wirehair \<Rightarrow> bytes list \<Rightarrow> bytes list \<Rightarrow> nat \<Rightarrow> nat \<Rightarrow> nat \<Rightarrow> 's recv_sys \<Rightarrow> bool" where
  "decoder_ok W raws ms r a e s \<longleftrightarrow>
     (case rs_decoder s of
        D_Peek \<Rightarrow> a < length raws \<and> e \<le> length ms \<and> dec_run W (drop a raws) (rs_dec s) (drop e ms)
      | D_Ack slot x \<Rightarrow> a < r \<and> a < length raws \<and> e \<le> length ms \<and> slot = ch_rd_idx (rs_net2dec s) \<and>
          decoded W raws ms a e x (rs_dec s)
      | D_Send \<Rightarrow> a < length raws \<and> e < length ms \<and> rs_chunk s = data_buf (ms ! e) \<and>
          dec_run W (drop a raws) (rs_dec s) (drop (Suc e) ms)
      | D_Poison ret \<Rightarrow> False
      | D_Pill ret \<Rightarrow> ret = 0 \<and> a = length raws \<and> e = length ms
      | D_Done ret \<Rightarrow> ret = 0 \<and> a = length raws \<and> e = Suc (length ms))"

definition writer_ok :: "bytes list \<Rightarrow> nat \<Rightarrow> 's recv_sys \<Rightarrow> bool" where
  "writer_ok ms d s \<longleftrightarrow>
     (if d \<le> length ms then wr_ret (rs_writer s) = Waiting \<and> wr_file (rs_writer s) = concat (take d ms)
      else wr_ret (rs_writer s) = Retval 0 \<and> wr_file (rs_writer s) = concat ms)"

primrec net_rank :: "net_pc \<Rightarrow> nat" where
  "net_rank N_Open = 0"
| "net_rank N_Loop = 1"
| "net_rank (N_Recv slot) = 2"
| "net_rank (N_Send slot ty) = 3"
| "net_rank (N_Pill ret) = 1"
| "net_rank (N_Pill_Send slot ret) = 2"
| "net_rank (N_Done ret) = 0"

definition decoder_rank :: "decoder_pc \<Rightarrow> nat" where
  "decoder_rank pc = (case pc of D_Ack slot x \<Rightarrow> 1 | _ \<Rightarrow> 0)"

subsection \<open>A channel that carries a list of tokens\<close>

lemma ring_reserve:
  "ring_ok cap c xs i j \<Longrightarrow>
    channel_reserve c = (if length (channel_items c) < cap then Done (Some (ch_wr_idx c)) else Block)"
  by (auto simp: ring_ok_def channel_reserve_eq)

lemma ring_fill:
  assumes "ring_ok cap c xs i j"
  shows "ring_ok cap (slot_write c (ch_wr_idx c) v) xs i j"
    and "channel_items (slot_write c (ch_wr_idx c) v) = channel_items c"
    and "ch_elts (slot_write c (ch_wr_idx c) v) ! unat (ch_wr_idx c) = v"
  using assms by (simp_all add: ring_ok_def slot_write_reserved slot_write_nth)

lemma ring_push:
  assumes "ring_ok cap c xs i j" "length (channel_items c) < cap"
    and "buf_is (ch_elts c ! unat (ch_wr_idx c)) (token xs j)"
  shows "channel_send_reserved c (Some (ch_wr_idx c)) = (True, advance_wr c)"
    and "ring_ok cap (advance_wr c) xs i (Suc j)"
  using assms list_all2_send [where f = "token xs" and v = "ch_elts c ! unat (ch_wr_idx c)"]
  by (auto simp: ring_ok_def send_reserved_eq advance_wr_items)

lemma ring_send:
  assumes "ring_ok cap c xs i j"
  shows "length (channel_items c) < cap \<Longrightarrow> buf_is v (token xs j) \<Longrightarrow>
      \<exists>c'. channel_send c v = Done (True, c') \<and> ring_ok cap c' xs i (Suc j)"
    and "\<not> length (channel_items c) < cap \<Longrightarrow> channel_send c v = Block"
proof -
  have c: "channel_ok c" "\<not> ch_poisoned c" "channel_bound c = cap" "i \<le> j"
    and items: "list_all2 buf_is (channel_items c) (map (token xs) [i..<j])"
    using assms by (simp_all add: ring_ok_def)
  show "\<exists>c'. channel_send c v = Done (True, c') \<and> ring_ok cap c' xs i (Suc j)"
    if "length (channel_items c) < cap" "buf_is v (token xs j)"
    using channel_send_room [OF c(1,2), of v] c(3,4) that list_all2_send [where f = "token xs", OF items c(4) that(2)]
    by (auto simp: ring_ok_def)
  show "channel_send c v = Block" if "\<not> length (channel_items c) < cap"
    using channel_send_full [OF c(1,2)] channel_items_bound [OF c(1)] c(3) that by simp
qed

lemma ring_items:
  assumes "ring_ok cap c xs i j"
  shows "length (channel_items c) = j - i" "j - i \<le> cap"
  using assms channel_items_bound [of c] list_all2_tokens [of buf_is "channel_items c" "token xs" i j]
  by (auto simp: ring_ok_def)

lemma ring_peek:
  assumes "ring_ok cap c xs i j"
  shows "channel_peek c = (if i = j then Block else Done (Some (ch_rd_idx c)))"
  using assms ring_items(1) [OF assms] channel_peek_eq [of c] by (auto simp: ring_ok_def)

lemma ring_pop:
  assumes "ring_ok cap c xs i j" "i < j"
  shows "buf_is (ch_elts c ! unat (ch_rd_idx c)) (token xs i)"
    and "channel_ack c (Some (ch_rd_idx c)) = (True, advance_rd c)"
    and "ring_ok cap (advance_rd c) xs (Suc i) j"
proof -
  have c: "channel_ok c" "\<not> ch_poisoned c" "channel_bound c = cap"
    and items: "list_all2 buf_is (channel_items c) (map (token xs) [i..<j])"
    using assms by (simp_all add: ring_ok_def)
  have "map (token xs) [i..<j] = token xs i # map (token xs) [Suc i..<j]"
    using assms(2) by (simp add: upt_conv_Cons)
  then obtain v vs where vs: "channel_items c = v # vs" "buf_is v (token xs i)"
    "list_all2 buf_is vs (map (token xs) [Suc i..<j])"
    using items by (auto simp: list_all2_Cons2)
  then show "buf_is (ch_elts c ! unat (ch_rd_idx c)) (token xs i)"
    using channel_read_item(1) [OF c(1) vs(1)] by simp
  show "channel_ack c (Some (ch_rd_idx c)) = (True, advance_rd c)" by (rule ack_eq [OF c(1,2)])
  show "ring_ok cap (advance_rd c) xs (Suc i) j"
    using c vs(3) channel_read_item(2) [OF c(1) vs(1)] assms(2) by (simp add: ring_ok_def)
qed

lemma ring_recv:
  assumes "ring_ok cap c xs i j" "i < j"
  shows "\<exists>v. channel_recv c = Done (True, Some v, advance_rd c) \<and> buf_is v (token xs i)"
  using ring_peek [OF assms(1)] ring_pop(1,2) [OF assms] assms(2) by (simp add: channel_recv_def)

subsection \<open>The network reader keeps the invariant and moves on\<close>

lemma recv_whole: "length d \<le> mtu \<Longrightarrow> recv_into mtu slot d = d @ drop (length d) slot"
  by (simp add: recv_into_def)

lemma net_step_ok:
  assumes env: "recv_env_ok env cfg" and raws: "raws_ok elt raws"
    and inv: "net_ok elt cap raws r s" and ring: "ring_ok cap (rs_net2dec s) raws a r"
    and step: "net_step env cfg s = Some x"
  shows "\<exists>t r'. x = Ret t \<and> net_ok elt cap raws r' t \<and> ring_ok cap (rs_net2dec t) raws a r' \<and> r \<le> r' \<and>
    3 * r' + net_rank (rs_net t) = Suc (3 * r + net_rank (rs_net s)) \<and>
    ch_rd_idx (rs_net2dec t) = ch_rd_idx (rs_net2dec s) \<and>
    t = s\<lparr>rs_net2dec := rs_net2dec t, rs_incoming := rs_incoming t, rs_sockets := rs_sockets t,
      rs_started := rs_started t, rs_net := rs_net t\<rparr>"
proof -
  let ?c = "rs_net2dec s"
  have elt: "ch_elt_size ?c = elt" using inv by (simp add: net_ok_def)
  note fill = ring_fill [OF ring] and push = ring_push [OF ring]
  show ?thesis
  proof (cases "rs_net s")
    case N_Open
    obtain name fd fds where "addr cfg = Some name"
      "hgapr_open_udp_socket env name (port cfg) = (fd, fds)" "fd \<noteq> -1"
      using env by (metis recv_env_ok_def surjective_pairing)
    then show ?thesis
      using step inv ring raws N_Open
      by (auto simp: net_step_def Let_def net_ok_def raws_ok_def to_come_def)
  next
    case N_Loop
    then show ?thesis
      using step inv ring ring_reserve [OF ring]
      by (auto simp: net_step_def Let_def net_ok_def to_come_def split: if_splits)
  next
    case (N_Recv slot)
    then obtain others where r: "r < length raws" "rs_incoming s = map Datagram (drop r raws) @ others"
      "slot = ch_wr_idx ?c" "length (channel_items ?c) < cap"
      using inv by (auto simp: net_ok_def to_come_def)
    let ?d = "raws ! r"
    have d: "length ?d \<le> unat (elt - 16)" and e: "ends ?d \<longleftrightarrow> Suc r = length raws"
      using raws r(1) by (auto simp: raws_ok_def list_all_length)
    have len: "length ?d < 2 ^ 64" using d unsigned_less [of "elt - 16", where 'a = nat] by simp
    let ?content = "recv_into (unat (elt - 16)) (slot_content (ch_elts ?c ! unat slot)) ?d"
    have sz: "unat (of_nat (length ?d) :: u64) = length ?d" by (rule unat_of_length [OF len])
    have "hgap_pkt_type ?content (of_nat (length ?d)) = Ret (raw_type ?content (of_nat (length ?d)))"
      using sz recv_whole [OF d] by (simp add: hgap_pkt_type_eq raw_type_def)
    then have ty: "hgap_pkt_type ?content (of_nat (length ?d)) = Ret (raw_type ?d (of_nat (length ?d)))"
      using recv_whole [OF d] raw_type_prefix [OF sz] by simp
    have e': "raw_type ?d (of_nat (length ?d)) = HGAP_PKT_END \<longleftrightarrow> Suc r = length raws"
      using e len by (simp add: ends_def)
    have inc: "map Datagram (drop r raws) = Datagram ?d # map Datagram (drop (Suc r) raws)"
      using r(1) by (simp flip: Cons_nth_drop_Suc)
    have buf: "buf_is \<lparr>sb_size = of_nat (length ?d), sb_data = Some ?content\<rparr> (token raws r)"
      using r(1) recv_whole [OF d] by (simp add: buf_is_def token_def)
    show ?thesis
      using step N_Recv r inc ty e' buf env elt d fill
      by (auto simp: net_step_def Let_def channel_elt_size_def net_ok_def to_come_def recv_env_ok_def CHK_def
          split: if_splits)
  next
    case (N_Send slot ty)
    then show ?thesis
      using step inv ring push
      by (auto simp: net_step_def Let_def net_ok_def to_come_def split: if_splits intro!: exI [of _ "Suc r"])
  next
    case (N_Pill ret)
    then show ?thesis
      using step inv ring_reserve [OF ring] fill
      by (auto simp: net_step_def Let_def net_ok_def token_def buf_is_def split: if_splits)
  next
    case (N_Pill_Send slot ret)
    then show ?thesis
      using step inv push by (auto simp: net_step_def Let_def net_ok_def)
  next
    case (N_Done ret)
    then show ?thesis using step by (simp add: net_step_def)
  qed
qed

subsection \<open>The decoder and the writer\<close>

text \<open>The third argument of \<open>ring_ok\<close> for the second channel are the messages, the fourth and fifth its counts.\<close>

lemma data_buf_is: "buf_is (data_buf m) (Some m)"
  by (simp add: buf_is_def data_buf_def)

lemma decloop_step_ok:
  assumes inv: "decoder_ok W raws ms r a e s"
    and in_ring: "ring_ok cap (rs_net2dec s) raws a r"
    and out_ring: "ring_ok cap' (rs_dec2out s) ms d e"
    and step: "decloop_step W s = Some x"
  shows "\<exists>t a' e'. x = Ret t \<and> decoder_ok W raws ms r a' e' t \<and> ring_ok cap (rs_net2dec t) raws a' r \<and>
    ring_ok cap' (rs_dec2out t) ms d e' \<and>
    2 * a' + e' + decoder_rank (rs_decoder t) = Suc (2 * a + e + decoder_rank (rs_decoder s)) \<and>
    ch_wr_idx (rs_net2dec t) = ch_wr_idx (rs_net2dec s) \<and> ch_elts (rs_net2dec t) = ch_elts (rs_net2dec s) \<and>
    ch_elt_size (rs_net2dec t) = ch_elt_size (rs_net2dec s) \<and>
    length (channel_items (rs_net2dec t)) \<le> length (channel_items (rs_net2dec s)) \<and>
    t = s\<lparr>rs_net2dec := rs_net2dec t, rs_dec2out := rs_dec2out t, rs_dec := rs_dec t,
      rs_chunk := rs_chunk t, rs_decoder := rs_decoder t\<rparr>"
proof -
  let ?ci = "rs_net2dec s" and ?co = "rs_dec2out s"
  note peek = ring_peek [OF in_ring] and pop = ring_pop [OF in_ring] and snd = ring_send [OF out_ring]
  show ?thesis
  proof (cases "rs_decoder s")
    case D_Peek
    then have i: "a < length raws" "e \<le> length ms" "dec_run W (drop a raws) (rs_dec s) (drop e ms)"
      using inv by (simp_all add: decoder_ok_def)
    have ar: "a < r" using step D_Peek peek in_ring by (auto simp: decloop_step_def Let_def ring_ok_def split: if_splits)
    then obtain rest where buf: "sb_size (ch_elts ?ci ! unat (ch_rd_idx ?ci)) = of_nat (length (raws ! a))"
      "sb_data (ch_elts ?ci ! unat (ch_rd_idx ?ci)) = Some (raws ! a @ rest)"
      using pop(1) i(1) by (auto simp: token_def buf_is_def)
    obtain y dec where "hgap_decoder_read W (rs_dec s) (raws ! a @ rest) (of_nat (length (raws ! a))) = Ret (y, dec)"
      "decoded W raws ms a e y dec"
      using dec_run_decoded [OF i(3,1,2)] by blast
    then show ?thesis
      using step D_Peek i(1,2) ar buf in_ring out_ring peek
      by (intro exI [of _ "s\<lparr>rs_dec := dec, rs_decoder := D_Ack (ch_rd_idx ?ci) y\<rparr>"] exI [of _ a]
          exI [of _ e]) (simp add: decloop_step_def Let_def decoder_ok_def decoder_rank_def)
  next
    case (D_Ack slot y)
    then have i: "a < r" "a < length raws" "e \<le> length ms" "slot = ch_rd_idx ?ci"
      "decoded W raws ms a e y (rs_dec s)"
      using inv by (simp_all add: decoder_ok_def)
    have shorter: "length (channel_items (advance_rd ?ci)) \<le> length (channel_items ?ci)"
      using ring_items(1) [OF in_ring] ring_items(1) [OF pop(3) [OF i(1)]] by simp
    from i(5) consider "y = - err_num HGAP_EOT" "Suc a = length raws" "e = length ms"
      | "y = 0" "Suc a < length raws" "dec_run W (drop (Suc a) raws) (rs_dec s) (drop e ms)"
      | dec where "0 < y" "Suc a < length raws" "e < length ms" "of_int y = (of_nat (length (ms ! e)) :: u64)"
          "hgap_decoder_emit W (rs_dec s) (replicate (unat (of_int y :: u64)) 0) (of_int y) =
            Ret (HGAP_SUCCESS, dec, ms ! e)" "dec_run W (drop (Suc a) raws) dec (drop (Suc e) ms)"
      unfolding decoded_def by blast
    then show ?thesis
    proof cases
      case 1
      then show ?thesis
        using step D_Ack i pop(2,3) [OF i(1)] out_ring shorter
        by (intro exI [of _ "s\<lparr>rs_net2dec := advance_rd ?ci, rs_decoder := D_Pill 0\<rparr>"] exI [of _ "Suc a"]
            exI [of _ e]) (simp add: decloop_step_def Let_def decoder_ok_def decoder_rank_def)
    next
      case 2
      then show ?thesis
        using step D_Ack i pop(2,3) [OF i(1)] out_ring shorter
        by (intro exI [of _ "s\<lparr>rs_net2dec := advance_rd ?ci, rs_decoder := D_Peek\<rparr>"] exI [of _ "Suc a"]
            exI [of _ e]) (simp add: decloop_step_def Let_def decoder_ok_def decoder_rank_def)
    next
      case 3
      then show ?thesis
        using step D_Ack i pop(2,3) [OF i(1)] out_ring shorter
        by (intro exI [of _ "s\<lparr>rs_net2dec := advance_rd ?ci, rs_dec := dec, rs_decoder := D_Send,
              rs_chunk := data_buf (ms ! e)\<rparr>"] exI [of _ "Suc a"] exI [of _ e])
          (simp add: decloop_step_def Let_def decoder_ok_def decoder_rank_def data_buf_def)
    qed
  next
    case D_Send
    then have i: "a < length raws" "e < length ms" "rs_chunk s = data_buf (ms ! e)"
      "dec_run W (drop a raws) (rs_dec s) (drop (Suc e) ms)"
      using inv by (simp_all add: decoder_ok_def)
    have "length (channel_items ?co) < cap'"
      using step D_Send snd(2) by (rule_tac ccontr) (simp add: decloop_step_def)
    then obtain c' where "channel_send ?co (rs_chunk s) = Done (True, c')" "ring_ok cap' c' ms d (Suc e)"
      using snd(1) [of "rs_chunk s"] i data_buf_is [of "ms ! e"] by (auto simp: token_def)
    then show ?thesis
      using step D_Send i in_ring
      by (intro exI [of _ "s\<lparr>rs_dec2out := c', rs_decoder := D_Peek\<rparr>"] exI [of _ a] exI [of _ "Suc e"])
        (simp add: decloop_step_def Let_def decoder_ok_def decoder_rank_def)
  next
    case (D_Poison ret)
    then show ?thesis using inv by (simp add: decoder_ok_def)
  next
    case (D_Pill ret)
    then have i: "ret = 0" "a = length raws" "e = length ms" using inv by (simp_all add: decoder_ok_def)
    let ?pill = "(rs_chunk s)\<lparr>sb_data := None\<rparr>"
    have "length (channel_items ?co) < cap'"
      using step D_Pill snd(2) by (rule_tac ccontr) (simp add: decloop_step_def)
    then obtain c' where "channel_send ?co ?pill = Done (True, c')" "ring_ok cap' c' ms d (Suc e)"
      using snd(1) [of ?pill] i by (auto simp: token_def buf_is_def)
    then show ?thesis
      using step D_Pill i in_ring
      by (auto simp: decloop_step_def Let_def decoder_ok_def decoder_rank_def)
  next
    case (D_Done ret)
    then show ?thesis using step by (simp add: decloop_step_def)
  qed
qed

lemma writer_turn:
  assumes "buf_is b (Some m)" "length m < 2 ^ 63" "wr_ret st = Waiting"
  shows "\<exists>st'. writer [\<lparr>wt_chunk = Some b, wt_written = sint (sb_size b)\<rparr>] st = st' \<and>
    wr_ret st' = Waiting \<and> wr_file st' = wr_file st @ m"
  using assms sint_length [OF assms(2)] by (auto simp: buf_is_def Let_def)

lemma writer_step_ok:
  assumes env: "writes_everything env" and len: "list_all (\<lambda>m. length m < 2 ^ 63) ms"
    and inv: "writer_ok ms d s" and ring: "ring_ok cap' (rs_dec2out s) ms d e"
    and step: "writer_step env s = Some x"
  shows "\<exists>t. x = Ret t \<and> writer_ok ms (Suc d) t \<and> ring_ok cap' (rs_dec2out t) ms (Suc d) e \<and>
    d \<le> length ms \<and>
    t = s\<lparr>rs_dec2out := rs_dec2out t, rs_writes := rs_writes t, rs_writer := rs_writer t\<rparr>"
proof -
  have d: "d \<le> length ms" and w: "wr_ret (rs_writer s) = Waiting" "wr_file (rs_writer s) = concat (take d ms)"
    using inv step by (auto simp: writer_ok_def writer_step_def split: if_splits)
  have "d < e"
    using step w ring_peek [OF ring] ring
    by (auto simp: writer_step_def channel_recv_def ring_ok_def split: if_splits)
  from ring_recv [OF ring this] ring_pop(3) [OF ring this]
  obtain v where v: "channel_recv (rs_dec2out s) = Done (True, Some v, advance_rd (rs_dec2out s))"
    "buf_is v (token ms d)" "ring_ok cap' (advance_rd (rs_dec2out s)) ms (Suc d) e"
    by blast
  let ?w = "writer [\<lparr>wt_chunk = Some v, wt_written = sint (sb_size v)\<rparr>] (rs_writer s)"
  have "if Suc d \<le> length ms then wr_ret ?w = Waiting \<and> wr_file ?w = concat (take (Suc d) ms)
    else wr_ret ?w = Retval 0 \<and> wr_file ?w = concat ms"
  proof (cases "d < length ms")
    case True
    then show ?thesis
      using writer_turn [of v "ms ! d" "rs_writer s"] v(2) w len
      by (simp add: token_def list_all_length take_Suc_conv_app_nth)
  next
    case False
    then show ?thesis
      using v(2) w d by (simp add: token_def buf_is_def writer_closing_def)
  qed
  then show ?thesis
    using step v w env d
    by (auto simp: writer_step_def writer_ok_def writes_everything_def Let_def simp del: writer.simps)
qed

subsection \<open>The system\<close>

definition recv_sys_inv ::
  "'s wirehair \<Rightarrow> u64 \<Rightarrow> nat \<Rightarrow> nat \<Rightarrow> bytes list \<Rightarrow> bytes list \<Rightarrow> nat \<Rightarrow> nat \<Rightarrow> nat \<Rightarrow> nat \<Rightarrow> 's recv_sys \<Rightarrow> bool" where
  "recv_sys_inv W elt cap cap' raws ms r a e d s \<longleftrightarrow>
     net_ok elt cap raws r s \<and> ring_ok cap (rs_net2dec s) raws a r \<and>
     decoder_ok W raws ms r a e s \<and> ring_ok cap' (rs_dec2out s) ms d e"

lemma recv_sys_net:
  assumes env: "recv_env_ok env cfg" and raws: "raws_ok elt raws"
    and inv: "recv_sys_inv W elt cap cap' raws ms r a e d s" and step: "net_step env cfg s = Some x"
  shows "\<exists>t r'. x = Ret t \<and> recv_sys_inv W elt cap cap' raws ms r' a e d t \<and>
    3 * r' + net_rank (rs_net t) = Suc (3 * r + net_rank (rs_net s)) \<and>
    rs_decoder t = rs_decoder s \<and> rs_writer t = rs_writer s \<and> rs_writes t = rs_writes s"
proof -
  have i: "net_ok elt cap raws r s" "ring_ok cap (rs_net2dec s) raws a r"
    "decoder_ok W raws ms r a e s" "ring_ok cap' (rs_dec2out s) ms d e"
    using inv by (simp_all add: recv_sys_inv_def)
  from net_step_ok [OF env raws i(1,2) step] obtain t r' where t: "x = Ret t"
    "net_ok elt cap raws r' t" "ring_ok cap (rs_net2dec t) raws a r'" "r \<le> r'"
    "3 * r' + net_rank (rs_net t) = Suc (3 * r + net_rank (rs_net s))"
    "ch_rd_idx (rs_net2dec t) = ch_rd_idx (rs_net2dec s)"
    and eq: "t = s\<lparr>rs_net2dec := rs_net2dec t, rs_incoming := rs_incoming t, rs_sockets := rs_sockets t,
      rs_started := rs_started t, rs_net := rs_net t\<rparr>"
    by blast
  have same: "rs_dec2out t = rs_dec2out s" "rs_dec t = rs_dec s" "rs_chunk t = rs_chunk s"
    "rs_decoder t = rs_decoder s" "rs_writer t = rs_writer s" "rs_writes t = rs_writes s"
    using arg_cong [OF eq, of rs_dec2out] arg_cong [OF eq, of rs_dec] arg_cong [OF eq, of rs_chunk]
      arg_cong [OF eq, of rs_decoder] arg_cong [OF eq, of rs_writer] arg_cong [OF eq, of rs_writes]
    by simp_all
  have "decoder_ok W raws ms r' a e t"
    using i(3) t(4) unfolding decoder_ok_def same t(6) by (auto split: decoder_pc.splits)
  then show ?thesis using t same i(4) by (intro exI [of _ t] exI [of _ r']) (simp add: recv_sys_inv_def)
qed

lemma recv_sys_decode:
  assumes inv: "recv_sys_inv W elt cap cap' raws ms r a e d s" and step: "decloop_step W s = Some x"
  shows "\<exists>t a' e'. x = Ret t \<and> recv_sys_inv W elt cap cap' raws ms r a' e' d t \<and>
    2 * a' + e' + decoder_rank (rs_decoder t) = Suc (2 * a + e + decoder_rank (rs_decoder s)) \<and>
    rs_net t = rs_net s \<and> rs_writer t = rs_writer s \<and> rs_writes t = rs_writes s"
proof -
  have i: "net_ok elt cap raws r s" "ring_ok cap (rs_net2dec s) raws a r"
    "decoder_ok W raws ms r a e s" "ring_ok cap' (rs_dec2out s) ms d e"
    using inv by (simp_all add: recv_sys_inv_def)
  from decloop_step_ok [OF i(3,2,4) step] obtain t a' e' where t: "x = Ret t"
    "decoder_ok W raws ms r a' e' t" "ring_ok cap (rs_net2dec t) raws a' r"
    "ring_ok cap' (rs_dec2out t) ms d e'"
    "2 * a' + e' + decoder_rank (rs_decoder t) = Suc (2 * a + e + decoder_rank (rs_decoder s))"
    and chan: "ch_wr_idx (rs_net2dec t) = ch_wr_idx (rs_net2dec s)"
    "ch_elts (rs_net2dec t) = ch_elts (rs_net2dec s)"
    "ch_elt_size (rs_net2dec t) = ch_elt_size (rs_net2dec s)"
    "length (channel_items (rs_net2dec t)) \<le> length (channel_items (rs_net2dec s))"
    and eq: "t = s\<lparr>rs_net2dec := rs_net2dec t, rs_dec2out := rs_dec2out t, rs_dec := rs_dec t,
      rs_chunk := rs_chunk t, rs_decoder := rs_decoder t\<rparr>"
    by blast
  have same: "rs_net t = rs_net s" "rs_incoming t = rs_incoming s" "rs_sockets t = rs_sockets s"
    "rs_writer t = rs_writer s" "rs_writes t = rs_writes s"
    using arg_cong [OF eq, of rs_net] arg_cong [OF eq, of rs_incoming] arg_cong [OF eq, of rs_sockets]
      arg_cong [OF eq, of rs_writer] arg_cong [OF eq, of rs_writes]
    by simp_all
  have "net_ok elt cap raws r t"
    using i(1) chan(4) unfolding net_ok_def to_come_def same chan(1-3) by (auto split: net_pc.splits)
  then show ?thesis
    using t same by (intro exI [of _ t] exI [of _ a'] exI [of _ e']) (simp add: recv_sys_inv_def)
qed

lemma recv_sys_frame:
  assumes inv: "recv_sys_inv W elt cap cap' raws ms r a e d s"
    and eq: "t = s\<lparr>rs_dec2out := c, rs_writes := n, rs_writer := w\<rparr>"
    and ring: "ring_ok cap' c ms d' e"
  shows "recv_sys_inv W elt cap cap' raws ms r a e d' t"
proof -
  have same: "rs_net2dec t = rs_net2dec s" "rs_net t = rs_net s" "rs_incoming t = rs_incoming s"
    "rs_sockets t = rs_sockets s" "rs_dec t = rs_dec s" "rs_chunk t = rs_chunk s"
    "rs_decoder t = rs_decoder s" "rs_dec2out t = c"
    by (simp_all add: eq)
  show ?thesis
    using inv ring unfolding recv_sys_inv_def net_ok_def to_come_def decoder_ok_def same by simp
qed

lemma recv_sys_write:
  assumes env: "writes_everything env" "list_all (\<lambda>m. length m < 2 ^ 63) ms"
    and inv: "recv_sys_inv W elt cap cap' raws ms r a e d s" "writer_ok ms d s"
    and step: "writer_step env s = Some x"
  shows "\<exists>t. x = Ret t \<and> recv_sys_inv W elt cap cap' raws ms r a e (Suc d) t \<and> writer_ok ms (Suc d) t \<and>
    rs_net t = rs_net s \<and> rs_decoder t = rs_decoder s"
proof -
  have ring: "ring_ok cap' (rs_dec2out s) ms d e" using inv(1) by (simp add: recv_sys_inv_def)
  from writer_step_ok [OF env inv(2) ring step] obtain t where t: "x = Ret t" "writer_ok ms (Suc d) t"
    "ring_ok cap' (rs_dec2out t) ms (Suc d) e"
    and eq: "t = s\<lparr>rs_dec2out := rs_dec2out t, rs_writes := rs_writes t, rs_writer := rs_writer t\<rparr>"
    by blast
  have "rs_net t = rs_net s" "rs_decoder t = rs_decoder s"
    using arg_cong [OF eq, of rs_net] arg_cong [OF eq, of rs_decoder] by simp_all
  then show ?thesis using t recv_sys_frame [OF inv(1) eq t(3)] by blast
qed

definition recv_progress :: "nat \<Rightarrow> nat \<Rightarrow> nat \<Rightarrow> nat \<Rightarrow> 's recv_sys \<Rightarrow> nat" where
  "recv_progress r a e d s =
     3 * r + net_rank (rs_net s) + (2 * a + e + decoder_rank (rs_decoder s)) + d"

definition undisturbed_reception ::
  "recv_env \<Rightarrow> 'f hgap_config \<Rightarrow> u64 \<Rightarrow> bytes list \<Rightarrow> bytes list \<Rightarrow> bool" where
  "undisturbed_reception env cfg elt raws ms \<longleftrightarrow>
     recv_env_ok env cfg \<and> writes_everything env \<and> raws_ok elt raws \<and>
     list_all (\<lambda>m. length m < 2 ^ 63) ms"

text \<open>A state of an undisturbed reception, \<open>p\<close> steps after its start.\<close>

definition recv_ok ::
  "'s wirehair \<Rightarrow> u64 \<Rightarrow> nat \<Rightarrow> nat \<Rightarrow> bytes list \<Rightarrow> bytes list \<Rightarrow> nat \<Rightarrow> 's recv_sys \<Rightarrow> bool" where
  "recv_ok W elt cap cap' raws ms p s \<longleftrightarrow>
     (\<exists>r a e d. recv_sys_inv W elt cap cap' raws ms r a e d s \<and> writer_ok ms d s \<and>
        p = recv_progress r a e d s)"

lemma recv_ok_moves:
  assumes ok: "undisturbed_reception env cfg elt raws ms"
    and inv: "recv_ok W elt cap cap' raws ms p s"
    and step: "recv_thread_step env W cfg i s = Some x"
  shows "\<exists>t. x = Ret t \<and> recv_ok W elt cap cap' raws ms (Suc p) t"
proof -
  obtain r a e d where i: "recv_sys_inv W elt cap cap' raws ms r a e d s" "writer_ok ms d s"
    and p: "p = recv_progress r a e d s"
    using inv by (auto simp: recv_ok_def)
  note env = ok [unfolded undisturbed_reception_def]
  show ?thesis
  proof (cases i)
    case Net
    then have "net_step env cfg s = Some x" using step by (simp add: recv_thread_step_def)
    from recv_sys_net [OF _ _ i(1) this] env obtain t r' where
      "x = Ret t" "recv_sys_inv W elt cap cap' raws ms r' a e d t" "rs_writer t = rs_writer s"
      "3 * r' + net_rank (rs_net t) = Suc (3 * r + net_rank (rs_net s))" "rs_decoder t = rs_decoder s"
      by blast
    then show ?thesis
      using i(2) unfolding recv_ok_def p recv_progress_def
      by (intro exI [of _ t] conjI exI [of _ r'] exI [of _ a] exI [of _ e] exI [of _ d])
        (simp_all add: writer_ok_def)
  next
    case Decoder
    then have "decloop_step W s = Some x" using step by (simp add: recv_thread_step_def)
    from recv_sys_decode [OF i(1) this] obtain t a' e' where
      "x = Ret t" "recv_sys_inv W elt cap cap' raws ms r a' e' d t" "rs_writer t = rs_writer s"
      "2 * a' + e' + decoder_rank (rs_decoder t) = Suc (2 * a + e + decoder_rank (rs_decoder s))"
      "rs_net t = rs_net s"
      by blast
    then show ?thesis
      using i(2) unfolding recv_ok_def p recv_progress_def
      by (intro exI [of _ t] conjI exI [of _ r] exI [of _ a'] exI [of _ e'] exI [of _ d])
        (simp_all add: writer_ok_def)
  next
    case Writer
    then have "writer_step env s = Some x" using step by (simp add: recv_thread_step_def)
    from recv_sys_write [OF _ _ i this] env obtain t where
      "x = Ret t" "recv_sys_inv W elt cap cap' raws ms r a e (Suc d) t" "writer_ok ms (Suc d) t"
      "rs_net t = rs_net s" "rs_decoder t = rs_decoder s"
      by blast
    then show ?thesis
      unfolding recv_ok_def p recv_progress_def
      by (intro exI [of _ t] conjI exI [of _ r] exI [of _ a] exI [of _ e] exI [of _ "Suc d"]) simp_all
  qed
qed

lemma recv_ok_run:
  assumes "undisturbed_reception env cfg elt raws ms" "recv_ok W elt cap cap' raws ms p s"
    and "(recv_sys_step env W cfg ^^ k) s t"
  shows "recv_ok W elt cap cap' raws ms (p + k) t"
  using assms(3)
proof (induction k arbitrary: t)
  case 0
  then show ?case using assms(2) by simp
next
  case (Suc k)
  from Suc.prems obtain u where "(recv_sys_step env W cfg ^^ k) s u" "recv_sys_step env W cfg u t"
    by auto
  then show ?case
    using Suc.IH recv_ok_moves [OF assms(1)] by (fastforce elim: recv_sys_step.cases)
qed

lemma net_ok_bound: "net_ok elt cap raws r s \<Longrightarrow> 3 * r + net_rank (rs_net s) \<le> 3 * length raws + 3"
  by (cases "rs_net s") (simp_all add: net_ok_def)

lemma decoder_ok_bound:
  "decoder_ok W raws ms r a e s \<Longrightarrow>
    2 * a + e + decoder_rank (rs_decoder s) \<le> 2 * length raws + length ms + 1 \<and> e \<le> Suc (length ms)"
  by (cases "rs_decoder s") (simp_all add: decoder_ok_def decoder_rank_def)

lemma recv_ok_bound:
  assumes "recv_ok W elt cap cap' raws ms p s"
  shows "p \<le> 5 * length raws + 2 * length ms + 5"
proof -
  obtain r a e d where i: "recv_sys_inv W elt cap cap' raws ms r a e d s" and p: "p = recv_progress r a e d s"
    using assms by (auto simp: recv_ok_def)
  then have "d \<le> e" by (simp add: recv_sys_inv_def ring_ok_def)
  then show ?thesis
    using i p net_ok_bound [of elt cap raws r s] decoder_ok_bound [of W raws ms r a e s]
    by (simp add: recv_sys_inv_def recv_progress_def)
qed

definition recv_finished :: "bytes \<Rightarrow> 's recv_sys \<Rightarrow> bool" where
  "recv_finished file s \<longleftrightarrow> rs_net s = N_Done 0 \<and> rs_decoder s = D_Done 0 \<and>
     wr_ret (rs_writer s) = Retval 0 \<and> wr_file (rs_writer s) = file \<and> rs_sockets s = []"

lemma net_blocked:
  assumes "net_ok elt cap raws r s" "ring_ok cap (rs_net2dec s) raws a r" "net_step env cfg s = None"
  shows "length (channel_items (rs_net2dec s)) = cap \<and> r \<le> length raws \<or>
    rs_net s = N_Done 0 \<and> r = Suc (length raws) \<and> rs_sockets s = []"
proof -
  have le: "length (channel_items (rs_net2dec s)) \<le> cap" using ring_items [OF assms(2)] by simp
  show ?thesis
  proof (cases "rs_net s")
    case (N_Recv slot)
    then obtain d rest where "rs_incoming s = Datagram d # rest"
      using assms(1) by (cases "drop r raws") (auto simp: net_ok_def to_come_def)
    then show ?thesis using assms(3) N_Recv by (simp add: net_step_def Let_def)
  qed (use assms ring_reserve [OF assms(2)] le in
      \<open>auto simp: net_step_def Let_def net_ok_def split: if_splits option.splits prod.splits\<close>)
qed

lemma recv_ok_stuck:
  assumes inv: "recv_ok W elt cap cap' raws ms p s" and cap: "0 < cap" "0 < cap'"
    and stuck: "net_step env cfg s = None" "decloop_step W s = None" "writer_step env s = None"
  shows "recv_finished (concat ms) s"
proof -
  obtain r a e d where "recv_sys_inv W elt cap cap' raws ms r a e d s" and w: "writer_ok ms d s"
    using inv by (auto simp: recv_ok_def)
  then have n: "net_ok elt cap raws r s" and ci: "ring_ok cap (rs_net2dec s) raws a r"
    and dc: "decoder_ok W raws ms r a e s" and co: "ring_ok cap' (rs_dec2out s) ms d e"
    by (simp_all add: recv_sys_inv_def)
  have ar: "a \<le> r" and de: "d \<le> e" using ci co by (simp_all add: ring_ok_def)
  have "d = e"
  proof (cases "wr_ret (rs_writer s) = Waiting")
    case True
    then show ?thesis
      using stuck(3) ring_peek [OF co] ring_recv [OF co] de
      by (cases "d = e") (auto simp: writer_step_def Let_def simp del: writer.simps)
  next
    case False
    then show ?thesis using w de decoder_ok_bound [OF dc] by (auto simp: writer_ok_def split: if_splits)
  qed
  then have room: "length (channel_items (rs_dec2out s)) < cap'" using ring_items(1) [OF co] cap(2) by simp
  have dec: "rs_decoder s = D_Peek \<and> a = r \<and> a < length raws \<or>
      rs_decoder s = D_Done 0 \<and> a = length raws \<and> e = Suc (length ms)"
  proof (cases "rs_decoder s")
    case D_Peek
    then show ?thesis
      using stuck(2) dc ring_peek [OF ci]
      by (auto simp: decloop_step_def Let_def decoder_ok_def split: if_splits option.splits)
  next
    case D_Send
    then show ?thesis
      using stuck(2) dc ring_send(1) [OF co room, of "rs_chunk s"] data_buf_is [of "ms ! e"]
      by (auto simp: decloop_step_def decoder_ok_def token_def)
  next
    case (D_Pill ret)
    then show ?thesis
      using stuck(2) dc ring_send(1) [OF co room, of "(rs_chunk s)\<lparr>sb_data := None\<rparr>"]
      by (auto simp: decloop_step_def decoder_ok_def token_def buf_is_def)
  qed (use stuck(2) dc in \<open>auto simp: decloop_step_def decoder_ok_def Let_def split: prod.splits\<close>)
  have "rs_net s = N_Done 0 \<and> r = Suc (length raws) \<and> rs_sockets s = []"
    using net_blocked [OF n ci stuck(1)] ring_items(1) [OF ci] cap(1) dec by auto
  then show ?thesis
    using dec w \<open>d = e\<close> by (auto simp: recv_finished_def writer_ok_def)
qed

subsection \<open>The start\<close>

definition net_capacity :: "'f hgap_config \<Rightarrow> nat" where
  "net_capacity cfg = unat (receive_pkt_chan_size (mem_limit cfg) (pkt_size cfg))"

definition out_capacity :: "'f hgap_config \<Rightarrow> nat" where
  "out_capacity cfg = unat (receive_chunk_chan_size (mem_limit cfg))"

lemma receive_slots_fit:
  assumes "unat (pkt_size cfg) \<le> 1500"
  shows "unat (receive_pkt_size (pkt_size cfg)) = unat (pkt_size cfg) + 16"
    and "unat (receive_pkt_size (pkt_size cfg)) * Suc (net_capacity cfg) < 2 ^ 64"
    and "net_capacity cfg = (unat (mem_limit cfg) div 2) div (unat (pkt_size cfg) + 16)"
    and "16 * Suc (out_capacity cfg) < 2 ^ 64" and "256 \<le> out_capacity cfg"
proof -
  have m: "unat (mem_limit cfg) < 2 ^ 64"
    using unsigned_less [of "mem_limit cfg", where 'a = nat] by simp
  show p: "unat (receive_pkt_size (pkt_size cfg)) = unat (pkt_size cfg) + 16"
    using assms by (simp add: receive_pkt_size_def unat_word_ariths)
  show n: "net_capacity cfg = (unat (mem_limit cfg) div 2) div (unat (pkt_size cfg) + 16)"
    by (simp add: net_capacity_def receive_pkt_chan_size_def unat_div p)
  have "(unat (pkt_size cfg) + 16) * net_capacity cfg \<le> unat (mem_limit cfg) div 2"
    unfolding n by (rule times_div_less_eq_dividend)
  then show "unat (receive_pkt_size (pkt_size cfg)) * Suc (net_capacity cfg) < 2 ^ 64"
    using m assms unfolding p by simp
  have "unat (mem_limit cfg div 2 div HGAP_MAX_CHUNK_SIZE) = unat (mem_limit cfg) div 2 div unat HGAP_MAX_CHUNK_SIZE"
    by (simp add: unat_div)
  moreover have "unat (mem_limit cfg) div 2 div unat HGAP_MAX_CHUNK_SIZE < 2 ^ 59"
    using m by (intro less_mult_imp_div_less) (simp add: HGAP_MAX_CHUNK_SIZE_def HGAP_MAX_N_PKT_def HGAP_MAX_PKT_SIZE_def)
  ultimately show "16 * Suc (out_capacity cfg) < 2 ^ 64" "256 \<le> out_capacity cfg"
    by (auto simp: out_capacity_def receive_chunk_chan_size_def Let_def word_less_nat_alt not_less)
qed

lemma recv_sys_init_ring:
  assumes "unat (pkt_size cfg) \<le> 1500"
  shows "ring_ok (net_capacity cfg) (channel_new junk (receive_pkt_size (pkt_size cfg))
      (receive_pkt_chan_size (mem_limit cfg) (pkt_size cfg))) raws 0 0"
    and "ring_ok (out_capacity cfg) (channel_new junk' 16 (receive_chunk_chan_size (mem_limit cfg))) ms 0 0"
proof -
  note fit = receive_slots_fit [OF assms]
  show "ring_ok (net_capacity cfg) (channel_new junk (receive_pkt_size (pkt_size cfg))
      (receive_pkt_chan_size (mem_limit cfg) (pkt_size cfg))) raws 0 0"
    using channel_ok_new [of "receive_pkt_size (pkt_size cfg)"
        "receive_pkt_chan_size (mem_limit cfg) (pkt_size cfg)" junk] fit(1,2) channel_new_alive
    by (simp add: ring_ok_def net_capacity_def)
  show "ring_ok (out_capacity cfg) (channel_new junk' 16 (receive_chunk_chan_size (mem_limit cfg))) ms 0 0"
    using channel_ok_new [of 16 "receive_chunk_chan_size (mem_limit cfg)" junk'] fit(4) channel_new_alive
    by (simp add: ring_ok_def out_capacity_def)
qed

lemma recv_sys_init_ok:
  assumes psz: "unat (pkt_size cfg) \<le> 1500" and run: "dec_run W raws hgap_decoder_new ms"
  shows "recv_sys_inv W (receive_pkt_size (pkt_size cfg)) (net_capacity cfg) (out_capacity cfg) raws ms 0 0 0 0
      (recv_sys_init cfg junk junk' (map Datagram raws @ others))"
    and "writer_ok ms 0 (recv_sys_init cfg junk junk' (map Datagram raws @ others))"
    and "recv_ok W (receive_pkt_size (pkt_size cfg)) (net_capacity cfg) (out_capacity cfg) raws ms 0
      (recv_sys_init cfg junk junk' (map Datagram raws @ others))"
proof -
  have ne: "raws \<noteq> []" using run by (cases raws) simp_all
  show i: "recv_sys_inv W (receive_pkt_size (pkt_size cfg)) (net_capacity cfg) (out_capacity cfg) raws ms 0 0 0 0
      (recv_sys_init cfg junk junk' (map Datagram raws @ others))"
    using run ne recv_sys_init_ring [OF psz]
    by (auto simp: recv_sys_inv_def recv_sys_init_def net_ok_def decoder_ok_def to_come_def channel_new_def Let_def)
  show w: "writer_ok ms 0 (recv_sys_init cfg junk junk' (map Datagram raws @ others))"
    by (simp add: writer_ok_def recv_sys_init_def writer_start_def)
  show "recv_ok W (receive_pkt_size (pkt_size cfg)) (net_capacity cfg) (out_capacity cfg) raws ms 0
      (recv_sys_init cfg junk junk' (map Datagram raws @ others))"
    unfolding recv_ok_def using i w
    by (intro exI [of _ 0] conjI) (auto simp: recv_progress_def recv_sys_init_def decoder_rank_def)
qed

lemma delivered:
  assumes cfg: "hgap_check_config_sender resolves ferror cfg = HGAP_SUCCESS"
    and wh: "wh_block_size W" "wh_sound W" "wh_works W (pkt_size cfg - 24) (unat (send_buf_size cfg))"
    and few: "length (chunks_of (unat (send_buf_size cfg)) data) \<le> unat HGAP_FIRST_RESERVED"
    and del: "delivery W (pkt_size cfg) (chunks_from W (pkt_size cfg) (redund cfg) 0
      (chunks_of (unat (send_buf_size cfg)) data)) raws"
    and mtu: "list_all (\<lambda>raw. length raw \<le> unat (elt - 16)) raws"
  shows "raws_ok elt raws"
    and "dec_run W raws hgap_decoder_new (filter (\<lambda>m. m \<noteq> []) (chunks_of (unat (send_buf_size cfg)) data))"
proof -
  let ?n = "unat (send_buf_size cfg)"
  have psz: "24 < unat (pkt_size cfg)" "unat (pkt_size cfg) \<le> 1500"
    using cfg by (simp_all add: sender_config_SUCCESS)
  note n = send_buf_size_bounds(2,3) [OF cfg]
  have n': "?n \<le> 96000000" using n(2) by simp
  have "delivery W (pkt_size cfg) (take (length (chunks_of ?n data))
      (chunks_from W (pkt_size cfg) (redund cfg) 0 (chunks_of ?n data))) raws"
    using del by simp
  from delivery_stream [OF wh(3) psz n(1) n' few this] obtain pre body fin ds where
    raws: "raws = pre @ body @ [fin]" and pre: "announces pre" and fin: "ends fin"
    and body: "chunks_stream W (pkt_size cfg) ds body"
    and ds: "list_all (wire_chunk_ok W (pkt_size cfg)) ds" "chunk_sequence ds"
    and msgs: "map wc_msg ds = chunks_of ?n data"
    by auto
  show "dec_run W raws hgap_decoder_new (filter (\<lambda>m. m \<noteq> []) (chunks_of ?n data))"
    using transfer_dec_run [OF wh(1,2) raws pre body fin ds] by (simp add: msgs)
  define xs where "xs = pre @ body"
  have xs: "raws = xs @ [fin]" by (simp add: raws xs_def)
  have "list_all (\<lambda>raw. \<not> ends raw) xs"
    using announces_not_ends [OF pre] chunks_stream_not_ends [OF wh(1) body ds(1)] by (simp add: xs_def)
  then have "ends (raws ! k) \<longleftrightarrow> Suc k = length raws" if "k < length raws" for k
    using that fin unfolding xs
    by (cases "k = length xs") (auto simp: list_all_length nth_append)
  then show "raws_ok elt raws" using mtu raws by (simp add: raws_ok_def)
qed

lemma concat_nonempty: "concat (filter (\<lambda>m. m \<noteq> []) ms) = concat ms"
  by (induction ms) simp_all

text \<open>
  A reception of a transfer, \<open>k\<close> steps after its start; \<open>reception_stuck\<close> says what it is when nobody moves.
\<close>

lemma reception_ok:
  fixes cfg rcfg :: "'f hgap_config" and data :: bytes
  assumes "hgap_check_config_sender resolves ferror cfg = HGAP_SUCCESS"
    and "wh_block_size W" and "wh_sound W" and "wh_works W (pkt_size cfg - 24) (unat (send_buf_size cfg))"
  defines "pieces \<equiv> chunks_of (unat (send_buf_size cfg)) data"
  defines "ms \<equiv> filter (\<lambda>m. m \<noteq> []) pieces"
  assumes "length pieces \<le> unat HGAP_FIRST_RESERVED"
    and "delivery W (pkt_size cfg) (chunks_from W (pkt_size cfg) (redund cfg) 0 pieces) raws"
    and "list_all (\<lambda>raw. length raw \<le> unat (pkt_size rcfg)) raws" and "unat (pkt_size rcfg) \<le> 1500"
    and "2 * (unat (pkt_size rcfg) + 16) \<le> unat (mem_limit rcfg)"
    and "recv_env_ok env rcfg" and "writes_everything env"
    and "(recv_sys_step env W rcfg ^^ k) (recv_sys_init rcfg junk junk' (map Datagram raws @ others)) s"
  shows "undisturbed_reception env rcfg (receive_pkt_size (pkt_size rcfg)) raws ms"
    and "recv_ok W (receive_pkt_size (pkt_size rcfg)) (net_capacity rcfg) (out_capacity rcfg) raws ms k s"
    and "0 < net_capacity rcfg" and "0 < out_capacity rcfg"
proof -
  let ?elt = "receive_pkt_size (pkt_size rcfg)"
  note fit = receive_slots_fit [OF assms(10)]
  have mtu: "list_all (\<lambda>raw. length raw \<le> unat (?elt - 16)) raws"
    using assms(9,10) by (simp add: packet_slot)
  note del = delivered [OF assms(1-4) assms(7,8) [unfolded pieces_def] mtu, folded pieces_def, folded ms_def]
  note n = send_buf_size_bounds(2,3) [OF assms(1)]
  have len: "list_all (\<lambda>m. length m < 2 ^ 63) ms"
    using chunks_of_bound [OF n(1), of _ data] n(2) unfolding ms_def pieces_def
    by (fastforce simp: list_all_iff)
  show "0 < net_capacity rcfg" "0 < out_capacity rcfg"
    using assms(11) fit(5) unfolding fit(3) by (simp_all add: div_greater_zero_iff)
  show ok: "undisturbed_reception env rcfg ?elt raws ms"
    using assms(12,13) del(1) len by (simp add: undisturbed_reception_def)
  show "recv_ok W ?elt (net_capacity rcfg) (out_capacity rcfg) raws ms k s"
    using recv_ok_run [OF ok recv_sys_init_ok(3) [OF assms(10) del(2)] assms(14)] by simp
qed

lemma reception_stuck:
  assumes "undisturbed_reception env rcfg elt raws ms" and "recv_ok W elt cap cap' raws ms k s"
    and "0 < cap" "0 < cap'" and "\<nexists>t. recv_sys_step env W rcfg s t"
  shows "recv_finished (concat ms) s"
proof -
  have "recv_thread_step env W rcfg i s = None" for i
    using assms(5) recv_ok_moves [OF assms(1,2)] by (metis option.exhaust recv_sys_step.intros)
  from this [of Net] this [of Decoder] this [of Writer] show ?thesis
    by (intro recv_ok_stuck [OF assms(2-4)]) (simp_all add: recv_thread_step_def)
qed

lemma concat_pieces: "concat (filter (\<lambda>m. m \<noteq> []) (chunks_of n data)) = data"
  by (simp add: concat_nonempty concat_chunks_of)

subsection \<open>Properties\<close>

text \<open>C4: the receiver's three threads, run in any order over their two channels. The datagrams are
  what arrives of a transfer, up to the first end packet, then anything; the output takes all that is
  written, and the memory limit leaves room for one packet. A step that can be taken returns, their number is
  bounded, and when none can be taken, all three threads have ended with success, the socket is
  closed and the output is the sender's input, whatever the order.\<close>

theorem receive_threads_finish:
  fixes cfg rcfg :: "'f hgap_config" and data :: bytes
  assumes "hgap_check_config_sender resolves ferror cfg = HGAP_SUCCESS"
    and "wh_block_size W" and "wh_sound W" and "wh_works W (pkt_size cfg - 24) (unat (send_buf_size cfg))"
  defines "pieces \<equiv> chunks_of (unat (send_buf_size cfg)) data"
  assumes "length pieces \<le> unat HGAP_FIRST_RESERVED"
    and "delivery W (pkt_size cfg) (chunks_from W (pkt_size cfg) (redund cfg) 0 pieces) raws"
    and "list_all (\<lambda>raw. length raw \<le> unat (pkt_size rcfg)) raws" and "unat (pkt_size rcfg) \<le> 1500"
    and "2 * (unat (pkt_size rcfg) + 16) \<le> unat (mem_limit rcfg)"
    and "recv_env_ok env rcfg" and "writes_everything env"
    and "(recv_sys_step env W rcfg ^^ k) (recv_sys_init rcfg junk junk' (map Datagram raws @ others)) s"
  shows "k \<le> 5 * length raws + 2 * length pieces + 5 \<and>
    (\<forall>i x. recv_thread_step env W rcfg i s = Some x \<longrightarrow> (\<exists>t. x = Ret t)) \<and>
    ((\<nexists>t. recv_sys_step env W rcfg s t) \<longrightarrow> recv_finished data s)"
proof -
  note run = reception_ok [OF assms(1-4) assms(6,7) [unfolded pieces_def] assms(8-13), folded pieces_def]
  have ret: "\<exists>t. x = Ret t" if "recv_thread_step env W rcfg i s = Some x" for i x
    using recv_ok_moves [OF run(1,2) that] by blast
  have "length (filter (\<lambda>m. m \<noteq> []) pieces) \<le> length pieces" by simp
  then have bound: "k \<le> 5 * length raws + 2 * length pieces + 5"
    using recv_ok_bound [OF run(2)] by linarith
  have "recv_finished data s" if "\<nexists>t. recv_sys_step env W rcfg s t"
    using reception_stuck [OF run that] by (simp add: pieces_def concat_pieces)
  then show ?thesis using ret bound by blast
qed

text \<open>C32: the receiver's configuration is accepted with any memory limit. When half of it has no room for one
  slot, the first channel has none, and whatever arrives and in whatever order the threads run,
  the network reader gets no further than its first reservation: \<open>hgap_receive\<close> never returns.\<close>

theorem small_memory_limit_blocks_the_receiver:
  fixes cfg :: "'f hgap_config" and W :: "'s wirehair"
  assumes "hgap_check_config_receiver resolves ferror cfg = HGAP_SUCCESS"
    and "recv_env_ok env cfg" and "unat (pkt_size cfg) \<le> 1500"
    and "unat (mem_limit cfg) < 2 * (unat (pkt_size cfg) + 16)"
    and "(recv_sys_step env W cfg)\<^sup>*\<^sup>* (recv_sys_init cfg junk junk' incoming) s"
  shows "rs_net s = N_Open \<or> rs_net s = N_Loop \<and> (\<nexists>t. recv_sys_step env W cfg s t)"
proof -
  let ?init = "recv_sys_init cfg junk junk' incoming :: 's recv_sys"
  let ?ci = "rs_net2dec ?init" and ?co = "rs_dec2out ?init"
  have "net_capacity cfg = 0" using assms(4) by (simp add: receive_slots_fit(3) [OF assms(3)])
  then have ci: "ring_ok 0 ?ci [] 0 0" and co: "ring_ok (out_capacity cfg) ?co [] 0 0"
    using recv_sys_init_ring(1) [OF assms(3), of junk "[]"]
      recv_sys_init_ring(2) [OF assms(3), of junk' "[]"]
    by (simp_all add: recv_sys_init_def)
  have block: "channel_reserve ?ci = Block" "channel_peek ?ci = Block" "channel_recv ?co = Block"
    using ring_reserve [OF ci] ring_peek [OF ci] ring_peek [OF co] by (simp_all add: channel_recv_def)
  obtain a fd fds where open_ok: "addr cfg = Some a"
    "hgapr_open_udp_socket env a (port cfg) = (fd, fds)" "fd \<noteq> -1"
    using assms(2) by (metis recv_env_ok_def surjective_pairing)
  let ?opened = "?init\<lparr>rs_sockets := fds, rs_net := N_Loop\<rparr>"
  have fields: "rs_decoder ?init = D_Peek" "rs_net ?init = N_Open" "wr_ret (rs_writer ?init) = Waiting"
    by (simp_all add: recv_sys_init_def writer_start_def)
  have one: "t = ?opened" if "recv_sys_step env W cfg ?init t" for t
    using that block open_ok fields
    by (auto simp: recv_thread_step_def net_step_def decloop_step_def writer_step_def Let_def
        elim!: recv_sys_step.cases split: recv_thread.splits)
  have none: "\<not> recv_sys_step env W cfg ?opened t" for t
    using block fields
    by (auto simp: recv_thread_step_def net_step_def decloop_step_def writer_step_def Let_def
        elim!: recv_sys_step.cases split: recv_thread.splits)
  from assms(5) have "s = ?init \<or> s = ?opened"
    by (induction rule: rtranclp_induct) (auto dest: one simp: none)
  then show ?thesis using none fields by auto
qed

lemma failed_write_ends_the_writer:
  assumes "buf_is b (Some m)" "m \<noteq> []" "length m < 2 ^ 63" "w < int (length m)"
  shows "wr_ret (writer [\<lparr>wt_chunk = Some b, wt_written = w\<rparr>] st) \<noteq> Waiting"
  using assms sint_length [OF assms(3)] by (auto simp: buf_is_def Let_def writer_closing_def)

definition writer_failing ::
  "'s wirehair \<Rightarrow> u64 \<Rightarrow> nat \<Rightarrow> nat \<Rightarrow> bytes list \<Rightarrow> bytes list \<Rightarrow> nat \<Rightarrow> 's recv_sys \<Rightarrow> bool" where
  "writer_failing W elt cap cap' raws ms j s \<longleftrightarrow>
     (\<exists>r a e d. recv_sys_inv W elt cap cap' raws ms r a e d s \<and>
        (d \<le> j \<and> rs_writes s = d \<or> d \<le> Suc j \<and> wr_ret (rs_writer s) \<noteq> Waiting))"

lemma writer_failing_step:
  assumes env: "recv_env_ok env cfg" "\<forall>n > 0. re_write env j n < n" and raws: "raws_ok elt raws"
    and ms: "list_all (\<lambda>m. m \<noteq> [] \<and> length m < 2 ^ 63) ms" "j < length ms"
    and inv: "writer_failing W elt cap cap' raws ms j s"
    and step: "recv_thread_step env W cfg i s = Some (Ret t)"
  shows "writer_failing W elt cap cap' raws ms j t"
proof -
  obtain r a e d where inv': "recv_sys_inv W elt cap cap' raws ms r a e d s"
    and d: "d \<le> j \<and> rs_writes s = d \<or> d \<le> Suc j \<and> wr_ret (rs_writer s) \<noteq> Waiting"
    using inv by (auto simp: writer_failing_def)
  have co: "ring_ok cap' (rs_dec2out s) ms d e" using inv' by (simp add: recv_sys_inv_def)
  show ?thesis
  proof (cases i)
    case Net
    then have "net_step env cfg s = Some (Ret t)" using step by (simp add: recv_thread_step_def)
    from recv_sys_net [OF env(1) raws inv' this] obtain r' where
      "recv_sys_inv W elt cap cap' raws ms r' a e d t" "rs_writer t = rs_writer s" "rs_writes t = rs_writes s"
      by auto
    then show ?thesis
      using d unfolding writer_failing_def
      by (intro exI [of _ r'] exI [of _ a] exI [of _ e] exI [of _ d]) simp
  next
    case Decoder
    then have "decloop_step W s = Some (Ret t)" using step by (simp add: recv_thread_step_def)
    from recv_sys_decode [OF inv' this] obtain a' e' where
      "recv_sys_inv W elt cap cap' raws ms r a' e' d t" "rs_writer t = rs_writer s" "rs_writes t = rs_writes s"
      by auto
    then show ?thesis
      using d unfolding writer_failing_def
      by (intro exI [of _ r] exI [of _ a'] exI [of _ e'] exI [of _ d]) simp
  next
    case Writer
    then have step: "writer_step env s = Some (Ret t)" using step by (simp add: recv_thread_step_def)
    then have w: "wr_ret (rs_writer s) = Waiting" by (simp add: writer_step_def split: if_splits)
    then have dj: "d \<le> j" "rs_writes s = d" using d by auto
    have "d < e"
      using step w ring_peek [OF co] co
      by (auto simp: writer_step_def channel_recv_def ring_ok_def split: if_splits)
    from ring_recv [OF co this] obtain v where v: "channel_recv (rs_dec2out s) = Done (True, Some v, advance_rd (rs_dec2out s))"
      "buf_is v (token ms d)" by blast
    let ?w = "writer [\<lparr>wt_chunk = Some v, wt_written = re_write env d (sint (sb_size v))\<rparr>] (rs_writer s)"
    have t: "t = s\<lparr>rs_dec2out := advance_rd (rs_dec2out s), rs_writes := Suc d, rs_writer := ?w\<rparr>"
      using step w v dj(2) by (simp add: writer_step_def Let_def del: writer.simps)
    have "wr_ret ?w \<noteq> Waiting" if "d = j"
    proof -
      have m: "ms ! d \<noteq> []" "length (ms ! d) < 2 ^ 63" "buf_is v (Some (ms ! d))"
        using ms v(2) that by (auto simp: token_def list_all_length)
      then have "sint (sb_size v) = int (length (ms ! d))"
        using sint_length [OF m(2)] by (auto simp: buf_is_def)
      then show ?thesis
        using failed_write_ends_the_writer [OF m(3,1,2)] env(2) m(1) that by simp
    qed
    then have "Suc d \<le> j \<and> rs_writes t = Suc d \<or> Suc d \<le> Suc j \<and> wr_ret (rs_writer t) \<noteq> Waiting"
      using dj(1) t by (cases "d = j") (simp_all del: writer.simps)
    then show ?thesis
      using recv_sys_frame [OF inv' t ring_pop(3) [OF co \<open>d < e\<close>]]
      unfolding writer_failing_def by blast
  qed
qed

lemma length_pieces: "length data \<le> length (filter (\<lambda>m. m \<noteq> []) (chunks_of n data)) * n" if "0 < n"
proof -
  have "length (concat (filter (\<lambda>m. m \<noteq> []) ms)) \<le> length (filter (\<lambda>m. m \<noteq> []) ms) * n"
    if "\<forall>m \<in> set ms. length m \<le> n" for ms :: "'a list list"
    using that by (induction ms) auto
  from this [of "chunks_of n data"] show ?thesis
    using chunks_of_bound [OF that, of _ data] by (simp add: concat_nonempty concat_chunks_of)
qed

text \<open>C30: the writer ends at the first failed write without emptying or poisoning its channel. When the
  \<open>j\<close>-th write fails and more than \<open>j\<close> messages beyond the capacity of that channel
  follow, the decoder never ends, whatever the order of the threads: \<open>hgap_receive\<close> waits in
  \<open>pthread_join\<close> for ever and the failure is never reported.\<close>

theorem write_failure_strands_the_decoder:
  fixes cfg rcfg :: "'f hgap_config" and data :: bytes
  assumes "hgap_check_config_sender resolves ferror cfg = HGAP_SUCCESS"
    and "wh_block_size W" and "wh_sound W" and "wh_works W (pkt_size cfg - 24) (unat (send_buf_size cfg))"
  defines "pieces \<equiv> chunks_of (unat (send_buf_size cfg)) data"
  assumes "length pieces \<le> unat HGAP_FIRST_RESERVED"
    and "delivery W (pkt_size cfg) (chunks_from W (pkt_size cfg) (redund cfg) 0 pieces) raws"
    and "list_all (\<lambda>raw. length raw \<le> unat (pkt_size rcfg)) raws" and "unat (pkt_size rcfg) \<le> 1500"
    and "recv_env_ok env rcfg" and "\<forall>n > 0. re_write env j n < n"
    and "(j + out_capacity rcfg) * unat (send_buf_size cfg) < length data"
  shows "\<not> (\<exists>s ret. (recv_sys_step env W rcfg)\<^sup>*\<^sup>*
      (recv_sys_init rcfg junk junk' (map Datagram raws @ others)) s \<and> rs_decoder s = D_Done ret)"
proof -
  let ?elt = "receive_pkt_size (pkt_size rcfg)" and ?ms = "filter (\<lambda>m. m \<noteq> []) pieces"
  let ?failing = "writer_failing W ?elt (net_capacity rcfg) (out_capacity rcfg) raws ?ms j"
  let ?init = "recv_sys_init rcfg junk junk' (map Datagram raws @ others)"
  have mtu: "list_all (\<lambda>raw. length raw \<le> unat (?elt - 16)) raws"
    using assms(8,9) by (simp add: packet_slot)
  note del = delivered [OF assms(1-4) assms(6,7) [unfolded pieces_def] mtu, folded pieces_def]
  note n = send_buf_size_bounds(2,3) [OF assms(1)]
  have len: "list_all (\<lambda>m. m \<noteq> [] \<and> length m < 2 ^ 63) ?ms"
    using chunks_of_bound [OF n(1), of _ data] n(2) unfolding pieces_def by (fastforce simp: list_all_iff)
  have many: "j + out_capacity rcfg < length ?ms"
  proof -
    have "(j + out_capacity rcfg) * unat (send_buf_size cfg) < length ?ms * unat (send_buf_size cfg)"
      using assms(12) length_pieces [OF n(1), of data] unfolding pieces_def by (rule less_le_trans)
    then show ?thesis by (simp only: mult_less_cancel2)
  qed
  have "?failing s" if "(recv_sys_step env W rcfg)\<^sup>*\<^sup>* ?init s" for s
    using that
  proof (induction rule: rtranclp_induct)
    case base
    show ?case
      using recv_sys_init_ok(1) [OF assms(9) del(2), of junk junk' others] unfolding writer_failing_def
      by (intro exI [of _ 0]) (simp add: recv_sys_init_def)
  next
    case (step t u)
    show ?case
      using step.hyps(2) writer_failing_step [OF assms(10,11) del(1) len _ step.IH] many
      by (auto elim!: recv_sys_step.cases)
  qed
  moreover have "rs_decoder s \<noteq> D_Done ret" if failing: "?failing s" for s ret
  proof -
    obtain r a e d where "recv_sys_inv W ?elt (net_capacity rcfg) (out_capacity rcfg) raws ?ms r a e d s"
      "d \<le> Suc j"
      using failing by (auto simp: writer_failing_def)
    then show ?thesis
      using many ring_items(2) [of "out_capacity rcfg" "rs_dec2out s" ?ms d e]
      by (auto simp: recv_sys_inv_def decoder_ok_def)
  qed
  ultimately show ?thesis by blast
qed

definition decoder_failed :: "u64 \<Rightarrow> int \<Rightarrow> 's recv_sys \<Rightarrow> bool" where
  "decoder_failed slot x s \<longleftrightarrow> channel_ok (rs_net2dec s) \<and>
     (rs_decoder s = D_Ack slot x \<and> slot = ch_rd_idx (rs_net2dec s) \<and> \<not> ch_poisoned (rs_net2dec s) \<or>
      rs_decoder s = D_Poison (- x) \<or>
      ch_poisoned (rs_net2dec s) \<and> (rs_decoder s = D_Pill (- x) \<or> rs_decoder s = D_Done (- x)))"

lemma net_step_channel:
  assumes "net_step env cfg s = Some (Ret t)" "channel_ok (rs_net2dec s)"
  shows "channel_ok (rs_net2dec t) \<and> ch_poisoned (rs_net2dec t) = ch_poisoned (rs_net2dec s) \<and>
    ch_rd_idx (rs_net2dec t) = ch_rd_idx (rs_net2dec s) \<and> rs_decoder t = rs_decoder s"
proof -
  have send: "channel_ok c' \<and> ch_poisoned c' = ch_poisoned c \<and> ch_rd_idx c' = ch_rd_idx c"
    if "channel_send_reserved c v = (ok, c')" "channel_ok c" for c c' :: "sized_buf channel" and v ok
    using that advance_ok(1) [of c] advance_fields [of c]
    by (auto simp: channel_send_reserved_def advance_wr_def split: if_splits)
  show ?thesis
  proof (cases "rs_net s")
    case (N_Recv slot)
    then show ?thesis
      using assms
      by (auto simp: net_step_def Let_def obind_Ret_iff CHK_def
          split: list.splits recvfrom_result.splits if_splits)
  next
    case (N_Send slot ty)
    obtain ok c where c: "channel_send_reserved (rs_net2dec s) (Some slot) = (ok, c)"
      by (cases rule: prod.exhaust)
    then show ?thesis
      using assms N_Send send [OF c] by (auto simp: net_step_def Let_def split: if_splits)
  next
    case (N_Pill_Send slot ret)
    obtain ok c where c: "channel_send_reserved (rs_net2dec s) (Some slot) = (ok, c)"
      by (cases rule: prod.exhaust)
    then show ?thesis
      using assms N_Pill_Send send [OF c] by (auto simp: net_step_def Let_def split: if_splits)
  qed (use assms in \<open>auto simp: net_step_def Let_def split: option.splits attempt.splits prod.splits\<close>)
qed

lemma decoder_failed_step:
  assumes failed: "decoder_failed slot x s" and x: "x < 0" "x \<noteq> - err_num HGAP_EOT"
    and step: "recv_thread_step env W cfg i s = Some (Ret t)"
  shows "decoder_failed slot x t"
proof (cases i)
  case Net
  then have "net_step env cfg s = Some (Ret t)" using step by (simp add: recv_thread_step_def)
  from net_step_channel [OF this] show ?thesis using failed by (auto simp: decoder_failed_def)
next
  case Decoder
  then have step: "decloop_step W s = Some (Ret t)" using step by (simp add: recv_thread_step_def)
  have ok: "channel_ok (rs_net2dec s)" using failed by (simp add: decoder_failed_def)
  from failed consider "rs_decoder s = D_Ack slot x" "slot = ch_rd_idx (rs_net2dec s)"
      "\<not> ch_poisoned (rs_net2dec s)"
    | "rs_decoder s = D_Poison (- x)" | "ch_poisoned (rs_net2dec s)" "rs_decoder s = D_Pill (- x)"
    | "rs_decoder s = D_Done (- x)"
    by (auto simp: decoder_failed_def)
  then show ?thesis
  proof cases
    case 1
    then show ?thesis
      using step x ok ack_eq [OF ok] by (auto simp: decloop_step_def Let_def decoder_failed_def)
  next
    case 2
    then show ?thesis
      using step ok by (auto simp: decloop_step_def Let_def decoder_failed_def channel_poison_def channel_ok_def)
  next
    case 3
    then show ?thesis
      using step x ok by (auto simp: decloop_step_def Let_def decoder_failed_def
          split: attempt.splits if_splits)
  qed (use step in \<open>simp add: decloop_step_def\<close>)
next
  case Writer
  then have "writer_step env s = Some (Ret t)" using step by (simp add: recv_thread_step_def)
  then have "rs_net2dec t = rs_net2dec s \<and> rs_decoder t = rs_decoder s"
    by (auto simp: writer_step_def Let_def split: if_splits attempt.splits)
  then show ?thesis using failed by (auto simp: decoder_failed_def)
qed

text \<open>C31: when \<open>hgap_decoder_read\<close> reports an error, the decoder poisons its input channel and ends with
  that error. The network reader does not take this as an end: in every later state in which it is about to
  reserve a slot, \<open>CHK\<close> ends the whole process, and no error reaches the caller.\<close>

theorem decoder_error_ends_the_process:
  assumes "rs_decoder s = D_Ack slot x" and "x < 0" and "x \<noteq> - err_num HGAP_EOT"
    and "channel_ok (rs_net2dec s)" and "\<not> ch_poisoned (rs_net2dec s)"
    and "slot = ch_rd_idx (rs_net2dec s)" and "(recv_sys_step env W cfg)\<^sup>*\<^sup>* s t"
  shows "rs_decoder t \<in> {D_Ack slot x, D_Poison (- x), D_Pill (- x), D_Done (- x)} \<and>
    (rs_decoder t \<in> {D_Pill (- x), D_Done (- x)} \<and> rs_net t = N_Loop \<longrightarrow>
      net_step env cfg t = Some Exit)"
proof -
  have "decoder_failed slot x t"
    using assms(7)
  proof (induction rule: rtranclp_induct)
    case base
    then show ?case using assms(1,4-6) by (simp add: decoder_failed_def)
  next
    case (step t u)
    then show ?case by (auto elim!: recv_sys_step.cases intro: decoder_failed_step [OF _ assms(2,3)])
  qed
  then show ?thesis
    by (auto simp: decoder_failed_def net_step_def poisoned_ops)
qed

subsection \<open>Witnesses\<close>

primrec run_recv_threads ::
  "recv_env \<Rightarrow> 's wirehair \<Rightarrow> 'f hgap_config \<Rightarrow> recv_thread list \<Rightarrow> 's recv_sys \<Rightarrow> 's recv_sys option" where
  "run_recv_threads env W cfg [] s = Some s"
| "run_recv_threads env W cfg (i # is) s =
     (case recv_thread_step env W cfg i s of
        Some (Ret t) \<Rightarrow> run_recv_threads env W cfg is t
      | _ \<Rightarrow> None)"

lemma run_recv_threads_steps:
  "run_recv_threads env W cfg is s = Some t \<Longrightarrow> (recv_sys_step env W cfg ^^ length is) s t"
proof (induction "is" arbitrary: s)
  case (Cons i "is")
  then obtain u where "recv_thread_step env W cfg i s = Some (Ret u)" "run_recv_threads env W cfg is u = Some t"
    by (auto split: option.splits outcome.splits)
  then have "recv_sys_step env W cfg s u" "(recv_sys_step env W cfg ^^ length is) u t"
    using Cons.IH by (auto intro: recv_sys_step.intros)
  then show ?case by (simp only: list.size add_0_right add_Suc_right) (rule relpowp_Suc_I2)
qed simp

definition example_recv_env :: recv_env where
  "example_recv_env = \<lparr>re_socket = 3, re_inet_addr = (\<lambda>_. 0x0200000a), re_bind = (\<lambda>_ _. True),
     re_setsockopt = (\<lambda>_. True), re_write = (\<lambda>_ n. n)\<rparr>"

definition example_slot :: sized_buf where
  "example_slot = \<lparr>sb_size = 0, sb_data = Some (replicate 26 1)\<rparr>"

text \<open>Two slots for packets of 26 bytes, 256 for chunks.\<close>

abbreviation recv_example_config :: "string hgap_config" where
  "recv_example_config \<equiv> example_config\<lparr>mem_limit := 168\<rparr>"

definition recv_start :: "bytes list \<Rightarrow> cyc recv_sys" where
  "recv_start raws =
     \<lparr>rs_net2dec = \<lparr>ch_elt_size = 42, ch_capacity = 3, ch_poisoned = False,
        ch_elts = [example_slot, example_slot, example_slot], ch_wr_idx = 0, ch_rd_idx = 0\<rparr>,
      rs_dec2out = \<lparr>ch_elt_size = 16, ch_capacity = 257, ch_poisoned = False,
        ch_elts = replicate 257 SBUF_NULL, ch_wr_idx = 0, ch_rd_idx = 0\<rparr>,
      rs_incoming = map Datagram raws, rs_sockets = [], rs_started = False, rs_net = N_Open,
      rs_dec = hgap_decoder_new, rs_chunk = SBUF_NULL, rs_decoder = D_Peek,
      rs_writes = 0, rs_writer = writer_start\<rparr>"

lemma recv_start_init:
  "recv_sys_init recv_example_config example_slot SBUF_NULL (map Datagram raws) = recv_start raws"
  by (simp add: recv_sys_init_def recv_start_def channel_new_def example_config_def receive_pkt_size_def
      receive_pkt_chan_size_def receive_chunk_chan_size_def HGAP_MAX_CHUNK_SIZE_def Let_def
      HGAP_MAX_N_PKT_def HGAP_MAX_PKT_SIZE_def numeral_3_eq_3)

definition recv_run :: "bytes list \<Rightarrow> recv_thread list \<Rightarrow> cyc recv_sys option" where
  "recv_run raws is =
     run_recv_threads example_recv_env cyclic recv_example_config is (recv_start raws)"

lemma recv_run_steps:
  "recv_run raws is = Some s \<Longrightarrow>
    (recv_sys_step example_recv_env cyclic recv_example_config ^^ length is)
      (recv_sys_init recv_example_config example_slot SBUF_NULL (map Datagram raws)) s"
  by (simp add: recv_run_def recv_start_init run_recv_threads_steps)

text \<open>The network reader and the decoder run, the writer does not.\<close>

definition example_schedule :: "recv_thread list" where
  "example_schedule =
     [Net, Net, Net, Net, Decoder, Decoder, Net, Net, Net, Decoder, Decoder, Net, Net, Net, Decoder,
      Decoder, Decoder, Net, Net, Net, Decoder, Decoder, Net, Net, Decoder]"

lemma example_recv_run:
  "\<exists>s. recv_run example_received example_schedule = Some s \<and> rs_net s = N_Done 0 \<and>
     rs_decoder s = D_Done 0"
proof -
  have "map_option (\<lambda>s. (rs_net s, rs_decoder s)) (recv_run example_received example_schedule) =
      Some (N_Done 0, D_Done 0)"
    by code_simp
  then show ?thesis by auto
qed

text \<open>Of small chunks one packet each suffices.\<close>

definition first_packets :: "'s wirehair \<Rightarrow> u64 \<Rightarrow> 's wire_chunk list \<Rightarrow> bytes list" where
  "first_packets W psz cs = map (\<lambda>c. the (chunk_packet W psz (wc_num c) (wc_msg c) (wc_enc c) 0)) cs"

lemma first_packets_delivery:
  assumes "list_all (\<lambda>m. m \<noteq> [] \<and> length m \<le> unat psz - 24) ms" "unat psz \<le> 1500"
  shows "delivery W psz (chunks_from W psz (Fin 2) 0 ms)
    ([header_bytes hgap_header_begin] @ first_packets W psz (chunks_from W psz (Fin 2) 0 ms) @
     [header_bytes hgap_header_end])"
proof -
  have d: "is_double 2" unfolding is_double_def by code_simp
  have "list_all2 (arrives W psz) (chunks_from W psz (Fin 2) num ms)
      (map (\<lambda>raw. [raw]) (first_packets W psz (chunks_from W psz (Fin 2) num ms)))" for num
    using assms(1)
  proof (induction ms arbitrary: num)
    case (Cons m ms)
    then have m: "m \<noteq> []" "length m \<le> unat psz - 24" by simp_all
    let ?K = "n_packets (Fin 2) (chunk_payload psz m) (length m)" and ?E = "chunk_encoder W psz m"
    have "length m \<le> ?K * chunk_payload psz m"
      using n_packets_bounds(4) [of 2 "length m" "chunk_payload psz m"] m d assms(2)
      by (simp add: chunk_payload_def)
    then have "0 < ?K" using m(1) by (cases ?K) auto
    then have "0 \<in> (of_nat :: nat \<Rightarrow> u32) ` {0..<?K}" by (intro image_eqI [of _ _ 0]) simp_all
    moreover have "recoverable W psz m ?E [0]" using m by (simp add: recoverable_def)
    moreover have "chunk_stream W psz num m ?E [0] [the (chunk_packet W psz num m ?E 0)]"
      using m(2) by (intro stream_packet stream_end) (simp add: chunk_packet_def chunk_block_def)
    ultimately show ?case
      using Cons by (auto simp: arrives_def first_packets_def intro!: exI [of _ "[0]"])
  qed (simp add: first_packets_def)
  moreover have "announces [header_bytes hgap_header_begin]" "ends (header_bytes hgap_header_end)"
    by (simp_all add: announces_def noise_def ends_def raw_type_def)
  moreover have "concat (map (\<lambda>raw. [raw]) xs) = xs" for xs :: "bytes list" by (induction xs) simp_all
  ultimately show ?thesis
    unfolding delivery_def
    by (intro exI [of _ "[header_bytes hgap_header_begin]"] exI [of _ "header_bytes hgap_header_end"]
        exI [of _ "map (\<lambda>raw. [raw]) (first_packets W psz (chunks_from W psz (Fin 2) 0 ms))"]) simp
qed

lemma example_recv_env_ok: "recv_env_ok example_recv_env (example_config\<lparr>mem_limit := m\<rparr>)"
  by (simp add: recv_env_ok_def example_recv_env_def example_config_def hgapr_open_udp_socket_def
      INADDR_NONE_def)

theorem receive_threads_finish_witness:
  "\<exists>s. recv_run example_received example_schedule = Some s \<and> rs_net s = N_Done 0 \<and>
     rs_decoder s = D_Done 0 \<and> length example_schedule \<le> 27 \<and>
     (\<forall>i x. recv_thread_step example_recv_env cyclic recv_example_config i s = Some x \<longrightarrow>
        (\<exists>t. x = Ret t)) \<and>
     ((\<nexists>t. recv_sys_step example_recv_env cyclic recv_example_config s t) \<longrightarrow>
        recv_finished [7, 8, 9] s)"
proof -
  obtain s where s: "recv_run example_received example_schedule = Some s" "rs_net s = N_Done 0"
    "rs_decoder s = D_Done 0"
    using example_recv_run by blast
  have ms: "chunks_of 4 [7, 8, 9 :: u8] = [[7, 8, 9]]" by code_simp
  have works: "wh_works cyclic 2 4" by (auto simp: wh_works_def cyclic_def)
  have few: "1 \<le> unat HGAP_FIRST_RESERVED" by (simp add: HGAP_FIRST_RESERVED_def)
  have cfg: "pkt_size recv_example_config = 26" "mem_limit recv_example_config = 168"
    by (simp_all add: example_config_def)
  have mtu: "list_all (\<lambda>raw. length raw \<le> 26) example_received" by (simp add: example_received_def)
  have writes: "writes_everything example_recv_env"
    by (simp add: writes_everything_def example_recv_env_def)
  show ?thesis
    using receive_threads_finish [OF example_config_facts(1) cyclic_block_size cyclic_sound, of "[7, 8, 9]"
        example_received recv_example_config example_recv_env "length example_schedule" example_slot
        SBUF_NULL "[]" s]
      recv_run_steps [OF s(1)] s ms works few mtu writes example_recv_env_ok example_delivery
    by (simp add: example_config_facts cfg example_received_def)
qed

theorem small_memory_limit_blocks_the_receiver_witness:
  "\<exists>s. run_recv_threads example_recv_env cyclic (example_config\<lparr>mem_limit := 80\<rparr>) [Net]
      (recv_sys_init (example_config\<lparr>mem_limit := 80\<rparr>) example_slot SBUF_NULL
        (map Datagram example_received)) = Some s \<and>
    rs_net s = N_Loop \<and>
    (\<nexists>t. recv_sys_step example_recv_env cyclic (example_config\<lparr>mem_limit := 80\<rparr>) s t)"
proof -
  let ?cfg = "example_config\<lparr>mem_limit := 80\<rparr>"
  let ?init = "recv_sys_init ?cfg example_slot SBUF_NULL (map Datagram example_received) :: cyc recv_sys"
  let ?s = "?init\<lparr>rs_sockets := [3], rs_net := N_Loop\<rparr>"
  have run: "run_recv_threads example_recv_env cyclic ?cfg [Net] ?init = Some ?s"
    by (simp add: recv_thread_step_def net_step_def Let_def recv_sys_init_def example_config_def
        hgapr_open_udp_socket_def example_recv_env_def INADDR_NONE_def)
  have acc: "hgap_check_config_receiver (\<lambda>_. True) (\<lambda>_. False) ?cfg = HGAP_SUCCESS"
    by (simp add: hgap_check_config_receiver_def example_config_def)
  have cfg: "unat (pkt_size ?cfg) \<le> 1500" "unat (mem_limit ?cfg) < 2 * (unat (pkt_size ?cfg) + 16)"
    by (simp_all add: example_config_def)
  have "rs_net ?s \<noteq> N_Open" "rs_net ?s = N_Loop" by simp_all
  then show ?thesis
    using small_memory_limit_blocks_the_receiver [OF acc example_recv_env_ok cfg
        relpowp_imp_rtranclp [OF run_recv_threads_steps [OF run]]] run
    by blast
qed

definition one_packet_config :: "string hgap_config" where
  "one_packet_config = example_config\<lparr>n_pkt := 1\<rparr>"

definition failing_disk :: recv_env where
  "failing_disk = example_recv_env\<lparr>re_write := \<lambda>k n. -1\<rparr>"

theorem write_failure_strands_the_decoder_witness:
  "\<not> (\<exists>s ret. (recv_sys_step failing_disk cyclic recv_example_config)\<^sup>*\<^sup>*
      (recv_sys_init recv_example_config example_slot SBUF_NULL (map Datagram
        ([header_bytes hgap_header_begin] @
         first_packets cyclic 26 (chunks_from cyclic 26 (Fin 2) 0 (chunks_of 2 (replicate 519 7))) @
         [header_bytes hgap_header_end]))) s \<and> rs_decoder s = D_Done ret)"
proof -
  let ?ms = "chunks_of 2 (replicate 519 (7 :: u8))"
  let ?raws = "[header_bytes hgap_header_begin] @
    first_packets cyclic 26 (chunks_from cyclic 26 (Fin 2) 0 ?ms) @ [header_bytes hgap_header_end]"
  have ms: "list_all (\<lambda>m. m \<noteq> [] \<and> length m \<le> 2) ?ms" "length ?ms = 260" by code_simp+
  have cfg: "hgap_check_config_sender (\<lambda>_. True) (\<lambda>_. False) one_packet_config = HGAP_SUCCESS"
    "redund one_packet_config = Fin 2" "pkt_size one_packet_config = 26"
    "send_buf_size one_packet_config = 2" "pkt_size recv_example_config = 26"
    by (simp_all add: sender_config_SUCCESS one_packet_config_def example_config_def send_buf_size_def
        HGAP_HEADER_LEN_def)
  have works: "wh_works cyclic 2 2" by (auto simp: wh_works_def cyclic_def)
  have "list_all (\<lambda>raw. length raw \<le> 26) (first_packets cyclic 26 (chunks_from cyclic 26 (Fin 2) num ms))"
    if "list_all (\<lambda>m. m \<noteq> [] \<and> length m \<le> 2) ms" for ms :: "bytes list" and num
    using that
    by (induction ms arbitrary: num)
      (simp_all add: first_packets_def chunk_packet_def chunk_block_def header_bytes_def htobe64_def htobe32_def)
  from this [OF ms(1)] have mtu: "list_all (\<lambda>raw. length raw \<le> 26) ?raws" by simp
  have del: "delivery cyclic 26 (chunks_from cyclic 26 (Fin 2) 0 ?ms) ?raws"
    using first_packets_delivery [of 26 ?ms cyclic] ms(1) by simp
  have env: "recv_env_ok failing_disk recv_example_config" "\<forall>n > 0. re_write failing_disk 0 n < n"
    by (simp_all add: failing_disk_def example_recv_env_def example_config_def recv_env_ok_def
        hgapr_open_udp_socket_def INADDR_NONE_def)
  have cap: "out_capacity recv_example_config = 256"
    by (simp add: out_capacity_def receive_chunk_chan_size_def example_config_def HGAP_MAX_CHUNK_SIZE_def
        HGAP_MAX_N_PKT_def HGAP_MAX_PKT_SIZE_def Let_def)
  show ?thesis
    using write_failure_strands_the_decoder [OF cfg(1) cyclic_block_size cyclic_sound, of "replicate 519 7"
        ?raws recv_example_config failing_disk 0 example_slot SBUF_NULL "[]"] works del mtu env
    by (simp add: cfg ms(2) cap HGAP_FIRST_RESERVED_def)
qed

text \<open>A packet of chunk 1 arrives while chunk 0 is incomplete.\<close>

definition lossy_received :: "bytes list" where
  "lossy_received =
     [header_bytes hgap_header_begin, header_bytes (chunk_header 26 0 [7, 8, 9] 1) @ [9, 0],
      header_bytes (chunk_header 26 1 [7, 8, 9] 0) @ [7, 8]]"

definition lossy_schedule :: "recv_thread list" where
  "lossy_schedule =
     [Net, Net, Net, Net, Decoder, Decoder, Net, Net, Net, Decoder, Decoder, Net, Net, Net, Decoder]"

theorem decoder_error_ends_the_process_witness:
  "\<exists>s t. recv_run lossy_received lossy_schedule = Some s \<and>
     rs_decoder s = D_Ack 2 (- err_num HGAP_ERR_INCOMPLETE_CHUNK) \<and>
     run_recv_threads example_recv_env cyclic recv_example_config [Decoder, Decoder] s = Some t \<and>
     net_step example_recv_env recv_example_config t = Some Exit"
proof -
  let ?run = "run_recv_threads example_recv_env cyclic recv_example_config [Decoder, Decoder]"
  have "(case recv_run lossy_received lossy_schedule of
      None \<Rightarrow> None
    | Some s \<Rightarrow> map_option (\<lambda>t. (rs_decoder s, ch_poisoned (rs_net2dec s), ch_rd_idx (rs_net2dec s),
        channel_ok (rs_net2dec s), rs_decoder t, rs_net t)) (?run s)) =
    Some (D_Ack 2 (-14), False, 2, True, D_Pill 14, N_Loop)"
    by code_simp
  then obtain s t where s: "recv_run lossy_received lossy_schedule = Some s" "?run s = Some t"
    "rs_decoder s = D_Ack 2 (-14)" "\<not> ch_poisoned (rs_net2dec s)" "2 = ch_rd_idx (rs_net2dec s)"
    "channel_ok (rs_net2dec s)" "rs_decoder t = D_Pill 14" "rs_net t = N_Loop"
    by (auto split: option.splits)
  show ?thesis
    using decoder_error_ends_the_process [OF s(3) _ _ s(6,4,5)
        relpowp_imp_rtranclp [OF run_recv_threads_steps [OF s(2)]]] s(1,2,3,7,8)
    by (intro exI [of _ s] exI [of _ t]) simp
qed

end
