(* ===== verification/Transfer_System.thy ===== *)
theory Transfer_System
  imports Receive_System
begin

section \<open>Both programs at once\<close>

text \<open>
  The three threads of the sender of theory \<open>Send_System\<close> and its keepalive thread, the network, and the
  three threads of the receiver, interleaved in every way. The network delivers any datagram that is on the
  wire, as often and in whatever order it likes or not at all, and noise. \<open>tr_arrived\<close> is what it has
  delivered.

  The keepalive thread is the one of \<open>hgap_sender_new\<close>: it runs when the sender was made with a keepalive
  period. A turn of its loop is two steps, the test of the shared flag and, after the sleep, the send. Its
  datagrams are listed apart, in \<open>tr_keepalives\<close>, in the order of their sending. It sends through the
  sender and its limiter as the sender thread does, without a lock (theory \<open>Limiter_Threads\<close>), so that
  after its step the counters of the limiter and the number of readings of the clock are arbitrary: only
  the configured rate stays. \<open>hgap_sender_free\<close> joins it; here it may also send once more after the
  sender's step that clears the flag.
\<close>

datatype keepalive_pc =
    K_Test      \<comment> \<open>before the test of \<open>*cont\<close>\<close>
  | K_Send      \<comment> \<open>after it, asleep or about to send\<close>
  | K_Done

record 's transfer =
  tr_send :: "'s send_sys"
  tr_keepalive :: keepalive_pc
  tr_keepalives :: "bytes list"
  tr_arrived :: "bytes list"
  tr_recv :: "'s recv_sys"

definition tr_sender :: "'s transfer \<Rightarrow> hgap_sender" where
  "tr_sender s = sl_sender (ss_send (tr_send s))"

definition tr_wire :: "'s transfer \<Rightarrow> bytes list" where
  "tr_wire s = hs_wire (sl_sender (ss_send (tr_send s)))"

definition deliver :: "bytes \<Rightarrow> 's recv_sys \<Rightarrow> 's recv_sys" where
  "deliver d r = r\<lparr>rs_incoming := rs_incoming r @ [Datagram d]\<rparr>"

definition with_sender :: "hgap_sender \<Rightarrow> 's send_sys \<Rightarrow> 's send_sys" where
  "with_sender hs t = t\<lparr>ss_send := (ss_send t)\<lparr>sl_sender := hs\<rparr>\<rparr>"

text \<open>\<open>lm\<close> and \<open>reads\<close> are what the races leave in the limiter and in the count of readings.\<close>

definition keepalive_step ::
  "sender_env \<Rightarrow> hgap_limiter \<Rightarrow> nat \<Rightarrow> 's transfer \<Rightarrow> 's transfer outcome option" where
  "keepalive_step env lm reads s =
     (let hs = tr_sender s in
      case tr_keepalive s of
        K_Test \<Rightarrow> Some (Ret (s\<lparr>tr_keepalive := if hs_cont hs then K_Send else K_Done\<rparr>))
      | K_Send \<Rightarrow> Some (
          obind (keepalive_loop_thread env [True] hs) (\<lambda>hs'.
            let raced = hs'\<lparr>hs_wire := hs_wire hs,
                  hs_lim := lm\<lparr>hl_byterate := hl_byterate (hs_lim hs)\<rparr>, hs_reads := reads\<rparr>
            in Ret (s\<lparr>tr_send := with_sender raced (tr_send s), tr_keepalive := K_Test,
                 tr_keepalives := tr_keepalives s @ drop (length (hs_wire hs)) (hs_wire hs')\<rparr>)))
      | K_Done \<Rightarrow> None)"

inductive transfer_step ::
  "sender_env \<Rightarrow> recv_env \<Rightarrow> 's wirehair \<Rightarrow> 'f hgap_config \<Rightarrow> 'f hgap_config \<Rightarrow>
     's transfer \<Rightarrow> 's transfer \<Rightarrow> bool"
  for senv renv W cfg rcfg where
  sender_moves: "send_sys_step senv W cfg (tr_send s) t \<Longrightarrow>
    transfer_step senv renv W cfg rcfg s (s\<lparr>tr_send := t\<rparr>)"
| keepalive_moves: "keepalive_step senv lm reads s = Some (Ret t) \<Longrightarrow>
    transfer_step senv renv W cfg rcfg s t"
| receiver_moves: "recv_sys_step renv W rcfg (tr_recv s) t \<Longrightarrow>
    transfer_step senv renv W cfg rcfg s (s\<lparr>tr_recv := t\<rparr>)"
| network_delivers: "d \<in> set (tr_wire s) \<union> set (tr_keepalives s) \<or> noise d \<Longrightarrow>
    transfer_step senv renv W cfg rcfg s
      (s\<lparr>tr_arrived := tr_arrived s @ [d], tr_recv := deliver d (tr_recv s)\<rparr>)"

definition transfer_init ::
  "'f hgap_config \<Rightarrow> 'f hgap_config \<Rightarrow> sized_buf \<Rightarrow> 's enc_chunk option \<Rightarrow> sized_buf \<Rightarrow> sized_buf \<Rightarrow>
     hgap_sender \<Rightarrow> bytes \<Rightarrow> 's transfer" where
  "transfer_init cfg rcfg junk1 junk2 junk3 junk4 hs data =
     \<lparr>tr_send = send_sys_init cfg junk1 junk2 hs data,
      tr_keepalive = (if hs_cont hs then K_Test else K_Done), tr_keepalives = [],
      tr_arrived = [], tr_recv = recv_sys_init rcfg junk3 junk4 []\<rparr>"

text \<open>
  None of the six threads that transfer the data can move; the keepalive thread may, and the network may
  still repeat itself.
\<close>

definition threads_stuck ::
  "sender_env \<Rightarrow> recv_env \<Rightarrow> 's wirehair \<Rightarrow> 'f hgap_config \<Rightarrow> 'f hgap_config \<Rightarrow> 's transfer \<Rightarrow> bool" where
  "threads_stuck senv renv W cfg rcfg s \<longleftrightarrow>
     (\<nexists>t. send_sys_step senv W cfg (tr_send s) t) \<and> (\<nexists>t. recv_sys_step renv W rcfg (tr_recv s) t)"

subsection \<open>The receiver cannot tell when its datagrams arrive\<close>

text \<open>A step does not look behind the datagram it takes, so that more may follow from the start.\<close>

definition foreseen :: "recvfrom_result list \<Rightarrow> 's recv_sys \<Rightarrow> 's recv_sys" where
  "foreseen later r = r\<lparr>rs_incoming := rs_incoming r @ later\<rparr>"

lemma net_step_foreseen:
  assumes "net_step env cfg s = Some (Ret t)"
  shows "net_step env cfg (foreseen later s) = Some (Ret (foreseen later t))"
proof (cases "rs_net s")
  case (N_Recv slot)
  show ?thesis
  proof (cases "rs_incoming s")
    case Nil
    with assms N_Recv show ?thesis by (simp add: net_step_def)
  next
    case (Cons r rest)
    with assms N_Recv show ?thesis
      by (cases r) (auto simp: net_step_def foreseen_def Let_def CHK_def elim!: obind_RetE split: if_splits)
  qed
qed (use assms in \<open>auto simp: net_step_def foreseen_def Let_def
    split: attempt.splits option.splits if_splits prod.splits\<close>)

lemma decloop_step_foreseen:
  assumes "decloop_step W s = Some (Ret t)"
  shows "decloop_step W (foreseen later s) = Some (Ret (foreseen later t))"
proof (cases "rs_decoder s")
  case D_Peek
  with assms show ?thesis
    by (auto simp: decloop_step_def foreseen_def Let_def elim!: obind_RetE
        split: attempt.split_asm option.split_asm)
next
  case (D_Ack slot ret)
  with assms show ?thesis
    by (auto simp: decloop_step_def foreseen_def Let_def elim!: obind_RetE
        split: prod.split_asm if_split_asm)
qed (use assms in \<open>auto simp: decloop_step_def foreseen_def Let_def
    split: attempt.splits prod.splits\<close>)

lemma writer_step_foreseen:
  assumes "writer_step env s = Some (Ret t)"
  shows "writer_step env (foreseen later s) = Some (Ret (foreseen later t))"
  using assms
  by (auto simp: writer_step_def foreseen_def Let_def simp del: writer.simps
      split: attempt.splits if_split_asm prod.splits)

lemma recv_step_foreseen:
  assumes "recv_sys_step env W cfg s t"
  shows "recv_sys_step env W cfg (foreseen later s) (foreseen later t)"
proof -
  obtain i where "recv_thread_step env W cfg i s = Some (Ret t)"
    using assms by (auto elim: recv_sys_step.cases)
  then have "recv_thread_step env W cfg i (foreseen later s) = Some (Ret (foreseen later t))"
    by (cases i) (simp_all add: recv_thread_step_def net_step_foreseen decloop_step_foreseen
        writer_step_foreseen)
  then show ?thesis by (rule recv_sys_step.intros)
qed

lemma foreseen_init:
  "foreseen later (recv_sys_init cfg junk junk' incoming) = recv_sys_init cfg junk junk' (incoming @ later)"
  by (simp add: foreseen_def recv_sys_init_def)

lemma foreseen_deliver: "foreseen later (deliver d r) = foreseen (Datagram d # later) r"
  by (simp add: foreseen_def deliver_def)

lemma foreseen_Nil [simp]: "foreseen [] r = r"
  by (simp add: foreseen_def)

text \<open>A run of both programs is a run of a receiver that knows its datagrams from the start.\<close>

lemma keepalive_frame:
  assumes "keepalive_step env lm reads s = Some (Ret t)"
  shows "tr_arrived t = tr_arrived s \<and> tr_recv t = tr_recv s \<and>
    (\<exists>hs. tr_send t = with_sender hs (tr_send s))"
proof -
  have "with_sender (tr_sender s) (tr_send s) = tr_send s"
    by (simp add: with_sender_def tr_sender_def)
  then show ?thesis
    using assms by (auto simp: keepalive_step_def Let_def obind_Ret_iff split: keepalive_pc.splits) metis
qed

lemma transfer_receives:
  assumes "(transfer_step senv renv W cfg rcfg)\<^sup>*\<^sup>* (transfer_init cfg rcfg junk1 junk2 junk3 junk4 hs data) s"
  shows "(recv_sys_step renv W rcfg)\<^sup>*\<^sup>* (recv_sys_init rcfg junk3 junk4 (map Datagram (tr_arrived s) @ later))
      (foreseen later (tr_recv s))"
  using assms
proof (induction arbitrary: later rule: rtranclp_induct)
  case base
  then show ?case by (simp add: transfer_init_def foreseen_init)
next
  case (step s u)
  from step.hyps(2) show ?case
  proof cases
    case (sender_moves t)
    then show ?thesis using step.IH [of later] by simp
  next
    case (keepalive_moves lm reads)
    then show ?thesis using step.IH [of later] keepalive_frame by metis
  next
    case (receiver_moves t)
    then show ?thesis
      using step.IH [of later] recv_step_foreseen [of renv W rcfg "tr_recv s" t later]
      by (auto intro: rtranclp.rtrancl_into_rtrancl)
  next
    case (network_delivers d)
    then show ?thesis using step.IH [of "Datagram d # later"] by (simp add: foreseen_deliver)
  qed
qed

subsection \<open>The keepalive thread leaves the transfer alone\<close>

text \<open>What its send does to the sender, and that the invariant of the other threads does not see it.\<close>

lemma keepalive_turn:
  assumes "good_env env hs"
  shows "\<exists>hs'. keepalive_loop_thread env [True] hs = Ret hs' \<and>
    hs_wire hs' = hs_wire hs @ [header_bytes hgap_header_keepalive] \<and> hs_cont hs' = hs_cont hs"
proof -
  let ?pkt = "header_bytes hgap_header_keepalive"
  have "hgap_write_header hgap_header_keepalive (replicate 24 0) = Ret ?pkt"
    by (simp add: hgap_write_header_Ret_iff)
  moreover obtain hs' where "hgap_sender_send env hs ?pkt HGAP_HEADER_LEN = Ret (24, hs')"
    "hs_wire hs' = hs_wire hs @ [?pkt]" "hs_cont hs' = hs_cont hs"
    using send_ok [OF assms, of HGAP_HEADER_LEN ?pkt] by auto
  ultimately show ?thesis by (simp add: keepalive_loop_thread_def CHK_def)
qed

lemma with_sender_fields [simp]:
  "ss_in2enc (with_sender hs t) = ss_in2enc t" "ss_enc2net (with_sender hs t) = ss_enc2net t"
  "ss_file (with_sender hs t) = ss_file t" "ss_reader (with_sender hs t) = ss_reader t"
  "ss_enc (with_sender hs t) = ss_enc t" "ss_encoder (with_sender hs t) = ss_encoder t"
  "ss_sender (with_sender hs t) = ss_sender t"
  "ss_send (with_sender hs t) = (ss_send t)\<lparr>sl_sender := hs\<rparr>"
  by (simp_all add: with_sender_def)

lemma with_sender_inv:
  assumes "send_sys_inv env W cfg ms g t" and "good_env env hs"
    and "hs_wire hs = hs_wire (sl_sender (ss_send t))"
  shows "send_sys_inv env W cfg ms g (with_sender hs t)"
proof -
  have "reader_ok ms n r (with_sender hs t) = reader_ok ms n r t"
    "in_queue_ok ms g (with_sender hs t) = in_queue_ok ms g t"
    "encoder_ok W psz ms g (with_sender hs t) = encoder_ok W psz ms g t"
    "out_queue_ok W psz ms g (with_sender hs t) = out_queue_ok W psz ms g t" for n r psz
    unfolding reader_ok_def in_queue_ok_def encoder_ok_def out_queue_ok_def with_sender_fields by simp_all
  then show ?thesis
    using assms by (simp add: send_sys_inv_def sender_ok_def send_ready_def)
qed

definition keepalives_ok :: "'s transfer \<Rightarrow> bool" where
  "keepalives_ok s \<longleftrightarrow>
     list_all (\<lambda>d. d = header_bytes hgap_header_keepalive) (tr_keepalives s) \<and>
     ((\<exists>ret. ss_sender (tr_send s) = S_Done ret) \<longrightarrow> \<not> hs_cont (tr_sender s))"

lemma keepalive_step_ok:
  assumes "keepalive_step env lm reads s = Some x" and "send_sys_inv env W cfg ms g (tr_send s)"
    and "keepalives_ok s"
  shows "\<exists>t. x = Ret t \<and> send_sys_inv env W cfg ms g (tr_send t) \<and> keepalives_ok t"
proof -
  have env: "good_env env (tr_sender s)"
    using assms(2) by (simp add: send_sys_inv_def sender_ok_def send_ready_def tr_sender_def)
  show ?thesis
  proof (cases "tr_keepalive s")
    case K_Test
    then show ?thesis
      using assms by (auto simp: keepalive_step_def Let_def keepalives_ok_def tr_sender_def)
  next
    case K_Send
    obtain hs' where hs': "keepalive_loop_thread env [True] (tr_sender s) = Ret hs'"
      "hs_wire hs' = hs_wire (tr_sender s) @ [header_bytes hgap_header_keepalive]"
      "hs_cont hs' = hs_cont (tr_sender s)"
      using keepalive_turn [OF env] by blast
    then show ?thesis
      using assms K_Send env
      by (auto simp: keepalive_step_def Let_def keepalives_ok_def good_env_def tr_sender_def
          intro!: with_sender_inv)
  next
    case K_Done
    then show ?thesis using assms(1) by (simp add: keepalive_step_def)
  qed
qed

lemma sender_end_clears: "sender_end ret s = Ret t \<Longrightarrow> \<not> hs_cont (sl_sender (ss_send t))"
  by (auto simp: sender_end_def hgap_sender_free_def split: if_split_asm)

lemma sender_step_clears:
  assumes "sender_step env W wanted psz s = Some (Ret t)" and "ss_sender t = S_Done ret"
  shows "\<not> hs_cont (sl_sender (ss_send t))"
proof (cases "ss_sender s")
  case S_Start
  with assms show ?thesis
    by (auto simp: sender_step_def Let_def dest!: sender_end_clears elim!: obind_RetE split: if_split_asm)
next
  case S_Recv
  with assms show ?thesis
    by (auto simp: sender_step_def Let_def dest!: sender_end_clears elim!: obind_RetE
        split: attempt.split_asm option.split_asm if_split_asm)
next
  case S_Teardown
  with assms show ?thesis
    by (auto simp: sender_step_def Let_def dest!: sender_end_clears elim!: obind_RetE)
next
  case (S_Done ret)
  with assms show ?thesis by (simp add: sender_step_def)
qed

lemma reader_step_sender:
  assumes "reader_step n s = Some (Ret t)"
  shows "ss_sender t = ss_sender s" "ss_send t = ss_send s"
  using assms
  by (auto simp: reader_step_def Let_def split: reader_pc.split_asm attempt.split_asm option.split_asm
      prod.split_asm if_split_asm)

lemma encoder_step_sender:
  assumes "encoder_step W s = Some (Ret t)"
  shows "ss_sender t = ss_sender s" "ss_send t = ss_send s"
  using assms
  by (auto simp: encoder_step_def Let_def elim!: obind_RetE split: encoder_pc.split_asm
      attempt.split_asm option.split_asm prod.split_asm)

lemma send_step_clears_flag:
  assumes "send_sys_step env W cfg s t"
    and "(\<exists>ret. ss_sender s = S_Done ret) \<longrightarrow> \<not> hs_cont (sl_sender (ss_send s))"
  shows "(\<exists>ret. ss_sender t = S_Done ret) \<longrightarrow> \<not> hs_cont (sl_sender (ss_send t))"
  using assms(1)
proof cases
  case read_step
  then show ?thesis using assms(2) by (simp add: reader_step_sender)
next
  case encode_step
  then show ?thesis using assms(2) by (simp add: encoder_step_sender)
next
  case send_step
  then show ?thesis using sender_step_clears by blast
qed

lemma transfer_sends:
  assumes "(transfer_step senv renv W cfg rcfg)\<^sup>*\<^sup>* (transfer_init cfg rcfg junk1 junk2 junk3 junk4 hs data) s"
    and ok: "undisturbed senv W cfg ms"
    and init: "send_sys_inv senv W cfg ms g (send_sys_init cfg junk1 junk2 hs data)"
  shows "(\<exists>g'. send_sys_inv senv W cfg ms g' (tr_send s)) \<and> keepalives_ok s"
  using assms(1)
proof (induction rule: rtranclp_induct)
  case base
  then show ?case
    using init by (auto simp: transfer_init_def keepalives_ok_def send_sys_init_def)
next
  case (step s u)
  then obtain g' where g': "send_sys_inv senv W cfg ms g' (tr_send s)" "keepalives_ok s" by blast
  from step.hyps(2) show ?case
  proof cases
    case (sender_moves t)
    then have "\<exists>g. send_sys_inv senv W cfg ms g t"
      using send_sys_step_inv [OF ok g'(1)] by blast
    moreover have "keepalives_ok u"
      using g'(2) send_step_clears_flag [OF sender_moves(2)] sender_moves(1)
      by (simp add: keepalives_ok_def tr_sender_def)
    ultimately show ?thesis using sender_moves(1) by simp
  next
    case (keepalive_moves lm reads)
    then show ?thesis using keepalive_step_ok [OF keepalive_moves g'] by auto
  next
    case (receiver_moves t)
    then show ?thesis using g' by (auto simp: keepalives_ok_def tr_sender_def)
  next
    case (network_delivers d)
    then show ?thesis using g' by (auto simp: keepalives_ok_def tr_sender_def)
  qed
qed

subsection \<open>The type of what is sent\<close>

text \<open>A datagram the parser accepts, that announces just what it carries and fits the packet size.\<close>

definition well_formed :: "u64 \<Rightarrow> bytes \<Rightarrow> bool" where
  "well_formed psz d \<longleftrightarrow>
     24 \<le> length d \<and> length d \<le> unat psz \<and>
     (\<exists>h p. hgap_pkt_parse d (of_nat (length d)) = Ret (HGAP_SUCCESS, Some \<lparr>hdr = h, pkt_data = p\<rparr>) \<and>
        unat (data_size h) = length p) \<and>
     hgap_pkt_type d (of_nat (length d)) \<in> {Ret HGAP_PKT_BEGIN, Ret HGAP_PKT_DATA, Ret HGAP_PKT_END}"

lemma well_formedI:
  assumes "unat (data_size h) = length p" "length p + 24 \<le> unat psz" "unat psz \<le> 1500"
    and "type_of_num (chunk_num h) \<in> {HGAP_PKT_BEGIN, HGAP_PKT_DATA, HGAP_PKT_END}"
  shows "well_formed psz (header_bytes h @ p)"
proof -
  have n: "unat (of_nat (24 + length p) :: u64) = 24 + length p"
    using assms(2,3) by (subst unat_of_nat) simp
  then show ?thesis
    using assms by (auto simp: well_formed_def hgap_pkt_parse_eq hgap_pkt_type_eq Let_def)
qed

lemma control_well_formed:
  assumes "24 < unat psz" "unat psz \<le> 1500"
  shows "well_formed psz (header_bytes hgap_header_begin)" "well_formed psz (header_bytes hgap_header_end)"
  using assms well_formedI [of hgap_header_begin "[]" psz] well_formedI [of hgap_header_end "[]" psz]
  by simp_all

lemma sent_packets_well_formed:
  assumes W: "wh_block_size W" "wh_works W (psz - 24) n" and psz: "24 < unat psz" "unat psz \<le> 1500"
    and n: "n \<le> 96000000" and ms: "list_all (\<lambda>m. length m \<le> n) ms"
    and num: "unat num + length ms \<le> unat HGAP_FIRST_RESERVED"
    and c: "c \<in> set (chunks_from W psz wanted num ms)" "d \<in> set (sent_packets W psz c)"
  shows "well_formed psz d"
proof -
  have sent: "sent_chunk W psz (wc_num c) (wc_msg c) (wc_enc c)"
    using chunks_from_sent [OF W(2) psz n ms num] c(1) by (simp add: list_all_iff)
  have enc: "wc_enc c = chunk_encoder W psz (wc_msg c)" "length (wc_msg c) \<le> n"
    using c(1) ms by (induction ms arbitrary: num) auto
  obtain i where d: "d = the (chunk_packet W psz (wc_num c) (wc_msg c) (wc_enc c) i)"
    using c(2) by (auto simp: sent_packets_def)
  have "chunk_block W psz (wc_msg c) (wc_enc c) i \<noteq> None"
    using works_encodes [OF W(2) psz(1) enc(2)] enc(1) by (auto simp: chunk_block_def)
  then obtain b where b: "chunk_block W psz (wc_msg c) (wc_enc c) i = Some b" by blast
  have len: "length b = chunk_payload psz (wc_msg c)" by (rule sent_block_length [OF sent W(1) b])
  have small: "chunk_payload psz (wc_msg c) \<le> unat psz - 24" by (simp add: chunk_payload_def)
  have "unat (data_size (chunk_header psz (wc_num c) (wc_msg c) i)) = length b"
    using len sent_chunk_bounds(5) [OF sent]
    by (simp add: chunk_header_def unat_of_nat take_bit_nat_eq_self)
  moreover have "wc_num c < HGAP_FIRST_RESERVED" using sent by (simp add: sent_chunk_def)
  ultimately show ?thesis
    using small len psz unfolding d chunk_packet_def b option.map option.sel
    by (intro well_formedI) (simp_all add: type_of_num_DATA_iff)
qed

lemma wire_prefix:
  assumes "sender_ok env W psz wanted ms k s"
  shows "set (hs_wire (sl_sender (ss_send s))) \<subseteq> set (transfer_wire W psz (chunks_from W psz wanted 0 ms))"
  using assms
  by (auto simp: sender_ok_def Let_def begin_salve_def transfer_wire_def split: sender_pc.splits
      dest: in_set_takeD)

subsection \<open>Properties\<close>

text \<open>When the six threads can move no more, they have ended: the sender's in any case, the receiver's when
  enough has arrived.\<close>

lemma sending_finishes:
  fixes data :: bytes
  assumes "hgap_check_config_sender resolves ferror cfg = HGAP_SUCCESS"
    and "redund cfg = Fin r" and "is_double r" and "r \<le> 1048576"
    and "wh_block_size W" and "wh_works W (pkt_size cfg - 24) (unat (send_buf_size cfg))"
    and "good_env senv hs" and "hs_wire hs = []"
  defines "pieces \<equiv> chunks_of (unat (send_buf_size cfg)) data"
  assumes "(transfer_step senv renv W cfg rcfg)\<^sup>*\<^sup>*
      (transfer_init cfg rcfg junk1 junk2 junk3 junk4 hs data) s"
    and "threads_stuck senv renv W cfg rcfg s"
  shows "send_finished (transfer_wire W (pkt_size cfg)
      (chunks_from W (pkt_size cfg) (redund cfg) 0 pieces)) (tr_send s)"
    and "keepalives_ok s"
proof -
  have ok: "undisturbed senv W cfg pieces"
    unfolding pieces_def by (rule undisturbed_config [OF assms(1-6)])
  obtain g where g: "send_sys_inv senv W cfg pieces g (tr_send s)" and ka: "keepalives_ok s"
    using transfer_sends [OF assms(10) ok] send_sys_init_inv [OF assms(1,7,8)] unfolding pieces_def by blast
  show "send_finished (transfer_wire W (pkt_size cfg)
      (chunks_from W (pkt_size cfg) (redund cfg) 0 pieces)) (tr_send s)"
    using sending_stuck [OF ok g] assms(11) by (simp add: threads_stuck_def)
  show "keepalives_ok s" by (rule ka)
qed

lemma reception_finishes:
  fixes cfg rcfg :: "'f hgap_config" and data :: bytes
  assumes "hgap_check_config_sender resolves ferror cfg = HGAP_SUCCESS"
    and "wh_block_size W" and "wh_sound W" and "wh_works W (pkt_size cfg - 24) (unat (send_buf_size cfg))"
    and "recv_env_ok renv rcfg" and "writes_everything renv"
    and "unat (pkt_size rcfg) \<le> 1500" and "2 * (unat (pkt_size rcfg) + 16) \<le> unat (mem_limit rcfg)"
  defines "pieces \<equiv> chunks_of (unat (send_buf_size cfg)) data"
  assumes "length pieces \<le> unat HGAP_FIRST_RESERVED"
    and "(transfer_step senv renv W cfg rcfg)\<^sup>*\<^sup>*
      (transfer_init cfg rcfg junk1 junk2 junk3 junk4 hs data) s"
    and "threads_stuck senv renv W cfg rcfg s"
    and "tr_arrived s = raws @ others"
    and "delivery W (pkt_size cfg) (chunks_from W (pkt_size cfg) (redund cfg) 0 pieces) raws"
    and "list_all (\<lambda>raw. length raw \<le> unat (pkt_size rcfg)) raws"
  shows "recv_finished data (tr_recv s)"
proof -
  obtain k where k: "(recv_sys_step renv W rcfg ^^ k)
      (recv_sys_init rcfg junk3 junk4 (map Datagram raws @ map Datagram others)) (tr_recv s)"
    using transfer_receives [OF assms(11), of "[]"] assms(13) by (auto dest: rtranclp_imp_relpowp)
  note run = reception_ok [OF assms(1-4) assms(10,14) [unfolded pieces_def] assms(15,7,8,5,6) k]
  show ?thesis
    using reception_stuck [OF run] assms(12) by (simp add: threads_stuck_def concat_pieces)
qed

text \<open>C2: both programs, the keepalive thread and the network, interleaved in every way. When enough of what the
  sender sent has arrived and none of the other six threads can move, all six have ended; their results, the
  wire and the output are those of \<open>run_sender\<close> and \<open>run_receiver\<close>, the threads run one after the other;
  and the output is the input. The keepalive thread has sent nothing but keepalives and finds its flag
  cleared.\<close>

theorem concurrent_transfer_is_sequential:
  fixes data :: bytes
  assumes "hgap_check_config_sender resolves ferror cfg = HGAP_SUCCESS"
    and "redund cfg = Fin r" and "is_double r" and "r \<le> 1048576"
    and "wh_block_size W" and "wh_sound W"
    and "wh_works W (pkt_size cfg - 24) (unat (send_buf_size cfg))"
    and "good_env senv hs" and "hs_wire hs = []"
    and "recv_env_ok renv rcfg" and "writes_everything renv"
    and "unat (pkt_size rcfg) \<le> 1500" and "2 * (unat (pkt_size rcfg) + 16) \<le> unat (mem_limit rcfg)"
  defines "pieces \<equiv> chunks_of (unat (send_buf_size cfg)) data"
  assumes "length slots = length pieces" and "length pieces \<le> unat HGAP_FIRST_RESERVED"
    and "(transfer_step senv renv W cfg rcfg)\<^sup>*\<^sup>*
      (transfer_init cfg rcfg junk1 junk2 junk3 junk4 hs data) s"
    and "threads_stuck senv renv W cfg rcfg s"
    and "tr_arrived s = map fst ps @ others"
    and "delivery W (pkt_size cfg) (chunks_from W (pkt_size cfg) (redund cfg) 0 pieces) (map fst ps)"
    and "list_all (\<lambda>p. length (fst p) \<le> unat (pkt_size rcfg)) ps"
  shows "(\<exists>rd en sn. ss_reader (tr_send s) = R_Done rd \<and> ss_encoder (tr_send s) = E_Done en \<and>
      ss_sender (tr_send s) = S_Done sn \<and>
      run_sender senv W (redund cfg) (pkt_size cfg) (send_elt_size cfg) (Some hs) slots data =
        Ret (Retval (err_num rd), Retval (err_num en), Retval (err_num sn), tr_wire s)) \<and>
    (\<exists>n d. rs_net (tr_recv s) = N_Done n \<and> rs_decoder (tr_recv s) = D_Done d \<and>
      run_receiver W (receive_pkt_size (pkt_size rcfg)) ps =
        Ret (Retval n, Retval d, wr_ret (rs_writer (tr_recv s)), wr_file (rs_writer (tr_recv s)))) \<and>
    wr_file (rs_writer (tr_recv s)) = data \<and>
    list_all (\<lambda>d. d = header_bytes hgap_header_keepalive) (tr_keepalives s) \<and>
    \<not> hs_cont (tr_sender s)"
proof -
  have "list_all (\<lambda>raw. length raw \<le> unat (pkt_size rcfg)) (map fst ps)"
    using assms(21) by (simp add: list_all_iff)
  note received = reception_finishes [OF assms(1,5-7,10-13) assms(16) [unfolded pieces_def] assms(17-19)
      assms(20) [unfolded pieces_def] this]
  note sent = sending_finishes [OF assms(1-5,7-9,17,18), folded pieces_def]
  show ?thesis
    using sent received transfer_ok(1) [OF assms(1-5,7-9), of slots data] assms(15)
      transfer_ok(2) [OF assms(1-5,7,6), of data "pkt_size rcfg" ps] assms(12,16,20,21)
    by (simp add: pieces_def send_finished_def recv_finished_def tr_wire_def keepalives_ok_def)
qed

text \<open>C9: in every state that the threads of the sender reach, each datagram on the wire is an announcement, a data packet
  or an end packet that the parser accepts, announces exactly the bytes it carries and fits the configured packet size.\<close>

theorem sent_datagrams_are_well_formed:
  fixes data :: bytes
  assumes "hgap_check_config_sender resolves ferror cfg = HGAP_SUCCESS"
    and "redund cfg = Fin r" and "is_double r" and "r \<le> 1048576"
    and "wh_block_size W" and "wh_works W (pkt_size cfg - 24) (unat (send_buf_size cfg))"
    and "good_env env hs" and "hs_wire hs = []"
    and "length (chunks_of (unat (send_buf_size cfg)) data) \<le> unat HGAP_FIRST_RESERVED"
    and "(send_sys_step env W cfg)\<^sup>*\<^sup>* (send_sys_init cfg junk junk' hs data) s"
    and "d \<in> set (hs_wire (sl_sender (ss_send s)))"
  shows "well_formed (pkt_size cfg) d"
proof -
  let ?ms = "chunks_of (unat (send_buf_size cfg)) data"
  have psz: "24 < unat (pkt_size cfg)" "unat (pkt_size cfg) \<le> 1500"
    using assms(1) by (simp_all add: sender_config_SUCCESS)
  note n = send_buf_size_bounds(2,3) [OF assms(1)]
  have ms: "list_all (\<lambda>m. length m \<le> unat (send_buf_size cfg)) ?ms"
    using chunks_of_bound [OF n(1), of _ data] by (auto simp: list_all_iff)
  obtain k where "(send_sys_step env W cfg ^^ k) (send_sys_init cfg junk junk' hs data) s"
    using assms(10) by (auto dest: rtranclp_imp_relpowp)
  then obtain g where "send_sys_inv env W cfg ?ms g s"
    using send_sys_run [OF undisturbed_config [OF assms(1-6)] send_sys_init_inv [OF assms(1,7,8)]] by blast
  then have "d \<in> set (transfer_wire W (pkt_size cfg) (chunks_from W (pkt_size cfg) (redund cfg) 0 ?ms))"
    using wire_prefix assms(11) by (fastforce simp: send_sys_inv_def)
  then consider "d = header_bytes hgap_header_begin" | "d = header_bytes hgap_header_end"
    | c where "c \<in> set (chunks_from W (pkt_size cfg) (redund cfg) 0 ?ms)"
      "d \<in> set (sent_packets W (pkt_size cfg) c)"
    by (auto simp: transfer_wire_def)
  then show ?thesis
  proof cases
    case 3
    then show ?thesis
      using sent_packets_well_formed [OF assms(5,6) psz _ ms, of 0] n(2) assms(9) by auto
  qed (simp_all add: control_well_formed [OF psz])
qed

subsection \<open>A witness\<close>

text \<open>
  The transfer of three bytes in packets of 26: the sender runs until it ends, the network delivers four
  datagrams, two of them in the wrong order, the receiver runs until it ends.
\<close>

lemma deliver_list:
  assumes "set ds \<subseteq> set (tr_wire s)"
  shows "(transfer_step senv renv W cfg rcfg)\<^sup>*\<^sup>* s
    (s\<lparr>tr_arrived := tr_arrived s @ ds, tr_recv := foreseen (map Datagram ds) (tr_recv s)\<rparr>)"
  using assms
proof (induction ds arbitrary: s)
  case (Cons d ds)
  let ?u = "s\<lparr>tr_arrived := tr_arrived s @ [d], tr_recv := deliver d (tr_recv s)\<rparr>"
  have "transfer_step senv renv W cfg rcfg s ?u"
    using Cons.prems by (intro network_delivers) simp
  moreover have "(transfer_step senv renv W cfg rcfg)\<^sup>*\<^sup>* ?u (?u\<lparr>tr_arrived := tr_arrived ?u @ ds,
      tr_recv := foreseen (map Datagram ds) (tr_recv ?u)\<rparr>)"
    using Cons.prems by (intro Cons.IH) (simp add: tr_wire_def)
  ultimately show ?case by (simp add: foreseen_deliver)
qed simp

lemma sender_runs:
  "(send_sys_step senv W cfg)\<^sup>*\<^sup>* a t \<Longrightarrow> tr_send s = a \<Longrightarrow>
    (transfer_step senv renv W cfg rcfg)\<^sup>*\<^sup>* s (s\<lparr>tr_send := t\<rparr>)"
proof (induction rule: rtranclp_induct)
  case (step t u)
  then show ?case
    using sender_moves [of senv W cfg "s\<lparr>tr_send := t\<rparr>" u renv rcfg]
    by (auto intro: rtranclp.rtrancl_into_rtrancl)
qed auto

lemma receiver_runs:
  "(recv_sys_step renv W rcfg)\<^sup>*\<^sup>* a t \<Longrightarrow> tr_recv s = a \<Longrightarrow>
    (transfer_step senv renv W cfg rcfg)\<^sup>*\<^sup>* s (s\<lparr>tr_recv := t\<rparr>)"
proof (induction rule: rtranclp_induct)
  case (step t u)
  then show ?case
    using receiver_moves [of renv W rcfg "s\<lparr>tr_recv := t\<rparr>" u senv cfg]
    by (auto intro: rtranclp.rtrancl_into_rtrancl)
qed auto

text \<open>In general: whatever of the wire is to arrive, the programs can be run until they stop with it.\<close>

lemma sender_can_stop:
  fixes data :: bytes
  assumes "hgap_check_config_sender resolves ferror cfg = HGAP_SUCCESS"
    and "redund cfg = Fin r" and "is_double r" and "r \<le> 1048576"
    and "wh_block_size W" and "wh_works W (pkt_size cfg - 24) (unat (send_buf_size cfg))"
    and "good_env env hs" and "hs_wire hs = []"
  shows "\<exists>t. (send_sys_step env W cfg)\<^sup>*\<^sup>* (send_sys_init cfg junk1 junk2 hs data) t \<and>
    (\<nexists>u. send_sys_step env W cfg t u) \<and>
    hs_wire (sl_sender (ss_send t)) = transfer_wire W (pkt_size cfg)
      (chunks_from W (pkt_size cfg) (redund cfg) 0 (chunks_of (unat (send_buf_size cfg)) data))"
proof -
  let ?ms = "chunks_of (unat (send_buf_size cfg)) data"
  let ?init = "send_sys_init cfg junk1 junk2 hs data"
  have ok: "undisturbed env W cfg ?ms" by (rule undisturbed_config [OF assms(1-6)])
  have inv: "send_sys_inv env W cfg ?ms no_counts ?init"
    by (rule send_sys_init_inv [OF assms(1,7,8)])
  have "k \<le> 6 * length ?ms + 7" if "(send_sys_step env W cfg ^^ k) ?init t" for k t
    using send_sys_run [OF ok inv that] progress_bound by fastforce
  then obtain t where t: "(send_sys_step env W cfg)\<^sup>*\<^sup>* ?init t" "\<nexists>u. send_sys_step env W cfg t u"
    using bounded_runs_stop by metis
  from t(1) obtain k where "(send_sys_step env W cfg ^^ k) ?init t"
    by (auto dest: rtranclp_imp_relpowp)
  then obtain g where "send_sys_inv env W cfg ?ms g t"
    using send_sys_run [OF ok inv] by blast
  from sending_stuck [OF ok this t(2)] show ?thesis
    using t by (auto simp: send_finished_def)
qed

lemma receiver_can_stop:
  fixes cfg rcfg :: "'f hgap_config" and data :: bytes
  assumes "hgap_check_config_sender resolves ferror cfg = HGAP_SUCCESS"
    and "wh_block_size W" and "wh_sound W" and "wh_works W (pkt_size cfg - 24) (unat (send_buf_size cfg))"
  defines "pieces \<equiv> chunks_of (unat (send_buf_size cfg)) data"
  assumes "length pieces \<le> unat HGAP_FIRST_RESERVED"
    and "delivery W (pkt_size cfg) (chunks_from W (pkt_size cfg) (redund cfg) 0 pieces) raws"
    and "list_all (\<lambda>raw. length raw \<le> unat (pkt_size rcfg)) raws" and "unat (pkt_size rcfg) \<le> 1500"
    and "2 * (unat (pkt_size rcfg) + 16) \<le> unat (mem_limit rcfg)"
    and "recv_env_ok env rcfg" and "writes_everything env"
  shows "\<exists>t. (recv_sys_step env W rcfg)\<^sup>*\<^sup>* (recv_sys_init rcfg junk junk' (map Datagram raws)) t \<and>
    (\<nexists>u. recv_sys_step env W rcfg t u)"
proof (rule bounded_runs_stop)
  fix k s
  assume "(recv_sys_step env W rcfg ^^ k) (recv_sys_init rcfg junk junk' (map Datagram raws)) s"
  then have "(recv_sys_step env W rcfg ^^ k) (recv_sys_init rcfg junk junk' (map Datagram raws @ [])) s"
    by simp
  from recv_ok_bound [OF reception_ok(2) [OF assms(1-4) assms(6,7) [unfolded pieces_def] assms(8-12) this]]
  show "k \<le> 5 * length raws + 2 * length (filter (\<lambda>m. m \<noteq> []) pieces) + 5"
    by (simp add: pieces_def)
qed

lemma transfer_can_stop:
  fixes cfg rcfg :: "'f hgap_config" and data :: bytes
  assumes "hgap_check_config_sender resolves ferror cfg = HGAP_SUCCESS"
    and "redund cfg = Fin r" and "is_double r" and "r \<le> 1048576"
    and "wh_block_size W" and "wh_sound W"
    and "wh_works W (pkt_size cfg - 24) (unat (send_buf_size cfg))"
    and "good_env senv hs" and "hs_wire hs = []"
    and "recv_env_ok renv rcfg" and "writes_everything renv"
    and "unat (pkt_size rcfg) \<le> 1500" and "2 * (unat (pkt_size rcfg) + 16) \<le> unat (mem_limit rcfg)"
  defines "cs \<equiv> chunks_from W (pkt_size cfg) (redund cfg) 0 (chunks_of (unat (send_buf_size cfg)) data)"
  assumes "length (chunks_of (unat (send_buf_size cfg)) data) \<le> unat HGAP_FIRST_RESERVED"
    and "delivery W (pkt_size cfg) cs raws"
    and "list_all (\<lambda>raw. length raw \<le> unat (pkt_size rcfg)) raws"
    and "set raws \<subseteq> set (transfer_wire W (pkt_size cfg) cs)"
  shows "\<exists>s. (transfer_step senv renv W cfg rcfg)\<^sup>*\<^sup>*
      (transfer_init cfg rcfg junk1 junk2 junk3 junk4 hs data) s \<and>
    threads_stuck senv renv W cfg rcfg s \<and> tr_arrived s = raws"
proof -
  let ?step = "transfer_step senv renv W cfg rcfg"
  let ?init = "transfer_init cfg rcfg junk1 junk2 junk3 junk4 hs data"
  obtain t where t: "(send_sys_step senv W cfg)\<^sup>*\<^sup>* (tr_send ?init) t" "\<nexists>u. send_sys_step senv W cfg t u"
    "hs_wire (sl_sender (ss_send t)) = transfer_wire W (pkt_size cfg) cs"
    using sender_can_stop [OF assms(1-5,7-9), of junk1 junk2 data] by (auto simp: transfer_init_def cs_def)
  obtain u where u: "(recv_sys_step renv W rcfg)\<^sup>*\<^sup>* (recv_sys_init rcfg junk3 junk4 (map Datagram raws)) u"
    "\<nexists>v. recv_sys_step renv W rcfg u v"
    using receiver_can_stop [OF assms(1,5,6,7) assms(15) assms(16) [unfolded cs_def] assms(17,12,13,10,11)]
    by blast
  define s1 where "s1 = ?init\<lparr>tr_send := t\<rparr>"
  define s2 where "s2 = s1\<lparr>tr_arrived := tr_arrived s1 @ raws,
      tr_recv := foreseen (map Datagram raws) (tr_recv s1)\<rparr>"
  define s where "s = s2\<lparr>tr_recv := u\<rparr>"
  have "?step\<^sup>*\<^sup>* ?init s1" unfolding s1_def by (rule sender_runs [OF t(1) refl])
  also have "?step\<^sup>*\<^sup>* s1 s2"
    unfolding s2_def using assms(18) by (intro deliver_list) (simp add: s1_def tr_wire_def t(3))
  also have "?step\<^sup>*\<^sup>* s2 s"
    unfolding s_def by (rule receiver_runs [OF u(1)])
      (simp add: s2_def s1_def transfer_init_def foreseen_init)
  finally have "?step\<^sup>*\<^sup>* ?init s" .
  moreover have "threads_stuck senv renv W cfg rcfg s" "tr_arrived s = raws"
    using t(2) u(2) by (simp_all add: threads_stuck_def s_def s2_def s1_def transfer_init_def)
  ultimately show ?thesis by blast
qed

lemma example_send_facts:
  "is_double 2" "wh_works cyclic 2 4" "good_env example_env example_sender" "hs_wire example_sender = []"
  "chunks_of 4 [7, 8, 9 :: u8] = [[7, 8, 9]]"
proof -
  show "is_double 2" unfolding is_double_def by code_simp
  show "wh_works cyclic 2 4" by (auto simp: wh_works_def cyclic_def)
  show "good_env example_env example_sender" "hs_wire example_sender = []"
    by (simp_all add: good_env_def sends_all_def rate_ok_def example_env_def example_sender_def
        hgap_limiter_new_def)
  show "chunks_of 4 [7, 8, 9 :: u8] = [[7, 8, 9]]" by code_simp
qed

lemma example_received_on_wire:
  "set example_received \<subseteq> set (transfer_wire cyclic 26 (chunks_from cyclic 26 (Fin 2) 0 [[7, 8, 9]]))"
proof -
  let ?E = "Some (CycEnc [7, 8, 9] 2)" and ?K = "n_packets (Fin 2) 2 3"
  have "3 \<le> ?K * 2" using n_packets_bounds(4) [of 2 3 2] example_send_facts(1) by simp
  then have K: "0 \<in> {0..<?K}" "1 \<in> {0..<?K}" by simp_all
  have E: "chunks_from cyclic 26 (Fin 2) 0 [[7, 8, 9]] =
      [\<lparr>wc_num = 0, wc_msg = [7, 8, 9], wc_enc = ?E, wc_ids = map of_nat [0..<?K]\<rparr>]"
    by (simp add: chunk_encoder_def cyclic_def chunk_payload_def numeral_3_eq_3)
      (simp add: numeral_2_eq_2)
  have "chunk_packet cyclic 26 0 [7, 8, 9] ?E 1 =
      Some (header_bytes (chunk_header 26 0 [7, 8, 9] 1) @ [9, 0])"
    "chunk_packet cyclic 26 0 [7, 8, 9] ?E 0 =
      Some (header_bytes (chunk_header 26 0 [7, 8, 9] 0) @ [7, 8])"
    by code_simp+
  moreover have "(0 :: u32) \<in> of_nat ` {0..<?K}" "(1 :: u32) \<in> of_nat ` {0..<?K}"
    using imageI [OF K(1), of "of_nat :: nat \<Rightarrow> u32"] imageI [OF K(2), of "of_nat :: nat \<Rightarrow> u32"]
    by simp_all
  ultimately have "{header_bytes (chunk_header 26 0 [7, 8, 9] 1) @ [9, 0],
      header_bytes (chunk_header 26 0 [7, 8, 9] 0) @ [7, 8]} \<subseteq>
    set (sent_packets cyclic 26 \<lparr>wc_num = 0, wc_msg = [7, 8, 9], wc_enc = ?E, wc_ids = map of_nat [0..<?K]\<rparr>)"
    by (force simp: sent_packets_def)
  then show ?thesis
    by (simp only: E transfer_wire_def example_received_def) simp
qed

theorem concurrent_transfer_is_sequential_witness:
  "\<exists>s. (transfer_step example_env example_recv_env cyclic example_config recv_example_config)\<^sup>*\<^sup>*
      (transfer_init example_config recv_example_config example_slot None example_slot SBUF_NULL
        example_sender [7, 8, 9]) s \<and>
    threads_stuck example_env example_recv_env cyclic example_config recv_example_config s \<and>
    wr_file (rs_writer (tr_recv s)) = [7, 8, 9]"
proof -
  have few: "length [[7, 8, 9 :: u8]] \<le> unat HGAP_FIRST_RESERVED" by (simp add: HGAP_FIRST_RESERVED_def)
  have cfg: "pkt_size recv_example_config = 26" "mem_limit recv_example_config = 168"
    by (simp_all add: example_config_def)
  have two: "(2 :: rat) \<le> 1048576" by simp
  have works: "wh_works cyclic (pkt_size example_config - 24) (unat (send_buf_size example_config))"
    using example_send_facts(2) by (simp add: example_config_facts)
  have ms: "chunks_of (unat (send_buf_size example_config)) [7, 8, 9 :: u8] = [[7, 8, 9]]"
    using example_send_facts(5) by (simp add: example_config_facts)
  have room: "unat (pkt_size recv_example_config) \<le> 1500"
    "2 * (unat (pkt_size recv_example_config) + 16) \<le> unat (mem_limit recv_example_config)"
    by (simp_all add: cfg)
  have writes: "writes_everything example_recv_env"
    by (simp add: writes_everything_def example_recv_env_def)
  have small: "list_all (\<lambda>raw. length raw \<le> unat (pkt_size recv_example_config)) example_received"
    by (simp add: cfg example_received_def)
  have del: "delivery cyclic (pkt_size example_config) (chunks_from cyclic (pkt_size example_config)
      (redund example_config) 0 (chunks_of (unat (send_buf_size example_config)) [7, 8, 9])) example_received"
    using example_delivery unfolding ms unfolding example_config_facts .
  note hyps = example_config_facts(1,2) example_send_facts(1) two cyclic_block_size cyclic_sound works
    example_send_facts(3,4) example_recv_env_ok writes room
  have "set example_received \<subseteq> set (transfer_wire cyclic (pkt_size example_config)
      (chunks_from cyclic (pkt_size example_config) (redund example_config) 0
        (chunks_of (unat (send_buf_size example_config)) [7, 8, 9])))"
    using example_received_on_wire unfolding ms unfolding example_config_facts .
  from transfer_can_stop [OF hyps few [folded ms] del small this, of example_slot None example_slot SBUF_NULL]
  obtain s where s: "(transfer_step example_env example_recv_env cyclic example_config recv_example_config)\<^sup>*\<^sup>*
      (transfer_init example_config recv_example_config example_slot None example_slot SBUF_NULL
        example_sender [7, 8, 9]) s"
    "threads_stuck example_env example_recv_env cyclic example_config recv_example_config s"
    "tr_arrived s = example_received"
    by blast
  let ?ps = "map (\<lambda>raw. (raw, [])) example_received"
  have ps: "map fst ?ps = example_received" by (simp add: comp_def)
  have arrived: "tr_arrived s = map fst ?ps @ []" using s(3) unfolding ps by simp
  have small': "list_all (\<lambda>p. length (fst p) \<le> unat (pkt_size recv_example_config)) ?ps"
    using small by (simp add: list_all_iff)
  have del': "delivery cyclic (pkt_size example_config) (chunks_from cyclic (pkt_size example_config)
      (redund example_config) 0 (chunks_of (unat (send_buf_size example_config)) [7, 8, 9])) (map fst ?ps)"
    using del unfolding ps .
  have "length [[]] = length (chunks_of (unat (send_buf_size example_config)) [7, 8, 9 :: u8])"
    by (simp add: ms)
  from concurrent_transfer_is_sequential [OF hyps this few [folded ms] s(1,2) arrived del' small']
  show ?thesis using s by blast
qed

theorem sent_datagrams_are_well_formed_witness:
  "\<exists>s. (send_sys_step example_env cyclic example_config)\<^sup>*\<^sup>*
      (send_sys_init example_config example_slot None example_sender [7, 8, 9]) s \<and>
    header_bytes (chunk_header 26 0 [7, 8, 9] 0) @ [7, 8] \<in> set (hs_wire (sl_sender (ss_send s))) \<and>
    (\<forall>d \<in> set (hs_wire (sl_sender (ss_send s))). well_formed 26 d)"
proof -
  obtain s where s: "(send_sys_step example_env cyclic example_config)\<^sup>*\<^sup>*
      (send_sys_init example_config example_slot None example_sender [7, 8, 9]) s"
    "hs_wire (sl_sender (ss_send s)) = transfer_wire cyclic 26 (chunks_from cyclic 26 (Fin 2) 0 [[7, 8, 9]])"
    using sender_can_stop [OF example_config_facts(1,2) example_send_facts(1) _ cyclic_block_size _
        example_send_facts(3,4), of example_slot None "[7, 8, 9]"] example_send_facts(2,5)
    by (auto simp: example_config_facts)
  have few: "1 \<le> unat HGAP_FIRST_RESERVED" by (simp add: HGAP_FIRST_RESERVED_def)
  have "header_bytes (chunk_header 26 0 [7, 8, 9] 0) @ [7, 8] \<in> set (hs_wire (sl_sender (ss_send s)))"
    using example_received_on_wire unfolding s(2) example_received_def by (simp only: set_simps insert_subset)
  then show ?thesis
    using sent_datagrams_are_well_formed [OF example_config_facts(1,2) example_send_facts(1) _
        cyclic_block_size _ example_send_facts(3,4), of "[7, 8, 9]" example_slot None s]
      s(1) example_send_facts(2,5) few
    by (auto simp: example_config_facts)
qed

end
