(* ===== verification/Channel_Threads.thy ===== *)
theory Channel_Threads
  imports Channel
begin

section \<open>The ring buffer under concurrency: \<open>src/lib/channel.c\<close>, step by step\<close>

text \<open>
  One producer thread that calls \<open>channel_send\<close> for each value of a list, one consumer
  thread that calls \<open>channel_recv\<close> for ever, and a thread that may call \<open>channel_poison\<close>.
  The steps are: the poison checks, the unlocked test of \<open>_channel_wait_lock\<close>, the locking, the test
  under the lock, entering \<open>pthread_cond_wait\<close> (which releases the mutex), the copy, the pointer
  check, the index update, the signal, the unlocking. A sleeping thread is woken by a signal or
  spuriously, and then needs the mutex.

  Memory is sequentially consistent, and a step is done at once. Some steps touch more than one
  shared field: \<open>Test\<close> and \<open>Retest\<close> read both indices and the flag, \<open>Recheck\<close> and \<open>Check\<close> the
  flag and the thread's own index, \<open>Update\<close>, under the lock, both indices. The unlocked reads of
  \<open>Test\<close>, \<open>Recheck\<close> and \<open>Check\<close> are data races in the sense of the C standard, whatever the
  comment in \<open>_channel_wait_lock\<close> says; the theorems hold of executions in which they behave as reads
  of memory.

  The producer runs \<open>channel_reserve\<close>, the copy and \<open>channel_send_reserved\<close>; the consumer
  runs \<open>channel_peek\<close>, the copy and \<open>channel_ack\<close>. Both have the same shape, so the
  program counter is shared and \<open>role\<close> selects the test, the condition and the index.
\<close>

datatype role = Producer | Consumer

primrec other :: "role \<Rightarrow> role" where
  "other Producer = Consumer"
| "other Consumer = Producer"

datatype pc =
    Start          \<comment> \<open>\<open>POISON_CHECK\<close> at the entry of reserve or peek\<close>
  | Test           \<comment> \<open>\<open>_channel_wait_lock\<close>: the test without the lock\<close>
  | Lock           \<comment> \<open>\<open>pthread_mutex_lock\<close>\<close>
  | Retest         \<comment> \<open>the loop condition, with the mutex held\<close>
  | Wait           \<comment> \<open>calling \<open>pthread_cond_wait\<close>, mutex still held\<close>
  | Sleep          \<comment> \<open>waiting on the condition variable\<close>
  | Woken          \<comment> \<open>woken, needs the mutex to return\<close>
  | Unlock         \<comment> \<open>\<open>pthread_mutex_unlock\<close> after the loop\<close>
  | Recheck        \<comment> \<open>the second \<open>POISON_CHECK\<close>, then \<open>channel_get\<close>\<close>
  | Copy           \<comment> \<open>\<open>memcpy\<close> into or out of the slot\<close>
  | Check          \<comment> \<open>\<open>POISON_CHECK\<close> and pointer check of send_reserved or ack\<close>
  | Lock2          \<comment> \<open>\<open>pthread_mutex_lock\<close>\<close>
  | Update         \<comment> \<open>\<open>was_empty\<close> or \<open>was_full\<close>, then the index\<close>
  | Signal bool    \<comment> \<open>\<open>pthread_cond_signal\<close> if the flag is set\<close>
  | Unlock2        \<comment> \<open>\<open>pthread_mutex_unlock\<close>\<close>
  | Failed         \<comment> \<open>the call returned \<open>NULL\<close> or 0\<close>

datatype poison_pc = Z_Idle | Z_SignalSend | Z_SignalRecv | Z_End

text \<open>
  \<open>slot\<close> is the pointer that reserve or peek returned, \<open>copied\<close> the consumer's buffer.
  \<open>sent\<close> and \<open>received\<close> are history: the values published and the values acknowledged.
\<close>

record 'a cstate =
  chan :: "'a channel"
  mutex :: "role option"
  pcs :: "role \<Rightarrow> pc"
  zpc :: poison_pc
  slot :: "role \<Rightarrow> u64"
  copied :: "'a option"
  to_send :: "'a list"
  sent :: "'a list"
  received :: "'a list"

definition init_threads :: "'a channel \<Rightarrow> 'a list \<Rightarrow> 'a cstate" where
  "init_threads c vs =
     \<lparr>chan = c, mutex = None, pcs = (\<lambda>_. Start), zpc = Z_Idle, slot = (\<lambda>_. 0),
      copied = None, to_send = vs, sent = [], received = []\<rparr>"

definition goto :: "role \<Rightarrow> pc \<Rightarrow> 'a cstate \<Rightarrow> 'a cstate" where
  "goto r p s = s\<lparr>pcs := (pcs s)(r := p)\<rparr>"

primrec blocked :: "role \<Rightarrow> 'a channel \<Rightarrow> bool" where
  "blocked Producer c = channel_is_full c"
| "blocked Consumer c = channel_is_empty c"

primrec own_idx :: "role \<Rightarrow> 'a channel \<Rightarrow> u64" where
  "own_idx Producer c = ch_wr_idx c"
| "own_idx Consumer c = ch_rd_idx c"

definition acquire :: "role \<Rightarrow> pc \<Rightarrow> 'a cstate \<Rightarrow> 'a cstate option" where
  "acquire r p s = (if mutex s = None then Some (goto r p (s\<lparr>mutex := Some r\<rparr>)) else None)"

text \<open>\<open>memcpy\<close> between the caller's element and the slot.\<close>

primrec copy :: "role \<Rightarrow> 'a cstate \<Rightarrow> 'a cstate" where
  "copy Producer s = s\<lparr>chan := slot_write (chan s) (slot s Producer) (hd (to_send s))\<rparr>"
| "copy Consumer s = s\<lparr>copied := Some (ch_elts (chan s) ! unat (slot s Consumer))\<rparr>"

text \<open>The index update; the flag says whether the other side may be waiting.\<close>

primrec publish :: "role \<Rightarrow> 'a cstate \<Rightarrow> bool \<times> 'a cstate" where
  "publish Producer s =
     (channel_is_empty (chan s),
      s\<lparr>chan := advance_wr (chan s), sent := sent s @ [hd (to_send s)],
        to_send := tl (to_send s)\<rparr>)"
| "publish Consumer s =
     (channel_is_full (chan s),
      s\<lparr>chan := advance_rd (chan s),
        received := received s @ (case copied s of Some v \<Rightarrow> [v] | None \<Rightarrow> [])\<rparr>)"

definition signal :: "role \<Rightarrow> 'a cstate \<Rightarrow> 'a cstate" where
  "signal r s = (if pcs s r = Sleep then goto r Woken s else s)"

definition thread_step :: "role \<Rightarrow> 'a cstate \<Rightarrow> 'a cstate option" where
  "thread_step r s =
     (case pcs s r of
        Start \<Rightarrow>
          if r = Producer \<and> to_send s = [] then None
          else Some (goto r (if ch_poisoned (chan s) then Failed else Test) s)
      | Test \<Rightarrow> Some (goto r (if blocked r (chan s) then Lock else Recheck) s)
      | Lock \<Rightarrow> acquire r Retest s
      | Retest \<Rightarrow> Some (goto r (if blocked r (chan s) then Wait else Unlock) s)
      | Wait \<Rightarrow> Some (goto r Sleep (s\<lparr>mutex := None\<rparr>))
      | Sleep \<Rightarrow> None
      | Woken \<Rightarrow> acquire r Retest s
      | Unlock \<Rightarrow> Some (goto r Recheck (s\<lparr>mutex := None\<rparr>))
      | Recheck \<Rightarrow>
          if ch_poisoned (chan s) then Some (goto r Failed s)
          else Some (goto r Copy
                 (s\<lparr>slot := (slot s)(r := channel_get (chan s) (own_idx r (chan s)))\<rparr>))
      | Copy \<Rightarrow> Some (goto r Check (copy r s))
      | Check \<Rightarrow>
          if ch_poisoned (chan s) \<or> slot s r \<noteq> channel_get (chan s) (own_idx r (chan s))
          then Some (goto r Failed s) else Some (goto r Lock2 s)
      | Lock2 \<Rightarrow> acquire r Update s
      | Update \<Rightarrow> (case publish r s of (was, s') \<Rightarrow> Some (goto r (Signal was) s'))
      | Signal was \<Rightarrow> Some (goto r Unlock2 (if was then signal (other r) s else s))
      | Unlock2 \<Rightarrow> Some (goto r Start (s\<lparr>mutex := None\<rparr>))
      | Failed \<Rightarrow> None)"

text \<open>\<open>channel_poison\<close>: the flag and two signals, without the mutex.\<close>

definition poison_step :: "'a cstate \<Rightarrow> 'a cstate option" where
  "poison_step s =
     (case zpc s of
        Z_Idle \<Rightarrow> Some (s\<lparr>chan := channel_poison (chan s), zpc := Z_SignalSend\<rparr>)
      | Z_SignalSend \<Rightarrow> Some ((signal Producer s)\<lparr>zpc := Z_SignalRecv\<rparr>)
      | Z_SignalRecv \<Rightarrow> Some ((signal Consumer s)\<lparr>zpc := Z_End\<rparr>)
      | Z_End \<Rightarrow> None)"

text \<open>Steps of the two threads alone, and steps of the whole system.\<close>

inductive quiet_step :: "'a cstate \<Rightarrow> 'a cstate \<Rightarrow> bool" where
  quiet: "thread_step r s = Some t \<Longrightarrow> quiet_step s t"

inductive sys_step :: "'a cstate \<Rightarrow> 'a cstate \<Rightarrow> bool" where
  thread: "thread_step r s = Some t \<Longrightarrow> sys_step s t"
| poison: "poison_step s = Some t \<Longrightarrow> sys_step s t"
| spurious: "pcs s r = Sleep \<Longrightarrow> sys_step s (goto r Woken s)"

text \<open>A schedule: which thread moves; a thread that cannot move is skipped.\<close>

datatype actor = Thread role | Poisoner

primrec actor_step :: "actor \<Rightarrow> 'a cstate \<Rightarrow> 'a cstate option" where
  "actor_step (Thread r) s = thread_step r s"
| "actor_step Poisoner s = poison_step s"

primrec run_schedule :: "actor list \<Rightarrow> 'a cstate \<Rightarrow> 'a cstate" where
  "run_schedule [] s = s"
| "run_schedule (a # as) s =
     run_schedule as (case actor_step a s of Some t \<Rightarrow> t | None \<Rightarrow> s)"

lemma actor_sys_step: "actor_step a s = Some t \<Longrightarrow> sys_step s t"
  by (cases a) (auto intro: sys_step.intros)

lemma run_schedule_reachable: "sys_step\<^sup>*\<^sup>* s (run_schedule as s)"
proof (induction as arbitrary: s)
  case Nil
  then show ?case by simp
next
  case (Cons a as)
  then show ?case
    by (cases "actor_step a s") (auto dest: actor_sys_step intro: converse_rtranclp_into_rtranclp)
qed

lemma quiet_is_sys: "quiet_step s t \<Longrightarrow> sys_step s t"
  by (auto elim!: quiet_step.cases intro: sys_step.thread)

subsection \<open>The safety invariant\<close>

text \<open>
  Who holds the mutex is determined by the program counters. A thread that has passed its
  test knows that its side can move (there is room, there is an element), and nobody but
  itself takes that away; the slot it works on is its own index.
\<close>

primrec holds_mutex :: "pc \<Rightarrow> bool" where
  "holds_mutex Start = False"
| "holds_mutex Test = False"
| "holds_mutex Lock = False"
| "holds_mutex Retest = True"
| "holds_mutex Wait = True"
| "holds_mutex Sleep = False"
| "holds_mutex Woken = False"
| "holds_mutex Unlock = True"
| "holds_mutex Recheck = False"
| "holds_mutex Copy = False"
| "holds_mutex Check = False"
| "holds_mutex Lock2 = False"
| "holds_mutex Update = True"
| "holds_mutex (Signal b) = True"
| "holds_mutex Unlock2 = True"
| "holds_mutex Failed = False"

primrec can_move :: "role \<Rightarrow> 'a channel \<Rightarrow> bool" where
  "can_move Producer c = (length (channel_items c) < channel_bound c)"
| "can_move Consumer c = (channel_items c \<noteq> [])"

definition passed_test :: "pc \<Rightarrow> bool" where
  "passed_test p \<longleftrightarrow> p \<in> {Unlock, Recheck}"

definition in_section :: "pc \<Rightarrow> bool" where
  "in_section p \<longleftrightarrow> p \<in> {Copy, Check, Lock2, Update}"

definition after_copy :: "pc \<Rightarrow> bool" where
  "after_copy p \<longleftrightarrow> p \<in> {Check, Lock2, Update}"

lemma pc_class_simps [simp]:
  "passed_test Unlock" "passed_test Recheck" "in_section Copy" "in_section Check"
  "in_section Lock2" "in_section Update" "after_copy Check" "after_copy Lock2" "after_copy Update"
  "\<not> after_copy Copy"
  by (simp_all add: passed_test_def in_section_def after_copy_def)

definition needs_value :: "pc \<Rightarrow> bool" where
  "needs_value p \<longleftrightarrow> (case p of Start \<Rightarrow> False | Failed \<Rightarrow> False | Signal _ \<Rightarrow> False | Unlock2 \<Rightarrow> False | _ \<Rightarrow> True)"

lemma needs_value_simps [simp]:
  "\<not> needs_value Start" "needs_value Test" "needs_value Lock" "needs_value Retest"
  "needs_value Wait" "needs_value Sleep" "needs_value Woken" "needs_value Unlock"
  "needs_value Recheck" "needs_value Copy" "needs_value Check" "needs_value Lock2"
  "needs_value Update" "\<not> needs_value (Signal b)" "\<not> needs_value Unlock2" "\<not> needs_value Failed"
  by (simp_all add: needs_value_def)

lemma pc_not_passed [simp]:
  "\<not> passed_test Start" "\<not> passed_test Test" "\<not> passed_test Lock" "\<not> passed_test Retest"
  "\<not> passed_test Wait" "\<not> passed_test Sleep" "\<not> passed_test Woken" "\<not> passed_test Copy"
  "\<not> passed_test Check" "\<not> passed_test Lock2" "\<not> passed_test Update"
  "\<not> passed_test (Signal b)" "\<not> passed_test Unlock2" "\<not> passed_test Failed"
  by (simp_all add: passed_test_def)

lemma pc_not_section [simp]:
  "\<not> in_section Start" "\<not> in_section Test" "\<not> in_section Lock" "\<not> in_section Retest"
  "\<not> in_section Wait" "\<not> in_section Sleep" "\<not> in_section Woken" "\<not> in_section Unlock"
  "\<not> in_section Recheck" "\<not> in_section (Signal b)" "\<not> in_section Unlock2" "\<not> in_section Failed"
  by (simp_all add: in_section_def)

lemma pc_not_after [simp]:
  "\<not> after_copy Start" "\<not> after_copy Test" "\<not> after_copy Lock" "\<not> after_copy Retest"
  "\<not> after_copy Wait" "\<not> after_copy Sleep" "\<not> after_copy Woken" "\<not> after_copy Unlock"
  "\<not> after_copy Recheck" "\<not> after_copy (Signal b)" "\<not> after_copy Unlock2" "\<not> after_copy Failed"
  by (simp_all add: after_copy_def)

lemma after_copy_section: "after_copy p \<Longrightarrow> in_section p"
  by (auto simp: after_copy_def in_section_def)

definition safe :: "'a list \<Rightarrow> 'a cstate \<Rightarrow> bool" where
  "safe vs s \<longleftrightarrow>
     channel_ok (chan s) \<and>
     (\<forall>r. holds_mutex (pcs s r) \<longleftrightarrow> mutex s = Some r) \<and>
     (\<forall>r. passed_test (pcs s r) \<longrightarrow> ch_poisoned (chan s) \<or> can_move r (chan s)) \<and>
     (\<forall>r. in_section (pcs s r) \<longrightarrow> can_move r (chan s) \<and> slot s r = own_idx r (chan s)) \<and>
     (needs_value (pcs s Producer) \<longrightarrow> to_send s \<noteq> []) \<and>
     (after_copy (pcs s Producer) \<longrightarrow> ch_elts (chan s) ! unat (ch_wr_idx (chan s)) = hd (to_send s)) \<and>
     (after_copy (pcs s Consumer) \<longrightarrow> copied s = Some (ch_elts (chan s) ! unat (ch_rd_idx (chan s)))) \<and>
     received s @ channel_items (chan s) = sent s \<and>
     sent s @ to_send s = vs \<and>
     (pcs s Producer = Failed \<longrightarrow> ch_poisoned (chan s)) \<and>
     (pcs s Consumer = Failed \<longrightarrow> ch_poisoned (chan s))"

lemma all_roles: "(\<forall>r. P r) \<longleftrightarrow> P Producer \<and> P Consumer"
  by (metis role.exhaust)

text \<open>What each access to the ring does to the facts of the invariant.\<close>

lemma not_blocked: "channel_ok c \<Longrightarrow> \<not> blocked r c \<Longrightarrow> ch_poisoned c \<or> can_move r c"
  using channel_is_full_iff [of c] channel_is_empty_iff [of c] channel_items_bound [of c]
  by (cases r) (auto simp: le_less)

lemma own_slot: "channel_ok c \<Longrightarrow> channel_get c (own_idx r c) = own_idx r c"
  by (cases r) simp_all

lemma write_own_slot:
  fixes v :: 'a
  assumes "channel_ok c"
  defines "c' \<equiv> slot_write c (ch_wr_idx c) v"
  shows "channel_items c' = channel_items c" "channel_bound c' = channel_bound c"
    "ch_elts c' ! unat (ch_wr_idx c) = v"
    "channel_items c \<noteq> [] \<Longrightarrow> ch_elts c' ! unat (ch_rd_idx c) = ch_elts c ! unat (ch_rd_idx c)"
proof -
  show "channel_items c' = channel_items c"
    using assms by (simp add: slot_write_reserved)
  show "channel_bound c' = channel_bound c"
    by (simp add: c'_def channel_bound_def)
  show "ch_elts c' ! unat (ch_wr_idx c) = v"
    using assms by (simp add: channel_ok_def slot_write_def)
  assume "channel_items c \<noteq> []"
  then have "unat (ch_rd_idx c) \<noteq> unat (ch_wr_idx c)"
    using assms(1) ring_items_Nil_iff by (auto simp: channel_items_def channel_ok_def)
  then show "ch_elts c' ! unat (ch_rd_idx c) = ch_elts c ! unat (ch_rd_idx c)"
    by (simp add: c'_def slot_write_def)
qed

lemma poison_channel [simp]:
  "channel_items (channel_poison c) = channel_items c"
  "channel_bound (channel_poison c) = channel_bound c"
  "can_move r (channel_poison c) = can_move r c"
  "ch_elts (channel_poison c) = ch_elts c" "ch_poisoned (channel_poison c)"
  "own_idx r (channel_poison c) = own_idx r c"
  "ch_wr_idx (channel_poison c) = ch_wr_idx c" "ch_rd_idx (channel_poison c) = ch_rd_idx c"
  by (cases r; simp add: channel_poison_def channel_items_def channel_bound_def)+

lemmas step_simps =
  thread_step_def acquire_def goto_def signal_def own_slot

lemma safe_init: "channel_live c \<Longrightarrow> channel_items c = [] \<Longrightarrow> safe vs (init_threads c vs)"
  by (simp add: safe_def init_threads_def channel_live_def all_roles)

text \<open>Moving one program counter, with or without the mutex changing hands.\<close>

lemma safe_goto:
  assumes "safe vs s"
    and "holds_mutex p \<longleftrightarrow> m = Some r" and "m = Some (other r) \<longleftrightarrow> mutex s = Some (other r)"
    and "passed_test p \<Longrightarrow> ch_poisoned (chan s) \<or> can_move r (chan s)"
    and "in_section p \<Longrightarrow> can_move r (chan s) \<and> slot s r = own_idx r (chan s)"
    and "r = Producer \<Longrightarrow> needs_value p \<Longrightarrow> to_send s \<noteq> []"
    and "after_copy p \<Longrightarrow> after_copy (pcs s r)"
    and "p = Failed \<Longrightarrow> ch_poisoned (chan s)"
  shows "safe vs (goto r p (s\<lparr>mutex := m\<rparr>))"
  using assms unfolding safe_def goto_def by (cases r) (simp_all add: all_roles)

lemma safe_goto_same:
  assumes "safe vs s" and "holds_mutex p = holds_mutex (pcs s r)"
    and "passed_test p \<Longrightarrow> ch_poisoned (chan s) \<or> can_move r (chan s)"
    and "in_section p \<Longrightarrow> can_move r (chan s) \<and> slot s r = own_idx r (chan s)"
    and "r = Producer \<Longrightarrow> needs_value p \<Longrightarrow> to_send s \<noteq> []"
    and "after_copy p \<Longrightarrow> after_copy (pcs s r)"
    and "p = Failed \<Longrightarrow> ch_poisoned (chan s)"
  shows "safe vs (goto r p s)"
proof -
  have "holds_mutex p \<longleftrightarrow> mutex s = Some r" using assms(1,2) by (simp add: safe_def)
  then show ?thesis using safe_goto [OF assms(1), of p "mutex s" r] assms by simp
qed

lemma safe_facts:
  assumes "safe vs s"
  shows "channel_ok (chan s)" "mutex s = Some r \<longleftrightarrow> holds_mutex (pcs s r)"
    "passed_test (pcs s r) \<Longrightarrow> ch_poisoned (chan s) \<or> can_move r (chan s)"
    "in_section (pcs s r) \<Longrightarrow> can_move r (chan s) \<and> slot s r = own_idx r (chan s)"
    "needs_value (pcs s Producer) \<Longrightarrow> to_send s \<noteq> []"
    "pcs s r = Failed \<Longrightarrow> ch_poisoned (chan s)"
  using assms by (cases r; simp add: safe_def all_roles)+

lemma other_neq [simp]: "other r \<noteq> r" "r \<noteq> other r"
  by (cases r; simp)+

lemma safe_acquire:
  assumes "safe vs s" and "acquire r p s = Some t"
    and "\<not> holds_mutex (pcs s r)" "holds_mutex p" "needs_value (pcs s r)"
    and "\<not> passed_test p" "in_section p \<Longrightarrow> in_section (pcs s r)"
    and "after_copy p \<Longrightarrow> after_copy (pcs s r)" "p \<noteq> Failed"
  shows "safe vs t"
proof -
  have m: "mutex s = None" and t: "t = goto r p (s\<lparr>mutex := Some r\<rparr>)"
    using assms(2) by (auto simp: acquire_def split: if_splits)
  show ?thesis
    unfolding t using assms m safe_facts [OF assms(1)] by (intro safe_goto) auto
qed

lemma safe_release:
  assumes "safe vs s" and "holds_mutex (pcs s r)" "\<not> holds_mutex p"
    and "passed_test p \<Longrightarrow> passed_test (pcs s r)" "\<not> in_section p" "\<not> after_copy p" "p \<noteq> Failed"
    and "needs_value p \<Longrightarrow> needs_value (pcs s r)"
  shows "safe vs (goto r p (s\<lparr>mutex := None\<rparr>))"
proof -
  have "mutex s = Some r" using safe_facts(2) [OF assms(1)] assms(2) by blast
  then have "mutex s \<noteq> Some (other r)" by simp
  then show ?thesis
    using assms safe_facts(3-6) [OF assms(1)] by (intro safe_goto) auto
qed

lemma safe_recheck:
  assumes "safe vs s" "pcs s r = Recheck" "\<not> ch_poisoned (chan s)"
  shows "safe vs (goto r Copy (s\<lparr>slot := (slot s)(r := channel_get (chan s) (own_idx r (chan s)))\<rparr>))"
proof -
  let ?s = "s\<lparr>slot := (slot s)(r := own_idx r (chan s))\<rparr>"
  have "safe vs ?s"
    using assms unfolding safe_def by (cases r) (simp_all add: all_roles)
  moreover have "can_move r (chan s)"
    using assms safe_facts(3) [OF assms(1), of r] by simp
  ultimately have "safe vs (goto r Copy ?s)"
    using assms(2) safe_facts(5) [OF assms(1)] by (intro safe_goto_same) auto
  then show ?thesis
    using safe_facts(1) [OF assms(1)] by (simp add: own_slot)
qed

lemma safe_signal:
  assumes "safe vs s" shows "safe vs (signal r s)"
proof (cases "pcs s r = Sleep")
  case True
  then have "safe vs (goto r Woken s)"
    using safe_facts(5) [OF assms] by (intro safe_goto_same assms) auto
  with True show ?thesis by (simp add: signal_def)
next
  case False
  with assms show ?thesis by (simp add: signal_def)
qed

lemma safe_copy:
  assumes "safe vs s" and "pcs s r = Copy"
  shows "safe vs (goto r Check (copy r s))"
proof (cases r)
  case Producer
  have "channel_ok (chan s)" "slot s Producer = ch_wr_idx (chan s)"
    using assms Producer by (auto simp: safe_def)
  then show ?thesis
    using assms Producer write_own_slot [of "chan s" "hd (to_send s)"]
      after_copy_section [of "pcs s Consumer"]
    by (simp add: safe_def all_roles goto_def)
next
  case Consumer
  then show ?thesis
    using assms by (auto simp: safe_def all_roles goto_def)
qed

lemma safe_publish:
  assumes "safe vs s" and "pcs s r = Update"
  shows "safe vs (goto r (Signal b) (snd (publish r s)))"
proof -
  have ok: "channel_ok (chan s)" and mv: "can_move r (chan s)"
    using assms by (auto simp: safe_def)
  show ?thesis
  proof (cases r)
    case Producer
    then show ?thesis
      using assms advance_wr_items [OF ok] mv ok
      by (auto simp: safe_def all_roles goto_def)
  next
    case Consumer
    then show ?thesis
      using assms advance_rd_items [OF ok] mv ok
      by (auto simp: safe_def all_roles goto_def)
  qed
qed

lemma signal_pcs [simp]: "pcs (signal (other r) s) r = pcs s r"
  by (cases r) (simp_all add: signal_def goto_def)

lemma safe_thread:
  assumes sf: "safe vs s" and st: "thread_step r s = Some t"
  shows "safe vs t"
proof (cases "pcs s r")
  case Start
  then show ?thesis
    using st safe_facts [OF sf]
    by (cases "ch_poisoned (chan s)") (auto simp: thread_step_def split: if_splits intro!: safe_goto_same sf)
next
  case Test
  then show ?thesis
    using st safe_facts [OF sf] not_blocked [of "chan s" r]
    by (cases "blocked r (chan s)") (auto simp: thread_step_def intro!: safe_goto_same sf)
next
  case Lock
  then show ?thesis
    using st by (auto simp: thread_step_def intro: safe_acquire [OF sf])
next
  case Retest
  then show ?thesis
    using st safe_facts [OF sf] not_blocked [of "chan s" r]
    by (cases "blocked r (chan s)") (auto simp: thread_step_def intro!: safe_goto_same sf)
next
  case Wait
  then show ?thesis
    using st by (auto simp: thread_step_def intro: safe_release [OF sf])
next
  case Woken
  then show ?thesis
    using st by (auto simp: thread_step_def intro: safe_acquire [OF sf])
next
  case Unlock
  then show ?thesis
    using st by (auto simp: thread_step_def intro: safe_release [OF sf])
next
  case Recheck
  then show ?thesis
    using st safe_facts [OF sf] safe_recheck [OF sf Recheck]
    by (auto simp: thread_step_def split: if_splits intro!: safe_goto_same sf)
next
  case Copy
  then show ?thesis using st sf safe_copy by (auto simp: thread_step_def)
next
  case Check
  then show ?thesis
    using st safe_facts [OF sf] safe_facts(4) [OF sf, of r]
    by (auto simp: thread_step_def own_slot split: if_splits intro!: safe_goto_same sf)
next
  case Lock2
  then show ?thesis
    using st by (auto simp: thread_step_def intro: safe_acquire [OF sf])
next
  case Update
  then show ?thesis
    using st safe_publish [OF sf Update] by (auto simp: thread_step_def split: prod.splits)
next
  case (Signal was)
  then show ?thesis
    using st safe_signal [OF sf, of "other r"] sf
    by (auto simp: thread_step_def intro!: safe_goto_same)
next
  case Unlock2
  then show ?thesis
    using st by (auto simp: thread_step_def intro: safe_release [OF sf])
qed (use st in \<open>auto simp: thread_step_def\<close>)

lemma safe_set_chan_poison: "safe vs s \<Longrightarrow> safe vs (s\<lparr>chan := channel_poison (chan s), zpc := z\<rparr>)"
  unfolding safe_def by (simp add: all_roles)

lemma safe_set_zpc: "safe vs s \<Longrightarrow> safe vs (s\<lparr>zpc := z\<rparr>)"
  unfolding safe_def by simp

lemma safe_poison:
  assumes "safe vs s" "poison_step s = Some t" shows "safe vs t"
  using assms
  by (cases "zpc s")
    (auto simp: poison_step_def intro: safe_set_chan_poison safe_set_zpc [OF safe_signal])

lemma safe_spurious: "safe vs s \<Longrightarrow> pcs s r = Sleep \<Longrightarrow> safe vs (goto r Woken s)"
  using safe_signal [of vs s r] by (simp add: signal_def)

text \<open>The whole system as a transition system with this invariant.\<close>

definition threads_init :: "'a list \<Rightarrow> 'a cstate \<Rightarrow> bool" where
  "threads_init vs s \<longleftrightarrow>
     (\<exists>c. channel_live c \<and> channel_items c = [] \<and> s = init_threads c vs)"

interpretation threads: transition_system "threads_init vs" sys_step "safe vs"
  for vs :: "'a list"
proof
  show "threads_init vs s \<Longrightarrow> safe vs s" for s
    by (auto simp: threads_init_def intro: safe_init)
  show "safe vs s \<Longrightarrow> sys_step s t \<Longrightarrow> safe vs t" for s t
    by (auto elim!: sys_step.cases intro: safe_thread safe_poison safe_spurious)
qed

lemma threads_init_new:
  assumes "0 < unat elt_size" and "unat elt_size * Suc (unat capacity) < 2 ^ 64"
  shows "threads_init vs (init_threads (channel_new junk elt_size capacity) vs)"
  unfolding threads_init_def
  by (rule exI [where x = "channel_new junk elt_size capacity"])
    (simp add: channel_live_new [OF assms] channel_ok_new(2) [OF assms])

lemma safe_sequence:
  assumes "safe vs s"
  shows "received s @ channel_items (chan s) @ to_send s = vs"
  using assms by (simp add: safe_def flip: append_assoc)

lemma safe_exclusion:
  assumes "safe vs s"
  shows "\<not> (holds_mutex (pcs s Producer) \<and> holds_mutex (pcs s Consumer))"
  using safe_facts(2) [OF assms, of Producer] safe_facts(2) [OF assms, of Consumer]
  by (metis option.inject role.distinct(1))

subsection \<open>No lost wake-up, no deadlock\<close>

text \<open>
  As long as nobody poisons the channel: a thread sleeps only while its test is true, or while the
  other one is about to signal it; the thread that is about to call \<open>pthread_cond_wait\<close>
  holds the mutex, so its test is still true.
\<close>

definition awake :: "'a cstate \<Rightarrow> bool" where
  "awake s \<longleftrightarrow> \<not> ch_poisoned (chan s) \<and>
     (\<forall>r. pcs s r = Wait \<longrightarrow> \<not> can_move r (chan s)) \<and>
     (\<forall>r. pcs s r = Sleep \<longrightarrow> \<not> can_move r (chan s) \<or> pcs s (other r) = Signal True)"

lemma awake_init: "channel_live c \<Longrightarrow> awake (init_threads c vs)"
  by (simp add: awake_def init_threads_def channel_live_def)

lemma blocked_iff:
  assumes "channel_ok c" "\<not> ch_poisoned c"
  shows "blocked r c \<longleftrightarrow> \<not> can_move r c"
  using assms channel_is_full_iff [of c] channel_is_empty_iff [of c] channel_items_bound [of c]
  by (cases r) auto

lemma awake_goto:
  assumes "awake s" and "pcs s r \<noteq> Signal True"
    and "p = Wait \<Longrightarrow> \<not> can_move r (chan s)"
    and "p = Sleep \<Longrightarrow> \<not> can_move r (chan s)"
  shows "awake (goto r p (s\<lparr>mutex := m\<rparr>))"
  using assms unfolding awake_def goto_def by (cases r) (simp_all add: all_roles)

lemma awake_goto_same:
  assumes "awake s" and "pcs s r \<noteq> Signal True"
    and "p = Wait \<Longrightarrow> \<not> can_move r (chan s)" and "p \<noteq> Sleep"
  shows "awake (goto r p s)"
  using awake_goto [OF assms(1,2), of p "mutex s"] assms by simp

lemma awake_acquire:
  "awake s \<Longrightarrow> acquire r p s = Some t \<Longrightarrow> pcs s r \<noteq> Signal True \<Longrightarrow> p \<notin> {Wait, Sleep} \<Longrightarrow> awake t"
  by (auto simp: acquire_def split: if_splits intro!: awake_goto)

lemma awake_slot [simp]: "awake (s\<lparr>slot := f\<rparr>) = awake s" "awake (s\<lparr>mutex := m\<rparr>) = awake s"
  by (simp_all add: awake_def)

lemma awake_copy:
  assumes "awake s" "safe vs s" "pcs s r = Copy"
  shows "awake (goto r Check (copy r s))"
proof (cases r)
  case Producer
  have "channel_ok (chan s)" "slot s Producer = ch_wr_idx (chan s)"
    using assms Producer by (auto simp: safe_def)
  then show ?thesis
    using assms(1,3) Producer write_own_slot [of "chan s" "hd (to_send s)"]
    by (simp add: awake_def all_roles goto_def)
next
  case Consumer
  then show ?thesis
    using assms(1,3) by (simp add: awake_def all_roles goto_def)
qed

text \<open>The index update wakes the other side exactly when it may be asleep.\<close>

lemma awake_publish:
  assumes aw: "awake s" and sf: "safe vs s" and "pcs s r = Update"
  shows "awake (goto r (Signal (fst (publish r s))) (snd (publish r s)))"
proof -
  have ok: "channel_ok (chan s)" and mv: "can_move r (chan s)" and np: "\<not> ch_poisoned (chan s)"
    using assms by (auto simp: safe_def awake_def)
  have "mutex s = Some r"
    using safe_facts(2) [OF sf] assms(3) by simp
  then have nw: "pcs s (other r) \<noteq> Wait"
    using safe_facts(2) [OF sf, of "other r"] by auto
  show ?thesis
  proof (cases r)
    case Producer
    then show ?thesis
      using aw np nw assms(3) channel_is_empty_iff [OF ok np]
      by (simp add: awake_def all_roles goto_def)
  next
    case Consumer
    have "length (channel_items (chan s)) \<le> channel_bound (chan s)"
      using ok by (rule channel_items_bound)
    then show ?thesis
      using Consumer aw np nw assms(3) channel_is_full_iff [OF ok np]
      by (simp add: awake_def all_roles goto_def)
  qed
qed

lemma awake_signal:
  assumes "awake s" and "pcs s r = Signal was"
  shows "awake (goto r Unlock2 (if was then signal (other r) s else s))"
  using assms unfolding awake_def goto_def signal_def by (cases r; cases was) (simp_all add: all_roles)

lemma awake_thread:
  assumes aw: "awake s" and sf: "safe vs s" and st: "thread_step r s = Some t"
  shows "awake t"
proof -
  have ok: "channel_ok (chan s)" and np: "\<not> ch_poisoned (chan s)"
    using assms by (auto simp: safe_def awake_def)
  note bl = blocked_iff [OF ok np, of r]
  have aw_wait: "pcs s r = Wait \<Longrightarrow> \<not> can_move r (chan s)"
    using aw by (simp add: awake_def)
  show ?thesis
  proof (cases "pcs s r")
    case Copy
    then show ?thesis using st aw sf awake_copy by (auto simp: thread_step_def)
  next
    case Update
    then show ?thesis
      using st awake_publish [OF aw sf Update] by (auto simp: thread_step_def split: prod.splits)
  next
    case (Signal was)
    then show ?thesis using st awake_signal [OF aw Signal] by (auto simp: thread_step_def)
  next
    case Retest
    then show ?thesis
      using st aw bl
      by (cases "blocked r (chan s)") (auto simp: thread_step_def intro!: awake_goto_same)
  next
    case Wait
    then show ?thesis
      using st aw aw_wait by (auto simp: thread_step_def intro!: awake_goto)
  next
    case Recheck
    then show ?thesis
      using st np aw
      by (auto simp: thread_step_def intro!: awake_goto_same)
  qed (use st aw np in \<open>auto simp: thread_step_def split: if_splits
        intro!: awake_goto awake_goto_same intro: awake_acquire\<close>)
qed

lemma signal_chan [simp]: "chan (signal r s) = chan s" "to_send (signal r s) = to_send s"
  "received (signal r s) = received s"
  by (simp_all add: signal_def goto_def)

lemma goto_fields [simp]: "chan (goto r p s) = chan s" "to_send (goto r p s) = to_send s"
  "received (goto r p s) = received s" "mutex (goto r p s) = mutex s"
  "pcs (goto r p s) r = p" "pcs (goto r p s) (other r) = pcs s (other r)"
  by (simp_all add: goto_def)

lemma thread_step_bound:
  "thread_step r s = Some t \<Longrightarrow> channel_bound (chan t) = channel_bound (chan s)"
  by (cases "pcs s r"; cases r) (auto simp: thread_step_def acquire_def split: if_splits)

interpretation quiet: transition_system "threads_init vs" quiet_step "\<lambda>s. safe vs s \<and> awake s"
  for vs :: "'a list"
proof
  show "threads_init vs s \<Longrightarrow> safe vs s \<and> awake s" for s
    by (auto simp: threads_init_def intro: safe_init awake_init)
  show "safe vs s \<and> awake s \<Longrightarrow> quiet_step s t \<Longrightarrow> safe vs t \<and> awake t" for s t
    by (auto elim!: quiet_step.cases intro: safe_thread awake_thread)
qed

lemma quiet_steps_bound: "quiet_step\<^sup>*\<^sup>* s t \<Longrightarrow> channel_bound (chan t) = channel_bound (chan s)"
  by (induction rule: rtranclp_induct) (auto elim!: quiet_step.cases dest: thread_step_bound)

text \<open>A thread that cannot move is asleep, finished, failed, or waits for a held mutex.\<close>

lemma thread_stuck:
  assumes "thread_step r s = None"
  shows "pcs s r = Sleep \<or> pcs s r = Failed \<or> (pcs s r = Start \<and> r = Producer \<and> to_send s = []) \<or>
    (\<not> holds_mutex (pcs s r) \<and> mutex s \<noteq> None)"
  using assms by (cases "pcs s r") (auto simp: thread_step_def acquire_def split: if_splits prod.splits)

lemma stuck_is_done:
  assumes sf: "safe vs s" and aw: "awake s" and bd: "0 < channel_bound (chan s)"
    and st: "\<And>r. thread_step r s = None"
  shows "received s = vs \<and> to_send s = [] \<and> pcs s Producer = Start \<and> pcs s Consumer = Sleep"
proof -
  have np: "\<not> ch_poisoned (chan s)" using aw by (simp add: awake_def)
  have "mutex s = None"
  proof (rule ccontr)
    assume "mutex s \<noteq> None"
    then obtain r where "mutex s = Some r" by blast
    then have "holds_mutex (pcs s r)" using safe_facts(2) [OF sf] by blast
    then show False using thread_stuck [OF st [of r]] by auto
  qed
  then have cases: "pcs s r = Sleep \<or> pcs s r = Start \<and> r = Producer \<and> to_send s = []" for r
    using thread_stuck [OF st [of r]] safe_facts(6) [OF sf, of r] np by auto
  then have con: "pcs s Consumer = Sleep" by blast
  then have empty: "channel_items (chan s) = []"
    using aw cases [of Producer] by (auto simp: awake_def all_roles)
  then have "pcs s Producer \<noteq> Sleep"
    using aw bd con by (auto simp: awake_def all_roles)
  then have "pcs s Producer = Start" "to_send s = []" using cases by blast+
  then show ?thesis
    using safe_sequence [OF sf] empty con by simp
qed

subsection \<open>Every run of the two threads is finite\<close>

text \<open>
  The work left: for each thread the steps to the end of its current call and a fixed amount for each
  call still to make. The step that signals pays for the steps of the thread it wakes.
\<close>

primrec rank :: "pc \<Rightarrow> nat" where
  "rank Start = 15" | "rank Test = 14" | "rank Lock = 13" | "rank Woken = 13"
| "rank Retest = 12" | "rank Wait = 11" | "rank Sleep = 10" | "rank Unlock = 9"
| "rank Recheck = 8" | "rank Copy = 7" | "rank Check = 6" | "rank Lock2 = 5"
| "rank Update = 4" | "rank (Signal b) = 24" | "rank Unlock2 = 18" | "rank Failed = 0"

definition work :: "'a cstate \<Rightarrow> nat" where
  "work s = rank (pcs s Producer) + rank (pcs s Consumer) +
     60 * length (to_send s) + 30 * length (channel_items (chan s))"

lemma work_goto: "rank p < rank (pcs s r) \<Longrightarrow> work (goto r p (s\<lparr>mutex := m\<rparr>)) < work s"
  by (cases r) (simp_all add: work_def goto_def)

lemma work_goto_same: "rank p < rank (pcs s r) \<Longrightarrow> work (goto r p s) < work s"
  by (cases r) (simp_all add: work_def goto_def)

lemma work_acquire: "acquire r p s = Some t \<Longrightarrow> rank p < rank (pcs s r) \<Longrightarrow> work t < work s"
  by (auto simp: acquire_def split: if_splits intro: work_goto)

lemma work_copy:
  assumes "safe vs s" "pcs s r = Copy"
  shows "work (goto r Check (copy r s)) < work s"
  using assms write_own_slot(1) [of "chan s" "hd (to_send s)"]
  by (cases r) (simp_all add: work_def goto_def safe_def all_roles)

lemma work_publish:
  assumes sf: "safe vs s" and "pcs s r = Update"
  shows "work (goto r (Signal b) (snd (publish r s))) < work s"
proof -
  have ok: "channel_ok (chan s)" and mv: "can_move r (chan s)"
    using assms by (auto simp: safe_def)
  show ?thesis
  proof (cases r)
    case Producer
    then obtain v rest where "to_send s = v # rest"
      using safe_facts(5) [OF sf] assms(2) by (cases "to_send s") auto
    then show ?thesis
      using Producer assms(2) mv advance_wr_items [OF ok] by (simp add: work_def goto_def)
  next
    case Consumer
    then have "length (channel_items (chan s)) = Suc (length (channel_items (advance_rd (chan s))))"
      using mv arg_cong [OF advance_rd_items [OF ok], of length] by simp
    then show ?thesis
      using Consumer assms(2) by (simp add: work_def goto_def)
  qed
qed

lemma work_signal:
  "pcs s r = Signal was \<Longrightarrow> work (goto r Unlock2 (if was then signal (other r) s else s)) < work s"
  by (cases r) (auto simp: work_def goto_def signal_def)

lemma work_thread:
  assumes sf: "safe vs s" and st: "thread_step r s = Some t"
  shows "work t < work s"
proof (cases "pcs s r")
  case Copy
  then show ?thesis using st work_copy [OF sf] by (auto simp: thread_step_def)
next
  case Update
  then show ?thesis
    using st work_publish [OF sf Update] by (auto simp: thread_step_def split: prod.splits)
next
  case (Signal was)
  then show ?thesis using st work_signal [OF Signal] by (auto simp: thread_step_def)
next
  case Recheck
  then have "work (goto r Copy (s\<lparr>slot := f\<rparr>)) < work s" for f
    using work_goto_same [of Copy "s\<lparr>slot := f\<rparr>" r] by (simp add: work_def)
  moreover have "work (goto r Failed s) < work s"
    using Recheck by (intro work_goto_same) simp
  ultimately show ?thesis
    using st Recheck by (auto simp: thread_step_def split: if_splits)
qed (use st in \<open>auto simp: thread_step_def split: if_splits
      intro: work_goto work_goto_same work_acquire\<close>)

lemma quiet_run_bounded:
  assumes "safe vs s" "awake s" "(quiet_step ^^ k) s t"
  shows "k + work t \<le> work s"
  using assms(3)
proof (induction k arbitrary: t)
  case 0
  then show ?case by simp
next
  case (Suc k)
  then obtain u where u: "(quiet_step ^^ k) s u" "quiet_step u t" by auto
  have "safe vs u"
    using quiet.inv_steps [of s u vs] assms u(1) by (auto dest: relpowp_imp_rtranclp)
  then have "work t < work u"
    using u(2) by (auto elim!: quiet_step.cases dest: work_thread)
  then show ?case using Suc.IH [OF u(1)] by simp
qed

lemma quiet_stuck: "\<not> (\<exists>u. quiet_step t u) \<Longrightarrow> thread_step r t = None"
  using quiet_step.quiet by (cases "thread_step r t") blast+

lemma work_init: "channel_items c = [] \<Longrightarrow> work (init_threads c vs) = 60 * length vs + 30"
  by (simp add: work_def init_threads_def)

subsection \<open>Properties\<close>

text \<open>C12: in every state that any interleaving of the single steps of a producer, a consumer and a
  poisoning thread reaches, spurious wake-ups included, what was received, what is in the ring and
  what is still to be sent make up the producer's sequence: nothing is lost, repeated or reordered.\<close>

theorem threads_deliver_in_order:
  assumes "0 < unat elt_size" and "unat elt_size * Suc (unat capacity) < 2 ^ 64"
    and "sys_step\<^sup>*\<^sup>* (init_threads (channel_new junk elt_size capacity) vs) s"
  shows "received s @ channel_items (chan s) @ to_send s = vs"
  using threads.inv_reachable [OF threads_init_new [OF assms(1,2)] assms(3)]
  by (rule safe_sequence)

theorem threads_deliver_in_order_witness:
  "received (run_schedule (replicate 12 (Thread Producer) @ replicate 12 (Thread Consumer))
      (init_threads (channel_new 0 4 2) [7, 8 :: nat])) = [7] \<and>
   (let s = run_schedule (replicate 12 (Thread Producer) @ replicate 12 (Thread Consumer))
      (init_threads (channel_new 0 4 2) [7, 8 :: nat])
    in received s @ channel_items (chan s) @ to_send s = [7, 8])"
proof -
  have "received (run_schedule (replicate 12 (Thread Producer) @ replicate 12 (Thread Consumer))
      (init_threads (channel_new 0 4 2) [7, 8 :: nat])) = [7]"
    by code_simp
  moreover have "received s @ channel_items (chan s) @ to_send s = [7, 8]"
    if "s = run_schedule as (init_threads (channel_new 0 4 2) [7, 8 :: nat])" for s as
    unfolding that by (rule threads_deliver_in_order [OF _ _ run_schedule_reachable]) simp_all
  ultimately show ?thesis unfolding Let_def by blast
qed

text \<open>C13: the mutex is exclusive in every reachable state: the two threads are never both inside a
  region it protects (the wait loops and the index updates).\<close>

theorem threads_mutual_exclusion:
  assumes "0 < unat elt_size" and "unat elt_size * Suc (unat capacity) < 2 ^ 64"
    and "sys_step\<^sup>*\<^sup>* (init_threads (channel_new junk elt_size capacity) vs) s"
  shows "\<not> (holds_mutex (pcs s Producer) \<and> holds_mutex (pcs s Consumer))"
  using threads.inv_reachable [OF threads_init_new [OF assms(1,2)] assms(3)]
  by (rule safe_exclusion)

theorem threads_mutual_exclusion_witness:
  "holds_mutex (pcs (run_schedule [Thread Consumer, Thread Consumer, Thread Consumer, Thread Producer]
      (init_threads (channel_new 0 4 2) [7, 8 :: nat])) Consumer) \<and>
   \<not> holds_mutex (pcs (run_schedule [Thread Consumer, Thread Consumer, Thread Consumer, Thread Producer]
      (init_threads (channel_new 0 4 2) [7, 8 :: nat])) Producer)"
proof -
  have "holds_mutex (pcs (run_schedule
      [Thread Consumer, Thread Consumer, Thread Consumer, Thread Producer]
      (init_threads (channel_new 0 4 2) [7, 8 :: nat])) Consumer)"
    by code_simp
  moreover have "\<not> (holds_mutex (pcs s Producer) \<and> holds_mutex (pcs s Consumer))"
    if "s = run_schedule as (init_threads (channel_new 0 4 2) [7, 8 :: nat])" for s as
    unfolding that by (rule threads_mutual_exclusion [OF _ _ run_schedule_reachable]) simp_all
  ultimately show ?thesis by blast
qed

text \<open>C14: as long as nobody poisons the channel, the two threads always finish: on a channel of
  positive capacity a run takes at most \<open>60 * length vs + 30\<close> steps however it is scheduled, and
  where it cannot go on everything has been received; no wake-up is lost, no deadlock is reached.\<close>

theorem quiet_threads_finish:
  assumes "0 < unat elt_size" and "unat elt_size * Suc (unat capacity) < 2 ^ 64"
    and "0 < unat capacity"
    and "(quiet_step ^^ k) (init_threads (channel_new junk elt_size capacity) vs) s"
  shows "k \<le> 60 * length vs + 30 \<and> ((\<exists>t. quiet_step s t) \<or> received s = vs)"
proof -
  let ?c = "channel_new junk elt_size capacity"
  let ?i = "init_threads ?c vs"
  have run: "quiet_step\<^sup>*\<^sup>* ?i s" using assms(4) by (rule relpowp_imp_rtranclp)
  have i: "safe vs ?i \<and> awake ?i"
    using quiet.inv_init [OF threads_init_new [OF assms(1,2)]] .
  have s: "safe vs s \<and> awake s"
    using quiet.inv_reachable [OF threads_init_new [OF assms(1,2)] run] .
  have "k + work s \<le> work ?i"
    using i assms(4) by (intro quiet_run_bounded) auto
  then have "k \<le> 60 * length vs + 30"
    by (simp add: work_init [OF channel_ok_new(2) [OF assms(1,2)]])
  moreover have "0 < channel_bound (chan s)"
    using quiet_steps_bound [OF run] assms(3)
    by (simp add: init_threads_def channel_ok_new(3) [OF assms(1,2)])
  ultimately show ?thesis
    using stuck_is_done [of vs s] s quiet_stuck [of s] by blast
qed

theorem quiet_threads_finish_witness:
  "\<exists>s. (quiet_step ^^ 1) (init_threads (channel_new (0 :: nat) 4 2) [7]) s \<and>
     ((\<exists>t. quiet_step s t) \<or> received s = [7])"
proof -
  let ?i = "init_threads (channel_new (0 :: nat) 4 2) [7]"
  obtain s where "thread_step Producer ?i = Some s"
    by (simp add: thread_step_def init_threads_def)
  then have "(quiet_step ^^ 1) ?i s" by (auto intro: quiet_step.quiet)
  then show ?thesis using quiet_threads_finish [of 4 2 1 0 "[7]" s] by auto
qed

text \<open>C28: poisoning can be missed. \<open>channel_poison\<close> sets the flag and signals without taking the
  mutex, so a consumer that has tested the flag under the mutex but is not waiting yet goes to
  sleep on a poisoned channel; no step of the two threads or the poisoner wakes it again.\<close>

theorem poison_wakeup_can_be_lost:
  "\<exists>sched. let s = run_schedule sched (init_threads (channel_new 0 4 2) [7, 8 :: nat])
     in ch_poisoned (chan s) \<and> pcs s Consumer = Sleep \<and>
        actor_step (Thread Producer) s = None \<and> actor_step (Thread Consumer) s = None \<and>
        actor_step Poisoner s = None"
proof -
  define sched where "sched = replicate 4 (Thread Consumer) @ replicate 3 Poisoner @
    [Thread Consumer, Thread Producer]"
  have "ch_poisoned (chan (run_schedule (replicate 4 (Thread Consumer) @ replicate 3 Poisoner @
      [Thread Consumer, Thread Producer]) (init_threads (channel_new 0 4 2) [7, 8 :: nat]))) \<and>
    pcs (run_schedule (replicate 4 (Thread Consumer) @ replicate 3 Poisoner @
      [Thread Consumer, Thread Producer]) (init_threads (channel_new 0 4 2) [7, 8 :: nat]))
      Consumer = Sleep \<and>
    pcs (run_schedule (replicate 4 (Thread Consumer) @ replicate 3 Poisoner @
      [Thread Consumer, Thread Producer]) (init_threads (channel_new 0 4 2) [7, 8 :: nat]))
      Producer = Failed \<and>
    zpc (run_schedule (replicate 4 (Thread Consumer) @ replicate 3 Poisoner @
      [Thread Consumer, Thread Producer]) (init_threads (channel_new 0 4 2) [7, 8 :: nat])) = Z_End"
    by code_simp
  then show ?thesis
    by (intro exI [of _ sched])
      (simp only: sched_def [symmetric] Let_def actor_step.simps thread_step_def poison_step_def
        pc.case poison_pc.case simp_thms)
qed

end
