(* ===== verification/Numbers.thy ===== *)
theory Numbers
  imports Prelude Double "HOL-Library.Char_ord"
begin

section \<open>Numbers as text\<close>

text \<open>
  The conversions of the C library between numbers and text that the programs use: \<open>atoi\<close>, \<open>atol\<close>,
  \<open>atoll\<close>, \<open>atof\<close>, and the decimal digits that a user types and that \<open>printf\<close> writes.
\<close>

subsection \<open>Reading numbers\<close>

text \<open>\<open>isspace\<close> of the C locale, and the value of a digit in a base of at most 36.\<close>

definition isspace :: "char \<Rightarrow> bool" where
  "isspace c = (let n = of_char c :: nat in n = 32 \<or> 9 \<le> n \<and> n \<le> 13)"

definition digit_value :: "char \<Rightarrow> nat" where
  "digit_value c =
     (let n = of_char c :: nat
      in if 48 \<le> n \<and> n \<le> 57 then n - 48
         else if 97 \<le> n \<and> n \<le> 122 then n - 87
         else if 65 \<le> n \<and> n \<le> 90 then n - 55 else 36)"

fun digits :: "nat \<Rightarrow> string \<Rightarrow> nat list \<times> string" where
  "digits b [] = ([], [])"
| "digits b (c # cs) =
     (if digit_value c < b then (let (ds, r) = digits b cs in (digit_value c # ds, r))
      else ([], c # cs))"

definition digits_value :: "nat \<Rightarrow> nat list \<Rightarrow> int" where
  "digits_value b ds = foldl (\<lambda>v d. v * int b + int d) 0 ds"

definition read_sign :: "string \<Rightarrow> bool \<times> string" where
  "read_sign s =
     (case s of
        [] \<Rightarrow> (False, [])
      | c # cs \<Rightarrow> if c = CHR ''-'' then (True, cs) else if c = CHR ''+'' then (False, cs)
                  else (False, s))"

text \<open>The integer at the start of a string, zero when there is none.\<close>

definition read_int :: "string \<Rightarrow> int" where
  "read_int s =
     (let (neg, r) = read_sign s; v = digits_value 10 (fst (digits 10 r))
      in if neg then - v else v)"

text \<open>\<open>atoi\<close>, \<open>atol\<close> and \<open>atoll\<close>: undefined when the number does not fit.\<close>

definition atoi :: "string \<Rightarrow> int outcome" where
  "atoi s = (let v = read_int (dropWhile isspace s)
             in if - (2 ^ 31) \<le> v \<and> v < 2 ^ 31 then Ret v else Undef)"

definition atol :: "string \<Rightarrow> int outcome" where
  "atol s = (let v = read_int (dropWhile isspace s)
             in if - (2 ^ 63) \<le> v \<and> v < 2 ^ 63 then Ret v else Undef)"

definition atoll :: "string \<Rightarrow> int outcome" where
  "atoll s = atol s"

text \<open>A product of \<open>long long\<close>s: undefined when it does not fit.\<close>

definition llong_mult :: "int \<Rightarrow> int \<Rightarrow> int outcome" where
  "llong_mult a b = (let v = a * b in if - (2 ^ 63) \<le> v \<and> v < 2 ^ 63 then Ret v else Undef)"

text \<open>
  A number with a fraction and an exponent: digits of base \<open>b\<close>, an exponent after the letter \<open>e\<close>
  that stands for powers of \<open>eb\<close>. \<open>None\<close> when there is no digit.
\<close>

definition to_lower :: "char \<Rightarrow> char" where
  "to_lower c = (let n = of_char c :: nat in if 65 \<le> n \<and> n \<le> 90 then char_of (n + 32) else c)"

definition read_exponent :: "char \<Rightarrow> string \<Rightarrow> int" where
  "read_exponent e s =
     (case s of [] \<Rightarrow> 0 | c # cs \<Rightarrow> if to_lower c = e then read_int cs else 0)"

definition read_fraction :: "nat \<Rightarrow> char \<Rightarrow> nat \<Rightarrow> string \<Rightarrow> rat option" where
  "read_fraction b e eb s =
     (let (ip, r1) = digits b s;
          (fp, r2) = (case r1 of
                        [] \<Rightarrow> ([], [])
                      | c # cs \<Rightarrow> if c = CHR ''.'' then digits b cs else ([], r1))
      in if ip = [] \<and> fp = [] then None
         else Some (of_int (digits_value b (ip @ fp)) / of_nat b ^ length fp *
                    of_nat eb powi read_exponent e r2))"

text \<open>\<open>strtod\<close>: infinity, NaN, hexadecimal and decimal numbers; zero when there is none.\<close>

definition read_magnitude :: "string \<Rightarrow> rat" where
  "read_magnitude s =
     (let dec = (case read_fraction 10 CHR ''e'' 10 s of None \<Rightarrow> 0 | Some x \<Rightarrow> x)
      in case s of
           z # x # r \<Rightarrow>
             if z = CHR ''0'' \<and> to_lower x = CHR ''x''
             then (case read_fraction 16 CHR ''p'' 2 r of None \<Rightarrow> dec | Some v \<Rightarrow> v) else dec
         | _ \<Rightarrow> dec)"

definition strtod :: "string \<Rightarrow> dbl" where
  "strtod s =
     (let (neg, r) = read_sign (dropWhile isspace s); word = map to_lower (take 3 r)
      in if word = ''inf'' then Infty neg
         else if word = ''nan'' then NaN
         else ieee_round (if neg then - read_magnitude r else read_magnitude r))"

text \<open>\<open>atof\<close> is undefined when the number itself is too large.\<close>

definition atof :: "string \<Rightarrow> dbl outcome" where
  "atof s =
     (let v = strtod s; (_, r) = read_sign (dropWhile isspace s)
      in case v of
           Infty neg \<Rightarrow> if map to_lower (take 3 r) = ''inf'' then Ret v else Undef
         | _ \<Rightarrow> Ret v)"

subsection \<open>Writing numbers\<close>

text \<open>The decimal digits of a number, as a user types them.\<close>

definition digit_char :: "nat \<Rightarrow> char" where
  "digit_char d = char_of (48 + d)"

fun show_nat :: "nat \<Rightarrow> string" where
  "show_nat n =
     (if n < 10 then [digit_char n] else show_nat (n div 10) @ [digit_char (n mod 10)])"

declare show_nat.simps [simp del]

definition show_int :: "int \<Rightarrow> string" where
  "show_int v = (if v < 0 then CHR ''-'' # show_nat (nat (- v)) else show_nat (nat v))"

definition show_decimal :: "nat \<Rightarrow> nat list \<Rightarrow> string" where
  "show_decimal n fs = show_nat n @ CHR ''.'' # map digit_char fs"

definition decimal_value :: "nat \<Rightarrow> nat list \<Rightarrow> rat" where
  "decimal_value n fs = of_nat n + of_int (digits_value 10 fs) / 10 ^ length fs"

named_theorems digit_simps \<open>characters of decimal numbers\<close>

lemma digit_char_code: "d < 10 \<Longrightarrow> of_char (digit_char d) = 48 + d"
  by (simp add: digit_char_def)

lemma digit_char_value [digit_simps]: "d < 10 \<Longrightarrow> digit_value (digit_char d) = d"
  by (simp add: digit_value_def digit_char_code Let_def)

lemma digit_char_no_space [digit_simps]: "d < 10 \<Longrightarrow> \<not> isspace (digit_char d)"
  by (simp add: isspace_def digit_char_code Let_def)

lemma digit_char_lower [digit_simps]: "d < 10 \<Longrightarrow> to_lower (digit_char d) = digit_char d"
  by (simp add: to_lower_def digit_char_code Let_def)

lemma digit_char_neq [digit_simps]:
  assumes "d < 10" "of_char c < (48::nat) \<or> (57::nat) < of_char c"
  shows "digit_char d \<noteq> c"
  using assms digit_char_code [OF assms(1)] by auto

text \<open>Every number is a list of digits, the first of them known to exist.\<close>

lemma show_nat_digits:
  "\<exists>d ds. show_nat n = map digit_char (d # ds) \<and> list_all (\<lambda>d. d < 10) (d # ds) \<and>
     digits_value 10 (d # ds) = int n"
proof (induction n rule: show_nat.induct)
  case (1 n)
  show ?case
  proof (cases "n < 10")
    case True
    then show ?thesis
      by (intro exI [of _ n] exI [of _ "[]"]) (simp add: show_nat.simps [of n] digits_value_def)
  next
    case False
    then obtain d ds where "show_nat (n div 10) = map digit_char (d # ds)"
      "list_all (\<lambda>d. d < 10) (d # ds)" "digits_value 10 (d # ds) = int (n div 10)"
      using 1 by blast
    then show ?thesis
      using False by (intro exI [of _ d] exI [of _ "ds @ [n mod 10]"])
        (simp add: show_nat.simps [of n] digits_value_def zdiv_int zmod_int)
  qed
qed

lemma digits_of_chars:
  assumes "list_all (\<lambda>d. d < 10) ds" "r = [] \<or> 10 \<le> digit_value (hd r)"
  shows "digits 10 (map digit_char ds @ r) = (ds, r)"
  using assms(1)
proof (induction ds)
  case Nil
  then show ?case using assms(2) by (cases r) auto
qed (simp add: digit_simps)

lemma digits_value_append:
  "digits_value b (xs @ ys) = digits_value b xs * int b ^ length ys + digits_value b ys"
proof (induction ys rule: rev_induct)
  case (snoc y ys)
  then show ?case by (simp add: digits_value_def algebra_simps flip: append_assoc)
qed (simp add: digits_value_def)

lemma read_int_nat: "read_int (show_nat n) = int n" "read_int (CHR ''-'' # show_nat n) = - int n"
proof -
  obtain d ds where s: "show_nat n = map digit_char (d # ds)" "list_all (\<lambda>d. d < 10) (d # ds)"
    "digits_value 10 (d # ds) = int n"
    using show_nat_digits by blast
  have "digit_char d \<noteq> CHR ''-''" "digit_char d \<noteq> CHR ''+''"
    using s(2) by (simp_all add: digit_char_neq)
  then show "read_int (show_nat n) = int n" "read_int (CHR ''-'' # show_nat n) = - int n"
    using digits_of_chars [OF s(2), of "[]"] s by (simp_all add: read_int_def read_sign_def)
qed

lemma dropWhile_show_nat: "dropWhile isspace (show_nat n @ r) = show_nat n @ r"
proof -
  obtain d ds where "show_nat n = map digit_char (d # ds)" "d < 10"
    using show_nat_digits [of n] by auto
  then show ?thesis by (simp add: digit_simps)
qed

lemma read_int_show: "read_int (dropWhile isspace (show_int v)) = v"
  using dropWhile_show_nat [of _ "[]"]
  by (simp add: show_int_def read_int_nat isspace_def)

lemma atoi_show: "- (2 ^ 31) \<le> v \<Longrightarrow> v < 2 ^ 31 \<Longrightarrow> atoi (show_int v) = Ret v"
  by (simp add: atoi_def read_int_show)

lemma atol_show: "- (2 ^ 63) \<le> v \<Longrightarrow> v < 2 ^ 63 \<Longrightarrow> atol (show_int v) = Ret v"
  by (simp add: atol_def read_int_show)

text \<open>The same for numbers with a fraction; \<open>f\<close> is the point with what follows it, or nothing.\<close>

lemma read_fraction_decimal:
  assumes "list_all (\<lambda>d. d < 10) fs"
  shows "read_fraction 10 CHR ''e'' 10 (show_decimal n fs) = Some (decimal_value n fs)"
    and "read_fraction 10 CHR ''e'' 10 (show_nat n) = Some (of_nat n)"
proof -
  obtain d ds where s: "show_nat n = map digit_char (d # ds)" "list_all (\<lambda>d. d < 10) (d # ds)"
    "digits_value 10 (d # ds) = int n"
    using show_nat_digits by blast
  have "digits 10 (show_decimal n fs) = (d # ds, CHR ''.'' # map digit_char fs)"
    using digits_of_chars [OF s(2), of "CHR ''.'' # map digit_char fs"]
    by (simp add: show_decimal_def s(1) digit_value_def)
  moreover have "digits 10 (map digit_char fs) = (fs, [])"
    using digits_of_chars [OF assms, of "[]"] by simp
  moreover have "digits_value 10 ((d # ds) @ fs) = int n * 10 ^ length fs + digits_value 10 fs"
    by (simp only: digits_value_append s(3)) simp
  ultimately show "read_fraction 10 CHR ''e'' 10 (show_decimal n fs) = Some (decimal_value n fs)"
    by (simp add: read_fraction_def read_exponent_def decimal_value_def add_divide_distrib)
  have "digits 10 (show_nat n) = (d # ds, [])"
    using digits_of_chars [OF s(2), of "[]"] by (simp add: s(1))
  then show "read_fraction 10 CHR ''e'' 10 (show_nat n) = Some (of_nat n)"
    using s(3) by (simp add: read_fraction_def read_exponent_def)
qed

lemma read_magnitude_dec:
  assumes "read_fraction 10 CHR ''e'' 10 s = Some v" "s = map digit_char (d # ds) @ f"
    "list_all (\<lambda>d. d < 10) (d # ds)" "f = [] \<or> hd f = CHR ''.''"
  shows "read_magnitude s = v"
proof (cases "ds @ map (\<lambda>_. 0) f")
  case Nil
  then show ?thesis using assms by (simp add: read_magnitude_def)
next
  case (Cons x xs)
  have "to_lower (hd (map digit_char ds @ f)) \<noteq> CHR ''x''"
  proof (cases ds)
    case Nil
    with Cons assms(4) show ?thesis by (cases f) (auto simp: to_lower_def)
  next
    case (Cons e es)
    with assms(3) show ?thesis by (simp add: digit_simps)
  qed
  then show ?thesis using assms by (auto simp: read_magnitude_def split: list.split)
qed

lemma strtod_dec:
  assumes "s = map digit_char (d # ds) @ f" "list_all (\<lambda>d. d < 10) (d # ds)"
    "f = [] \<or> hd f = CHR ''.''" "read_fraction 10 CHR ''e'' 10 s = Some v"
  shows "strtod s = ieee_round v" "ieee_round v = Fin r \<Longrightarrow> atof s = Ret (Fin r)"
proof -
  have d: "\<not> isspace (digit_char d)" "digit_char d \<noteq> CHR ''-''" "digit_char d \<noteq> CHR ''+''"
    "to_lower (digit_char d) \<noteq> CHR ''i''" "to_lower (digit_char d) \<noteq> CHR ''n''"
    using assms(2) by (simp_all add: digit_simps)
  have "read_magnitude s = v" by (rule read_magnitude_dec [OF assms(4,1,2,3)])
  then show strtod: "strtod s = ieee_round v"
    using d by (simp add: strtod_def read_sign_def assms(1))
  then show "ieee_round v = Fin r \<Longrightarrow> atof s = Ret (Fin r)"
    by (simp add: atof_def split: prod.split)
qed

lemma atof_show_decimal:
  assumes "list_all (\<lambda>d. d < 10) fs" "ieee_round (decimal_value n fs) = Fin r"
  shows "atof (show_decimal n fs) = Ret (Fin r)"
proof -
  obtain d ds where s: "show_nat n = map digit_char (d # ds)" "list_all (\<lambda>d. d < 10) (d # ds)"
    using show_nat_digits by blast
  then show ?thesis
    by (intro strtod_dec(2) [where f = "CHR ''.'' # map digit_char fs",
          OF _ s(2) _ read_fraction_decimal(1) [OF assms(1)] assms(2)])
      (simp_all add: show_decimal_def)
qed

lemma atof_show_nat: "n < 2 ^ 53 \<Longrightarrow> atof (show_nat n) = Ret (Fin (of_nat n))"
proof -
  obtain d ds where s: "show_nat n = map digit_char (d # ds)" "list_all (\<lambda>d. d < 10) (d # ds)"
    using show_nat_digits by blast
  assume "n < 2 ^ 53"
  with s show ?thesis
    by (intro strtod_dec(2) [where f = "[]", OF _ s(2) _ read_fraction_decimal(2) [of "[]"]])
      (simp_all add: ieee_round_of_nat)
qed

lemma atof_show_int:
  assumes "\<bar>v\<bar> < 2 ^ 53" shows "atof (show_int v) = Ret (Fin (of_int v))"
proof (cases "v < 0")
  case True
  define n where "n = nat (- v)"
  have n: "n < 2 ^ 53" "v = - int n" using assms True by (simp_all add: n_def)
  obtain d ds where s: "show_nat n = map digit_char (d # ds)" "list_all (\<lambda>d. d < 10) (d # ds)"
    using show_nat_digits by blast
  have d: "to_lower (digit_char d) \<noteq> CHR ''i''" "to_lower (digit_char d) \<noteq> CHR ''n''"
    using s(2) by (simp_all add: digit_simps)
  have "read_magnitude (show_nat n) = of_nat n"
    by (rule read_magnitude_dec [where f = "[]", OF read_fraction_decimal(2) [of "[]"] _ s(2)])
      (simp_all add: s(1))
  then have "strtod (CHR ''-'' # show_nat n) = Fin (of_int v)"
    using d n by (simp add: strtod_def read_sign_def isspace_def s(1) ieee_round_minus ieee_round_of_nat)
  then show ?thesis using True by (simp add: show_int_def atof_def n_def split: prod.split)
next
  case False
  then show ?thesis using assms atof_show_nat [of "nat v"] by (simp add: show_int_def)
qed

lemma show_int_not_empty: "show_int v \<noteq> []" "show_nat n \<noteq> []"
  using show_nat_digits [of n] by (auto simp: show_int_def show_nat_digits dest: sym)
    (metis list.simps(8,9) map_is_Nil_conv show_nat_digits list.discI)+

lemma ieee_round_of_int:
  assumes "\<bar>v\<bar> < 2 ^ 53" shows "ieee_round (of_int v) = Fin (of_int v)"
proof (cases "v < 0")
  case True
  then show ?thesis
    using assms ieee_round_of_nat [of "nat (- v)"] ieee_round_minus [of "of_nat (nat (- v))"] by simp
next
  case False
  then show ?thesis using assms ieee_round_of_nat [of "nat v"] by simp
qed

lemma decimal_value_bounds:
  assumes "n < 2 ^ 53" "list_all (\<lambda>d. d < 10) fs"
  shows "0 \<le> decimal_value n fs" "decimal_value n fs < 2 ^ 1023"
proof -
  have "0 \<le> digits_value 10 fs \<and> digits_value 10 fs < 10 ^ length fs"
    using assms(2)
  proof (induction fs rule: rev_induct)
    case (snoc d fs)
    then show ?case using digits_value_append [of 10 fs "[d]"] by (auto simp: digits_value_def)
  qed (simp add: digits_value_def)
  then have f: "0 \<le> (of_int (digits_value 10 fs) :: rat)"
    "(of_int (digits_value 10 fs) :: rat) \<le> of_int (10 ^ length fs)"
    by (simp_all only: of_int_0_le_iff of_int_le_iff less_imp_le)
  then have q: "of_int (digits_value 10 fs) / 10 ^ length fs \<le> (1 :: rat)" by simp
  show "0 \<le> decimal_value n fs" using f(1) by (simp add: decimal_value_def)
  have "of_nat n \<le> (of_nat (2 ^ 53) :: rat)" using assms(1) by (simp only: of_nat_le_iff less_imp_le)
  also have "\<dots> = 2 ^ 53" by simp
  finally have "decimal_value n fs \<le> 2 ^ 53 + 1"
    unfolding decimal_value_def by (rule add_mono) (rule q)
  also have "\<dots> < 2 ^ 54" by simp
  also have "\<dots> \<le> 2 ^ 1023" by (rule power_increasing) simp_all
  finally show "decimal_value n fs < 2 ^ 1023" .
qed

lemma digit_chars:
  "digit_char 0 = CHR ''0''" "digit_char 1 = CHR ''1''" "digit_char (Suc 0) = CHR ''1''"
  "digit_char 2 = CHR ''2''" "digit_char 3 = CHR ''3''" "digit_char 4 = CHR ''4''"
  "digit_char 5 = CHR ''5''" "digit_char 6 = CHR ''6''" "digit_char 7 = CHR ''7''"
  "digit_char 8 = CHR ''8''" "digit_char 9 = CHR ''9''"
  by code_simp+

end
