(* ===== verification/Command_Line.thy ===== *)
theory Command_Line
  imports Config Sender Numbers
begin

section \<open>The command line programs: \<open>src/hairgaps.c\<close>, \<open>src/hairgapr.c\<close>\<close>

text \<open>
  Both programs fill a configuration from their options and call \<open>hgap_send\<close> or \<open>hgap_receive\<close>. What
  they use of the C library is written out: \<open>getopt\<close>, the conversions of numbers and the
  arithmetic on their results. The result of a \<open>main\<close> is \<open>Ret s\<close> when the process ends with the
  status \<open>s\<close> and \<open>Exit\<close> when it calls \<open>exit(EXIT_FAILURE)\<close>.
\<close>

subsection \<open>\<open>getopt\<close>\<close>

text \<open>
  The arguments not seen yet, the rest of a cluster of short options, and the operands that
  \<open>getopt\<close> has moved behind the options. The library either permutes the arguments (GNU) or stops at the first
  operand (POSIX); the flag \<open>permutes\<close> tells which.
\<close>

record getopt_state =
  go_skipped :: "string list"
  go_rest :: "string list"
  go_cluster :: string

text \<open>Looks an option up: \<open>Some True\<close> when it takes an argument.\<close>

fun option_kind :: "string \<Rightarrow> char \<Rightarrow> bool option" where
  "option_kind [] c = None"
| "option_kind (d # ds) c =
     (if c = CHR '':'' then None
      else if d = c then Some (ds \<noteq> [] \<and> hd ds = CHR '':'')
      else option_kind ds c)"

text \<open>The next option of a cluster with its argument; \<open>?\<close> is an unknown one or one without its argument.\<close>

definition getopt_char ::
  "string \<Rightarrow> getopt_state \<Rightarrow> char \<Rightarrow> string \<Rightarrow> (char \<times> string) \<times> getopt_state" where
  "getopt_char opts st c cs =
     (case option_kind opts c of
        None \<Rightarrow> ((CHR ''?'', []), st\<lparr>go_cluster := cs\<rparr>)
      | Some False \<Rightarrow> ((c, []), st\<lparr>go_cluster := cs\<rparr>)
      | Some True \<Rightarrow>
          if cs \<noteq> [] then ((c, cs), st\<lparr>go_cluster := []\<rparr>)
          else (case go_rest st of
                  [] \<Rightarrow> ((CHR ''?'', []), st\<lparr>go_cluster := []\<rparr>)
                | a # as \<Rightarrow> ((c, a), st\<lparr>go_rest := as, go_cluster := []\<rparr>)))"

text \<open>The scan for the next argument that is an option; \<open>None\<close> is the result -1.\<close>

fun getopt_scan ::
  "bool \<Rightarrow> string \<Rightarrow> string list \<Rightarrow> string list \<Rightarrow> (char \<times> string) option \<times> getopt_state" where
  "getopt_scan permutes opts skipped [] =
     (None, \<lparr>go_skipped = skipped, go_rest = [], go_cluster = []\<rparr>)"
| "getopt_scan permutes opts skipped (a # as) =
     (if a = ''--'' then (None, \<lparr>go_skipped = skipped, go_rest = as, go_cluster = []\<rparr>)
      else case a of
        c # d # ds \<Rightarrow>
          if c = CHR ''-''
          then let (r, st) = getopt_char opts
                     \<lparr>go_skipped = skipped, go_rest = as, go_cluster = []\<rparr> d ds
               in (Some r, st)
          else if permutes then getopt_scan permutes opts (skipped @ [a]) as
          else (None, \<lparr>go_skipped = skipped, go_rest = a # as, go_cluster = []\<rparr>)
      | _ \<Rightarrow>
          if permutes then getopt_scan permutes opts (skipped @ [a]) as
          else (None, \<lparr>go_skipped = skipped, go_rest = a # as, go_cluster = []\<rparr>))"

definition getopt ::
  "bool \<Rightarrow> string \<Rightarrow> getopt_state \<Rightarrow> (char \<times> string) option \<times> getopt_state" where
  "getopt permutes opts st =
     (case go_cluster st of
        c # cs \<Rightarrow> let (r, st') = getopt_char opts st c cs in (Some r, st')
      | [] \<Rightarrow> getopt_scan permutes opts (go_skipped st) (go_rest st))"

definition getopt_start :: "string list \<Rightarrow> getopt_state" where
  "getopt_start argv = \<lparr>go_skipped = [], go_rest = tl argv, go_cluster = []\<rparr>"

text \<open>After the last option: the operands, the variable \<open>optind\<close> and what \<open>argv[optind]\<close> holds.\<close>

definition operands :: "getopt_state \<Rightarrow> string list" where
  "operands st = go_skipped st @ go_rest st"

definition optind :: "string list \<Rightarrow> getopt_state \<Rightarrow> nat" where
  "optind argv st = length argv - length (operands st)"

definition first_operand :: "getopt_state \<Rightarrow> string option" where
  "first_operand st = (case operands st of [] \<Rightarrow> None | a # _ \<Rightarrow> Some a)"

text \<open>What is left to scan; every call that gives an option makes it smaller.\<close>

definition getopt_left :: "getopt_state \<Rightarrow> nat" where
  "getopt_left st = sum_list (map (\<lambda>a. Suc (length a)) (go_rest st)) + length (go_cluster st)"

lemma getopt_char_left:
  "getopt_char opts st c cs = (r, st') \<Longrightarrow>
     getopt_left st' \<le> sum_list (map (\<lambda>a. Suc (length a)) (go_rest st)) + length cs"
  by (auto simp: getopt_char_def getopt_left_def split: option.splits bool.splits if_splits list.splits)

lemma getopt_scan_left:
  "getopt_scan permutes opts skipped as = (Some r, st') \<Longrightarrow>
     getopt_left st' < sum_list (map (\<lambda>a. Suc (length a)) as)"
proof (induction permutes opts skipped as rule: getopt_scan.induct)
  case (2 permutes opts skipped a as)
  show ?case
  proof (cases "a \<noteq> ''--'' \<and> (\<exists>d ds. a = CHR ''-'' # d # ds)")
    case True
    then obtain d ds where a: "a = CHR ''-'' # d # ds" "a \<noteq> ''--''" by blast
    with "2.prems" have "getopt_char opts \<lparr>go_skipped = skipped, go_rest = as, go_cluster = []\<rparr> d ds
        = (r, st')"
      by (auto split: prod.splits)
    from getopt_char_left [OF this] show ?thesis by (simp add: a(1))
  next
    case False
    with 2 show ?thesis
      by (auto split: list.splits if_splits simp: less_SucI trans_less_add2)
  qed
qed simp

lemma getopt_left_less:
  "getopt permutes opts st = (Some r, st') \<Longrightarrow> getopt_left st' < getopt_left st"
  using getopt_char_left [of opts st] getopt_scan_left [of permutes opts "go_skipped st" "go_rest st"]
  by (fastforce simp: getopt_def getopt_left_def split: list.splits prod.splits)

subsection \<open>The programs\<close>

text \<open>What the loop over the options ends with.\<close>

datatype 'c parsed = Help | Options 'c getopt_state

text \<open>The sender: one option, the loop, and \<open>main\<close>; \<open>send\<close> is \<open>hgap_send\<close>.\<close>

definition sender_option :: "'f hgap_config \<Rightarrow> char \<Rightarrow> string \<Rightarrow> 'f hgap_config outcome" where
  "sender_option config c optarg =
     (if c = CHR ''p'' then obind (atoi optarg) (\<lambda>v. Ret (config\<lparr>port := of_int v\<rparr>))
      else if c = CHR ''b'' then
        obind (atof optarg) (\<lambda>v.
          Ret (config\<lparr>byterate := dbl_mult (dbl_mult v (Fin 1024)) (Fin 1024)\<rparr>))
      else if c = CHR ''r'' then obind (atof optarg) (\<lambda>v. Ret (config\<lparr>redund := v\<rparr>))
      else if c = CHR ''N'' then obind (atoll optarg) (\<lambda>v. Ret (config\<lparr>n_pkt := of_int v\<rparr>))
      else if c = CHR ''M'' then obind (atol optarg) (\<lambda>v. Ret (config\<lparr>pkt_size := of_int v\<rparr>))
      else if c = CHR ''k'' then obind (atoi optarg) (\<lambda>v. Ret (config\<lparr>keepalive := of_int v\<rparr>))
      else Exit)"

function sender_options ::
  "bool \<Rightarrow> 'f hgap_config \<Rightarrow> getopt_state \<Rightarrow> 'f hgap_config parsed outcome" where
  "sender_options permutes config st =
     (case getopt permutes ''p:b:r:N:M:k:h'' st of
        (None, st') \<Rightarrow> Ret (Options config st')
      | (Some (c, optarg), st') \<Rightarrow>
          if c = CHR ''h'' then Ret Help
          else obind (sender_option config c optarg) (\<lambda>config'.
                 sender_options permutes config' st'))"
  by pat_completeness auto

termination
  by (relation "measure (\<lambda>(_, _, st). getopt_left st)") (auto dest!: sym [THEN getopt_left_less])

text \<open>
  After the loop: the check of the number of arguments, then the address is printed, for which a
  null pointer is undefined, and the transfer starts.
\<close>

definition run_program ::
  "('f hgap_config \<Rightarrow> hgap_err outcome) \<Rightarrow> string list \<Rightarrow> 'f hgap_config parsed \<Rightarrow> int outcome" where
  "run_program transfer argv p =
     (case p of
        Help \<Rightarrow> Ret 0
      | Options config st \<Rightarrow>
          if length argv < 2 \<or> length argv < optind argv st then Exit
          else (case first_operand st of
                  None \<Rightarrow> Undef
                | Some a \<Rightarrow>
                    obind (transfer (config\<lparr>addr := Some a\<rparr>)) (\<lambda>ret. Ret (err_num ret))))"

definition hairgaps_main ::
  "bool \<Rightarrow> ('f hgap_config \<Rightarrow> hgap_err outcome) \<Rightarrow> 'f hgap_config \<Rightarrow> string list \<Rightarrow> int outcome" where
  "hairgaps_main permutes send defaults argv =
     obind (sender_options permutes defaults (getopt_start argv)) (run_program send argv)"

text \<open>The receiver; \<open>receive\<close> is \<open>hgap_receive\<close>.\<close>

definition receiver_option :: "'f hgap_config \<Rightarrow> char \<Rightarrow> string \<Rightarrow> 'f hgap_config outcome" where
  "receiver_option config c optarg =
     (if c = CHR ''p'' then obind (atoi optarg) (\<lambda>v. Ret (config\<lparr>port := of_int v\<rparr>))
      else if c = CHR ''t'' then obind (atoi optarg) (\<lambda>v. Ret (config\<lparr>timeout := of_int v\<rparr>))
      else if c = CHR ''m'' then
        obind (atoll optarg) (\<lambda>v. obind (llong_mult v 1024) (\<lambda>v1. obind (llong_mult v1 1024)
          (\<lambda>v2. Ret (config\<lparr>mem_limit := of_int v2\<rparr>))))
      else Exit)"

function receiver_options ::
  "bool \<Rightarrow> 'f hgap_config \<Rightarrow> getopt_state \<Rightarrow> 'f hgap_config parsed outcome" where
  "receiver_options permutes config st =
     (case getopt permutes ''p:t:m:h'' st of
        (None, st') \<Rightarrow> Ret (Options config st')
      | (Some (c, optarg), st') \<Rightarrow>
          if c = CHR ''h'' then Ret Help
          else obind (receiver_option config c optarg) (\<lambda>config'.
                 receiver_options permutes config' st'))"
  by pat_completeness auto

termination
  by (relation "measure (\<lambda>(_, _, st). getopt_left st)") (auto dest!: sym [THEN getopt_left_less])

definition hairgapr_main ::
  "bool \<Rightarrow> ('f hgap_config \<Rightarrow> hgap_err outcome) \<Rightarrow> 'f hgap_config \<Rightarrow> string list \<Rightarrow> int outcome" where
  "hairgapr_main permutes receive defaults argv =
     obind (receiver_options permutes defaults (getopt_start argv)) (run_program receive argv)"

declare sender_options.simps [simp del] receiver_options.simps [simp del]

text \<open>The call of \<open>hgap_sender_new\<close> in \<open>send_loop\<close>, whose arguments are converted to its parameters.\<close>

definition sender_of_config ::
  "sender_env \<Rightarrow> bool \<Rightarrow> (string \<Rightarrow> u32) \<Rightarrow> bool \<Rightarrow> 'f hgap_config \<Rightarrow> hgap_sender option outcome" where
  "sender_of_config env sock_ok inet_addr thread_ok config =
     (case (addr config, dbl_to_u64 (byterate config)) of
        (Some a, Some rate) \<Rightarrow>
          Ret (hgap_sender_new env sock_ok (inet_addr a) thread_ok (port config) (of_nat rate)
                 (ucast (keepalive config)))
      | _ \<Rightarrow> Undef)"

subsection \<open>The loop over the options\<close>

text \<open>
  What both programs share: a loop that takes one option after the other and gives each to a
  handler. An option is written with its argument in the same word or in the next one.
\<close>

definition write_option :: "bool \<times> char \<times> string \<Rightarrow> string list" where
  "write_option = (\<lambda>(joined, c, arg).
     if joined then [CHR ''-'' # c # arg] else [[CHR ''-'', c], arg])"

definition is_operand :: "string \<Rightarrow> bool" where
  "is_operand a \<longleftrightarrow> (a = [] \<or> a = ''-'' \<or> hd a \<noteq> CHR ''-'')"

locale option_loop =
  fixes opts :: string
    and handle :: "'c \<Rightarrow> char \<Rightarrow> string \<Rightarrow> 'c outcome"
    and loop :: "bool \<Rightarrow> 'c \<Rightarrow> getopt_state \<Rightarrow> 'c parsed outcome"
  assumes loop_unfold: "loop permutes config st =
      (case getopt permutes opts st of
         (None, st') \<Rightarrow> Ret (Options config st')
       | (Some (c, arg), st') \<Rightarrow>
           if c = CHR ''h'' then Ret Help
           else obind (handle config c arg) (\<lambda>config'. loop permutes config' st'))"
    and no_dash: "option_kind opts CHR ''-'' = None"
begin

primrec handle_all :: "'c \<Rightarrow> (bool \<times> char \<times> string) list \<Rightarrow> 'c outcome" where
  "handle_all config [] = Ret config"
| "handle_all config (w # ws) =
     obind (handle config (fst (snd w)) (snd (snd w))) (\<lambda>config'. handle_all config' ws)"

definition writable :: "bool \<times> char \<times> string \<Rightarrow> bool" where
  "writable = (\<lambda>(joined, c, arg). option_kind opts c = Some True \<and> c \<noteq> CHR ''h'' \<and> arg \<noteq> [])"

lemma getopt_written:
  assumes "writable w"
  shows "getopt permutes opts \<lparr>go_skipped = sk, go_rest = write_option w @ rest, go_cluster = []\<rparr> =
    (Some (snd w), \<lparr>go_skipped = sk, go_rest = rest, go_cluster = []\<rparr>)"
proof -
  obtain joined c arg where w: "w = (joined, c, arg)" by (cases w)
  have "c \<noteq> CHR ''-''" using assms no_dash by (auto simp: w writable_def)
  then show ?thesis
    using assms by (cases joined) (auto simp: w writable_def write_option_def getopt_def getopt_char_def)
qed

lemma loop_written:
  "list_all writable ws \<Longrightarrow>
     loop permutes config \<lparr>go_skipped = sk, go_rest = concat (map write_option ws) @ rest, go_cluster = []\<rparr> =
     obind (handle_all config ws) (\<lambda>config'.
       loop permutes config' \<lparr>go_skipped = sk, go_rest = rest, go_cluster = []\<rparr>)"
proof (induction ws arbitrary: config)
  case (Cons w ws)
  then have w: "writable w" and IH: "\<And>config. loop permutes config
      \<lparr>go_skipped = sk, go_rest = concat (map write_option ws) @ rest, go_cluster = []\<rparr> =
     obind (handle_all config ws) (\<lambda>config'.
       loop permutes config' \<lparr>go_skipped = sk, go_rest = rest, go_cluster = []\<rparr>)"
    by simp_all
  obtain joined c arg where s: "w = (joined, c, arg)" "c \<noteq> CHR ''h''"
    using w by (auto simp: writable_def)
  then show ?case
    using getopt_written [OF w, of permutes sk "concat (map write_option ws) @ rest"]
    by (subst loop_unfold) (simp add: IH obind_assoc)
qed simp

lemma loop_no_operand:
  "loop permutes config \<lparr>go_skipped = sk, go_rest = [], go_cluster = []\<rparr> =
     Ret (Options config \<lparr>go_skipped = sk, go_rest = [], go_cluster = []\<rparr>)"
  by (subst loop_unfold) (simp add: getopt_def)

lemma loop_operand:
  assumes "is_operand a"
  shows "\<exists>st. loop permutes config \<lparr>go_skipped = [], go_rest = [a], go_cluster = []\<rparr> =
     Ret (Options config st) \<and> operands st = [a]"
  using assms
  by (subst loop_unfold)
    (auto simp: getopt_def is_operand_def operands_def split: list.split)

text \<open>The programs on written options: followed by an address, or by none.\<close>

lemma program_written:
  assumes "list_all writable ws" "is_operand a" "handle_all config ws = Ret config'"
  shows "obind (loop permutes config (getopt_start (prog # concat (map write_option ws) @ [a])))
      (\<lambda>p. case p of Help \<Rightarrow> h | Options c st \<Rightarrow> f c (optind argv st) (first_operand st)) =
    f config' (length argv - 1) (Some a)"
proof -
  obtain st where "loop permutes config' \<lparr>go_skipped = [], go_rest = [a], go_cluster = []\<rparr> =
     Ret (Options config' st)" "operands st = [a]"
    using loop_operand [OF assms(2)] by blast
  then show ?thesis
    using assms(3) loop_written [OF assms(1), of permutes config "[]" "[a]"]
    by (simp add: getopt_start_def first_operand_def optind_def)
qed

lemma program_without_operand:
  assumes "list_all writable ws" "handle_all config ws = Ret config'"
  shows "obind (loop permutes config (getopt_start (prog # concat (map write_option ws))))
      (\<lambda>p. case p of Help \<Rightarrow> h | Options c st \<Rightarrow> f c (optind argv st) (first_operand st)) =
    f config' (length argv) None"
  using assms(2) loop_written [OF assms(1), of permutes config "[]" "[]"] loop_no_operand
  by (simp add: getopt_start_def first_operand_def optind_def operands_def)

end

interpretation sender_loop: option_loop "''p:b:r:N:M:k:h''" sender_option sender_options
  by unfold_locales (subst sender_options.simps, simp, simp)

interpretation receiver_loop: option_loop "''p:t:m:h''" receiver_option receiver_options
  by unfold_locales (subst receiver_options.simps, simp, simp)

subsection \<open>What the options mean\<close>

text \<open>
  The options of the sender with their values, how they are written, and the field each sets: the port
  and the numbers modulo the width of their field, the rate in mebibytes.
\<close>

datatype sender_arg =
    Snd_port int | Snd_rate int | Snd_redund nat "nat list" | Snd_n_pkt int | Snd_pkt_size int
  | Snd_keepalive int

primrec sender_arg_text :: "sender_arg \<Rightarrow> char \<times> string" where
  "sender_arg_text (Snd_port v) = (CHR ''p'', show_int v)"
| "sender_arg_text (Snd_rate v) = (CHR ''b'', show_int v)"
| "sender_arg_text (Snd_redund n fs) = (CHR ''r'', show_decimal n fs)"
| "sender_arg_text (Snd_n_pkt v) = (CHR ''N'', show_int v)"
| "sender_arg_text (Snd_pkt_size v) = (CHR ''M'', show_int v)"
| "sender_arg_text (Snd_keepalive v) = (CHR ''k'', show_int v)"

primrec sender_arg_ok :: "sender_arg \<Rightarrow> bool" where
  "sender_arg_ok (Snd_port v) \<longleftrightarrow> \<bar>v\<bar> < 2 ^ 31"
| "sender_arg_ok (Snd_rate v) \<longleftrightarrow> \<bar>v\<bar> < 2 ^ 33"
| "sender_arg_ok (Snd_redund n fs) \<longleftrightarrow> n < 2 ^ 53 \<and> list_all (\<lambda>d. d < 10) fs"
| "sender_arg_ok (Snd_n_pkt v) \<longleftrightarrow> \<bar>v\<bar> < 2 ^ 63"
| "sender_arg_ok (Snd_pkt_size v) \<longleftrightarrow> \<bar>v\<bar> < 2 ^ 63"
| "sender_arg_ok (Snd_keepalive v) \<longleftrightarrow> \<bar>v\<bar> < 2 ^ 31"

primrec sender_arg_set :: "sender_arg \<Rightarrow> 'f hgap_config \<Rightarrow> 'f hgap_config" where
  "sender_arg_set (Snd_port v) = port_update (\<lambda>_. of_int v)"
| "sender_arg_set (Snd_rate v) = byterate_update (\<lambda>_. Fin (of_int (v * 1048576)))"
| "sender_arg_set (Snd_redund n fs) = redund_update (\<lambda>_. ieee_round (decimal_value n fs))"
| "sender_arg_set (Snd_n_pkt v) = n_pkt_update (\<lambda>_. of_int v)"
| "sender_arg_set (Snd_pkt_size v) = pkt_size_update (\<lambda>_. of_int v)"
| "sender_arg_set (Snd_keepalive v) = keepalive_update (\<lambda>_. of_int v)"

datatype receiver_arg = Rcv_port int | Rcv_timeout int | Rcv_mem_limit int

primrec receiver_arg_text :: "receiver_arg \<Rightarrow> char \<times> string" where
  "receiver_arg_text (Rcv_port v) = (CHR ''p'', show_int v)"
| "receiver_arg_text (Rcv_timeout v) = (CHR ''t'', show_int v)"
| "receiver_arg_text (Rcv_mem_limit v) = (CHR ''m'', show_int v)"

primrec receiver_arg_ok :: "receiver_arg \<Rightarrow> bool" where
  "receiver_arg_ok (Rcv_port v) \<longleftrightarrow> \<bar>v\<bar> < 2 ^ 31"
| "receiver_arg_ok (Rcv_timeout v) \<longleftrightarrow> \<bar>v\<bar> < 2 ^ 31"
| "receiver_arg_ok (Rcv_mem_limit v) \<longleftrightarrow> \<bar>v\<bar> < 2 ^ 43"

text \<open>The timeout is stored as it is typed, and the library reads it as microseconds.\<close>

primrec receiver_arg_set :: "receiver_arg \<Rightarrow> 'f hgap_config \<Rightarrow> 'f hgap_config" where
  "receiver_arg_set (Rcv_port v) = port_update (\<lambda>_. of_int v)"
| "receiver_arg_set (Rcv_timeout v) = timeout_update (\<lambda>_. of_int v)"
| "receiver_arg_set (Rcv_mem_limit v) = mem_limit_update (\<lambda>_. of_int (v * 1048576))"

definition sender_words :: "(bool \<times> sender_arg) list \<Rightarrow> string list" where
  "sender_words os = concat (map (\<lambda>(joined, x). write_option (joined, sender_arg_text x)) os)"

definition receiver_words :: "(bool \<times> receiver_arg) list \<Rightarrow> string list" where
  "receiver_words os = concat (map (\<lambda>(joined, x). write_option (joined, receiver_arg_text x)) os)"

lemma sender_option_arg:
  assumes "sender_arg_ok x" "sender_arg_text x = (c, s)"
  shows "sender_option config c s = Ret (sender_arg_set x config)"
proof (cases x)
  case (Snd_redund n fs)
  obtain r where "ieee_round (decimal_value n fs) = Fin r"
    using ieee_round_finite decimal_value_bounds assms(1) Snd_redund by (metis sender_arg_ok.simps(3))
  then show ?thesis
    using assms Snd_redund atof_show_decimal by (auto simp: sender_option_def)
next
  case (Snd_rate v)
  have "ieee_round (of_int v * 1024) = Fin (of_int (v * 1024))"
    "ieee_round (of_int v * 1024 * 1024) = Fin (of_int (v * 1048576))"
    using ieee_round_of_int [of "v * 1024"] ieee_round_of_int [of "v * 1048576"] assms(1) Snd_rate
    by (auto simp: mult.assoc abs_mult)
  then show ?thesis
    using assms Snd_rate by (auto simp: sender_option_def atof_show_int)
qed (use assms in \<open>auto simp: sender_option_def atoi_show atol_show atoll_def abs_less_iff\<close>)

lemma receiver_option_arg:
  assumes "receiver_arg_ok x" "receiver_arg_text x = (c, s)"
  shows "receiver_option config c s = Ret (receiver_arg_set x config)"
  using assms
  by (cases x) (auto simp: receiver_option_def atoi_show atol_show atoll_def abs_less_iff
      llong_mult_def Let_def mult.assoc)

text \<open>The loops on written options: each sets its field, the last one of a field wins.\<close>

lemma sender_handle_all:
  assumes "list_all (sender_arg_ok \<circ> snd) os"
  shows "list_all sender_loop.writable (map (\<lambda>(joined, x). (joined, sender_arg_text x)) os)"
    and "sender_loop.handle_all config (map (\<lambda>(joined, x). (joined, sender_arg_text x)) os) =
      Ret (fold (sender_arg_set \<circ> snd) os config)"
proof -
  have "sender_loop.writable (joined, sender_arg_text x)" for joined x
    by (cases x) (simp_all add: sender_loop.writable_def show_int_not_empty show_decimal_def)
  then show "list_all sender_loop.writable (map (\<lambda>(joined, x). (joined, sender_arg_text x)) os)"
    by (induction os) auto
  show "sender_loop.handle_all config (map (\<lambda>(joined, x). (joined, sender_arg_text x)) os) =
      Ret (fold (sender_arg_set \<circ> snd) os config)"
    using assms by (induction os arbitrary: config) (auto simp: sender_option_arg)
qed

lemma receiver_handle_all:
  assumes "list_all (receiver_arg_ok \<circ> snd) os"
  shows "list_all receiver_loop.writable (map (\<lambda>(joined, x). (joined, receiver_arg_text x)) os)"
    and "receiver_loop.handle_all config (map (\<lambda>(joined, x). (joined, receiver_arg_text x)) os) =
      Ret (fold (receiver_arg_set \<circ> snd) os config)"
proof -
  have "receiver_loop.writable (joined, receiver_arg_text x)" for joined x
    by (cases x) (simp_all add: receiver_loop.writable_def show_int_not_empty)
  then show "list_all receiver_loop.writable (map (\<lambda>(joined, x). (joined, receiver_arg_text x)) os)"
    by (induction os) auto
  show "receiver_loop.handle_all config (map (\<lambda>(joined, x). (joined, receiver_arg_text x)) os) =
      Ret (fold (receiver_arg_set \<circ> snd) os config)"
    using assms by (induction os arbitrary: config) (auto simp: receiver_option_arg)
qed

lemma sender_words_eq:
  "sender_words os = concat (map write_option (map (\<lambda>(joined, x). (joined, sender_arg_text x)) os))"
  "receiver_words rs = concat (map write_option (map (\<lambda>(joined, x). (joined, receiver_arg_text x)) rs))"
  by (simp_all add: sender_words_def receiver_words_def comp_def case_prod_unfold)

lemmas program_defs = hairgaps_main_def hairgapr_main_def run_program_def [abs_def]

lemma length_words: "os \<noteq> [] \<Longrightarrow> 0 < length (sender_words os)"
    "rs \<noteq> [] \<Longrightarrow> 0 < length (receiver_words rs)"
  by (cases os; simp add: sender_words_def write_option_def split: prod.split)
     (cases rs; simp add: receiver_words_def write_option_def split: prod.split)

lemma hairgaps_written:
  assumes "list_all (sender_arg_ok \<circ> snd) os"
  shows "is_operand a \<Longrightarrow>
      hairgaps_main permutes send config (prog # sender_words os @ [a]) =
        obind (send (fold (sender_arg_set \<circ> snd) os config\<lparr>addr := Some a\<rparr>)) (\<lambda>ret. Ret (err_num ret))"
    and "os \<noteq> [] \<Longrightarrow> hairgaps_main permutes send config (prog # sender_words os) = Undef"
  unfolding program_defs sender_words_eq
  using sender_handle_all [OF assms] length_words(1) [of os, unfolded sender_words_eq]
  by (subst sender_loop.program_written sender_loop.program_without_operand; force)+

lemma hairgapr_written:
  assumes "list_all (receiver_arg_ok \<circ> snd) os"
  shows "is_operand a \<Longrightarrow>
      hairgapr_main permutes receive config (prog # receiver_words os @ [a]) =
        obind (receive (fold (receiver_arg_set \<circ> snd) os config\<lparr>addr := Some a\<rparr>))
          (\<lambda>ret. Ret (err_num ret))"
    and "os \<noteq> [] \<Longrightarrow> hairgapr_main permutes receive config (prog # receiver_words os) = Undef"
  unfolding program_defs sender_words_eq
  using receiver_handle_all [OF assms] length_words(2) [of os, unfolded sender_words_eq]
  by (subst receiver_loop.program_written receiver_loop.program_without_operand; force)+

text \<open>The operands never outnumber the arguments, so that the check of \<open>optind\<close> never fires.\<close>

lemma getopt_char_operands:
  "getopt_char opts st c cs = (r, st') \<Longrightarrow>
     length (go_skipped st') + length (go_rest st') \<le> length (go_skipped st) + length (go_rest st)"
  by (auto simp: getopt_char_def split: option.splits bool.splits if_splits list.splits)

lemma getopt_scan_operands:
  "getopt_scan permutes opts skipped as = (r, st') \<Longrightarrow>
     length (go_skipped st') + length (go_rest st') \<le> length skipped + length as"
proof (induction permutes opts skipped as arbitrary: r st' rule: getopt_scan.induct)
  case (2 permutes opts skipped a as)
  show ?case
  proof (cases "a \<noteq> ''--'' \<and> (\<exists>d ds. a = CHR ''-'' # d # ds)")
    case True
    then obtain d ds where a: "a = CHR ''-'' # d # ds" "a \<noteq> ''--''" by blast
    with "2.prems" obtain r' where "getopt_char opts
        \<lparr>go_skipped = skipped, go_rest = as, go_cluster = []\<rparr> d ds = (r', st')"
      by (auto split: prod.splits)
    from getopt_char_operands [OF this] show ?thesis by simp
  next
    case False
    with 2 show ?thesis
      by (cases "a = ''--''"; cases permutes) (fastforce split: list.splits if_splits)+
  qed
qed auto

lemma getopt_operands:
  "getopt permutes opts st = (r, st') \<Longrightarrow> length (operands st') \<le> length (operands st)"
  using getopt_char_operands [of opts st] getopt_scan_operands [of permutes opts "go_skipped st" "go_rest st"]
  by (fastforce simp: getopt_def operands_def split: list.splits prod.splits)

lemma sender_options_operands:
  "sender_options permutes config st = Ret (Options config' st') \<Longrightarrow>
     length (operands st') \<le> length (operands st)"
proof (induction permutes config st rule: sender_options.induct)
  case (1 permutes config st)
  obtain r s where g: "getopt permutes ''p:b:r:N:M:k:h'' st = (r, s)" by fastforce
  note step = getopt_operands [OF g]
  from 1(2) show ?case
    unfolding sender_options.simps [of permutes config st] g
    using step order_trans [OF 1(1) step]
    by (auto simp: g obind_Ret_iff split: option.splits prod.splits if_splits)
qed

text \<open>\<open>optind\<close> counts the words before the operands; in particular it never exceeds \<open>argc\<close>.\<close>

lemma optind_operands:
  assumes "sender_options permutes config (getopt_start argv) = Ret (Options config' st)"
  shows "optind argv st + length (operands st) = length argv"
  using sender_options_operands [OF assms]
  by (simp add: optind_def getopt_start_def operands_def)

subsection \<open>Properties\<close>

text \<open>C10: options written before an address, each with its argument in the same word or the next, in any order
  and number, make the sender call \<open>hgap_send\<close> with exactly the configuration they describe, and
  the receiver \<open>hgap_receive\<close>; the status of the process is the result. Numbers round-trip through
  their decimal digits; the port and the sizes wrap to the width of their fields.\<close>

theorem options_set_the_configuration:
  assumes "list_all (sender_arg_ok \<circ> snd) os" "list_all (receiver_arg_ok \<circ> snd) rs" "is_operand a"
  shows "hairgaps_main permutes send config (prog # sender_words os @ [a]) =
      obind (send (fold (sender_arg_set \<circ> snd) os config\<lparr>addr := Some a\<rparr>)) (\<lambda>ret. Ret (err_num ret)) \<and>
    hairgapr_main permutes receive config (prog # receiver_words rs @ [a]) =
      obind (receive (fold (receiver_arg_set \<circ> snd) rs config\<lparr>addr := Some a\<rparr>))
        (\<lambda>ret. Ret (err_num ret))"
  using hairgaps_written(1) [OF assms(1,3)] hairgapr_written(1) [OF assms(2,3)] by blast

text \<open>C37: a missing address is not refused: the check of the number of arguments lets every command
  line with an option pass, and the null pointer that \<open>argv[optind]\<close> then is gets printed with \<open>%s\<close>.\<close>

theorem missing_address_is_not_refused:
  assumes "list_all (sender_arg_ok \<circ> snd) os" "os \<noteq> []"
    "list_all (receiver_arg_ok \<circ> snd) rs" "rs \<noteq> []"
  shows "hairgaps_main permutes send config (prog # sender_words os) = Undef \<and>
    hairgapr_main permutes receive config (prog # receiver_words rs) = Undef"
  using hairgaps_written(2) [OF assms(1,2)] hairgapr_written(2) [OF assms(3,4)] by blast

text \<open>C38: a negative rate limit passes every check and its conversion to the parameter of
  \<open>hgap_sender_new\<close>, an unsigned integer, is undefined.\<close>

theorem negative_rate_is_accepted:
  assumes "v < 0" "\<bar>v\<bar> < 2 ^ 33" "is_operand a"
    "hgap_check_config_sender resolves ferror (config\<lparr>addr := Some a\<rparr>) = HGAP_SUCCESS"
  shows "\<exists>config'. (\<forall>send. hairgaps_main permutes send config [prog, ''-b'', show_int v, a] =
        obind (send config') (\<lambda>ret. Ret (err_num ret))) \<and>
      hgap_check_config_sender resolves ferror config' = HGAP_SUCCESS \<and>
      sender_of_config env sock_ok inet_addr thread_ok config' = Undef"
proof (intro exI conjI allI)
  let ?config = "config\<lparr>byterate := Fin (of_int (v * 1048576)), addr := Some a\<rparr>"
  show "hairgaps_main permutes send config [prog, ''-b'', show_int v, a] =
      obind (send ?config) (\<lambda>ret. Ret (err_num ret))" for send
    using hairgaps_written(1) [of "[(False, Snd_rate v)]", OF _ assms(3)] assms(2)
    by (simp add: sender_words_def write_option_def)
  show "hgap_check_config_sender resolves ferror ?config = HGAP_SUCCESS"
    using assms(4) by (simp add: sender_config_SUCCESS)
  have "(of_int (v * 1048576) :: rat) \<le> of_int (- 1)"
    using assms(1) by (simp only: of_int_le_iff)
  then show "sender_of_config env sock_ok inet_addr thread_ok ?config = Undef"
    by (simp add: sender_of_config_def)
qed

subsection \<open>Witnesses\<close>

text \<open>\<open>hairgaps -p 70000 -r1.2 -M 1000 -k500 10.0.0.1\<close> and \<open>hairgapr -t 5 -m10 0.0.0.0\<close>, with transfers that check
  the configuration.\<close>

definition example_args :: "(bool \<times> sender_arg) list" where
  "example_args =
     [(False, Snd_port 70000), (True, Snd_redund 1 [2]), (False, Snd_pkt_size 1000),
      (True, Snd_keepalive 500)]"

definition example_receiver_args :: "(bool \<times> receiver_arg) list" where
  "example_receiver_args = [(False, Rcv_timeout 5), (True, Rcv_mem_limit 10)]"

definition example_defaults :: "string hgap_config" where
  "example_defaults = the (snd (hgap_defaults ''in'' ''out'' (Some undefined)))"

lemma example_words:
  "sender_words example_args = [''-p'', ''70000'', ''-r1.2'', ''-M'', ''1000'', ''-k500'']"
  "receiver_words example_receiver_args = [''-t'', ''5'', ''-m10'']"
  by (simp_all add: sender_words_def receiver_words_def example_args_def example_receiver_args_def
      write_option_def show_int_def show_decimal_def show_nat.simps digit_chars)

lemma example_args_ok:
  "list_all (sender_arg_ok \<circ> snd) example_args" "example_args \<noteq> []"
  "list_all (receiver_arg_ok \<circ> snd) example_receiver_args" "example_receiver_args \<noteq> []"
  "is_operand ''10.0.0.1''"
  by (simp_all add: example_args_def example_receiver_args_def is_operand_def)

lemma example_sender_config:
  "fold (sender_arg_set \<circ> snd) example_args example_defaults =
     example_defaults\<lparr>port := 4464, redund := Fin (5404319552844595 / 4503599627370496),
       pkt_size := 1000, keepalive := 500\<rparr>"
proof -
  have "ieee_round (decimal_value 1 [2]) = Fin (5404319552844595 / 4503599627370496)"
    by code_simp
  then show ?thesis by (simp add: example_args_def)
qed

theorem options_set_the_configuration_witness:
  "hairgaps_main True (\<lambda>c. if port c = 4464 \<and> pkt_size c = 1000 \<and> keepalive c = 500 \<and>
        redund c = Fin (5404319552844595 / 4503599627370496) \<and> addr c = Some ''10.0.0.1''
      then Ret HGAP_SUCCESS else Undef) example_defaults
      [''hairgaps'', ''-p'', ''70000'', ''-r1.2'', ''-M'', ''1000'', ''-k500'', ''10.0.0.1''] = Ret 0 \<and>
   hairgapr_main True (\<lambda>c. if timeout c = 5 \<and> mem_limit c = 10485760 then Ret HGAP_ERR_TIMEOUT else Undef)
      example_defaults [''hairgapr'', ''-t'', ''5'', ''-m10'', ''10.0.0.1''] = Ret 17"
  using options_set_the_configuration
    [of example_args example_receiver_args "''10.0.0.1''" True _ example_defaults "''hairgaps''",
      OF example_args_ok(1,3,5)]
    options_set_the_configuration
    [of example_args example_receiver_args "''10.0.0.1''" True _ example_defaults "''hairgapr''",
      OF example_args_ok(1,3,5)]
  by (simp add: example_words example_sender_config) (simp add: example_receiver_args_def)

theorem missing_address_is_not_refused_witness:
  "hairgaps_main True (\<lambda>_. Ret HGAP_SUCCESS) example_defaults
     [''hairgaps'', ''-p'', ''70000'', ''-r1.2'', ''-M'', ''1000'', ''-k500''] = Undef \<and>
   hairgapr_main True (\<lambda>_. Ret HGAP_SUCCESS) example_defaults [''hairgaps'', ''-t'', ''5'', ''-m10''] = Undef"
  using missing_address_is_not_refused [of example_args example_receiver_args True _ example_defaults
      "''hairgaps''", OF example_args_ok(1,2,3,4)]
  by (simp add: example_words)

theorem negative_rate_is_accepted_witness:
  "\<exists>config'. (\<forall>send. hairgaps_main True send example_defaults [''hairgaps'', ''-b'', ''-1'', ''10.0.0.1''] =
        obind (send config') (\<lambda>ret. Ret (err_num ret))) \<and>
      hgap_check_config_sender (\<lambda>_. True) (\<lambda>_. False) config' = HGAP_SUCCESS \<and>
      sender_of_config \<lparr>env_clock = \<lambda>_. \<lparr>tv_sec = 0, tv_usec = 0\<rparr>, env_sendto = \<lambda>_ d. int (length d)\<rparr>
        True (\<lambda>_. 1) True config' = Undef"
proof -
  have s: "''-1'' = show_int (- 1)" by (simp add: show_int_def show_nat.simps digit_chars)
  have ok: "hgap_check_config_sender (\<lambda>_. True) (\<lambda>_. False)
      (example_defaults\<lparr>addr := Some ''10.0.0.1''\<rparr>) = HGAP_SUCCESS"
    unfolding sender_config_SUCCESS by (simp add: example_defaults_def hgap_defaults_def) code_simp
  show ?thesis
    unfolding s by (rule negative_rate_is_accepted [OF _ _ _ ok]) (simp_all add: is_operand_def)
qed

end
