(* ===== verification/Programs.thy ===== *)
theory Programs
  imports Command_Line Transfer_System
begin

section \<open>From the command line to the file: the programs with the library under them\<close>

text \<open>
  \<open>hgap_send\<close> and \<open>hgap_receive\<close> as functions of the configuration: the check, the start of wirehair, the three threads
  over their channels, and the joined result. With them in the place of the transfers of \<open>hairgaps_main\<close> and \<open>hairgapr_main\<close> the
  processes are complete, from their arguments to their status.
\<close>

subsection \<open>The library calls\<close>

definition hgap_errs :: "hgap_err list" where
  "hgap_errs =
     [HGAP_SUCCESS, HGAP_EOT, HGAP_ERR_NO_CONFIG, HGAP_ERR_MTU_TOO_SMALL, HGAP_ERR_MTU_TOO_BIG,
      HGAP_ERR_INVALID_ADDR, HGAP_ERR_BAD_FD, HGAP_ERR_BAD_IN_FD, HGAP_ERR_BAD_OUT_FD, HGAP_ERR_FILE_READ,
      HGAP_ERR_BAD_N_PKT, HGAP_ERR_BAD_REDUND, HGAP_ERR_WIREHAIR_ERROR, HGAP_ERR_BUFFER_TOO_SMALL,
      HGAP_ERR_INCOMPLETE_CHUNK, HGAP_ERR_BAD_CHUNK, HGAP_ERR_BAD_PKT, HGAP_ERR_TIMEOUT, HGAP_ERR_NETWORK,
      HGAP_ERR_IPC, HGAP_ERR_INTERNAL]"

text \<open>What \<open>pthread_join\<close> yields: it does not return as long as the thread waits.\<close>

definition pthread_join :: "retval \<Rightarrow> hgap_err outcome" where
  "pthread_join r =
     (case r of
        Waiting \<Rightarrow> Loop
      | Retval n \<Rightarrow> (case find (\<lambda>e. err_num e = n) hgap_errs of Some e \<Rightarrow> Ret e | None \<Rightarrow> Undef))"

lemma pthread_join_err [simp]: "pthread_join (Retval (err_num e)) = Ret e"
  by (cases e) (simp_all add: pthread_join_def hgap_errs_def)

lemma pthread_join_0 [simp]: "pthread_join (Retval 0) = Ret HGAP_SUCCESS"
  using pthread_join_err [of HGAP_SUCCESS] by simp

text \<open>
  What surrounds the library: the resolver, the state of the files, \<open>wirehair_init\<close>, the clock and \<open>sendto\<close>,
  the socket, \<open>inet_addr\<close> and the creation of the keepalive thread.
\<close>

record 'f program_env =
  pe_resolves :: "string \<Rightarrow> bool"
  pe_ferror :: "'f \<Rightarrow> bool"
  pe_wirehair_init :: bool
  pe_sender :: sender_env
  pe_sock_ok :: bool
  pe_inet_addr :: "string \<Rightarrow> u32"
  pe_thread_ok :: bool

text \<open>
  The parameter \<open>threads\<close> is the scheduler's part: the state in which the three threads, started on this
  configuration, can move no more, or the exit or undefined step they came to. The joins return when all
  three have ended, and wait for ever otherwise.
\<close>

definition send_joined :: "'s send_sys \<Rightarrow> hgap_err outcome" where
  "send_joined t =
     (case (ss_sender t, ss_reader t, ss_encoder t) of
        (S_Done retval, R_Done read_ret, E_Done encode_ret) \<Rightarrow>
          Ret (hgap_send HGAP_SUCCESS True retval read_ret encode_ret)
      | _ \<Rightarrow> Loop)"

definition hgap_send_call ::
  "'f program_env \<Rightarrow> (hgap_sender \<Rightarrow> 'f hgap_config \<Rightarrow> 's send_sys outcome) \<Rightarrow> 'f hgap_config \<Rightarrow>
     hgap_err outcome" where
  "hgap_send_call env threads config =
     (let err = hgap_check_config_sender (pe_resolves env) (pe_ferror env) config
      in if err \<noteq> HGAP_SUCCESS then Ret err
         else if \<not> pe_wirehair_init env then Ret HGAP_ERR_WIREHAIR_ERROR
         else obind (sender_of_config (pe_sender env) (pe_sock_ok env) (pe_inet_addr env) (pe_thread_ok env)
                config) (\<lambda>hs.
              case hs of
                None \<Rightarrow> Undef
              | Some s \<Rightarrow> obind (threads s config) send_joined))"

definition receive_joined :: "'s recv_sys \<Rightarrow> hgap_err outcome" where
  "receive_joined t =
     (case (rs_net t, rs_decoder t) of
        (N_Done retval, D_Done dec_ret) \<Rightarrow>
          obind (pthread_join (Retval retval)) (\<lambda>net.
          obind (pthread_join (Retval dec_ret)) (\<lambda>dec.
          obind (pthread_join (wr_ret (rs_writer t))) (\<lambda>wr.
            Ret (hgap_receive HGAP_SUCCESS True net dec wr))))
      | _ \<Rightarrow> Loop)"

definition hgap_receive_call ::
  "'f program_env \<Rightarrow> ('f hgap_config \<Rightarrow> 's recv_sys outcome) \<Rightarrow> 'f hgap_config \<Rightarrow> hgap_err outcome" where
  "hgap_receive_call env threads config =
     (let err = hgap_check_config_receiver (pe_resolves env) (pe_ferror env) config
      in if err \<noteq> HGAP_SUCCESS then Ret err
         else if \<not> pe_wirehair_init env then Ret HGAP_ERR_WIREHAIR_ERROR
         else obind (threads config) receive_joined)"

subsection \<open>Datagrams that are longer than a slot\<close>

text \<open>
  The sender's packet size can be set, the receiver's cannot. A datagram longer than the content of a slot
  is cut by \<open>recvfrom\<close>, and its header still announces the whole payload.
\<close>

lemma cut_packet:
  assumes sent: "sent_chunk W psz num m E" and wh: "wh_block_size W"
    and p: "chunk_packet W psz num m E i = Some raw"
    and mtu: "24 \<le> mtu" "mtu < length raw" "length slot = mtu"
  shows "\<exists>b. length b = mtu - 24 \<and> length (recv_into mtu slot raw) = mtu \<and>
    unat (of_nat mtu :: u64) = mtu \<and>
    raw_pkt (recv_into mtu slot raw) = \<lparr>hdr = chunk_header psz num m i, pkt_data = b\<rparr> \<and>
    raw_type (recv_into mtu slot raw) (of_nat mtu) = HGAP_PKT_DATA"
proof -
  obtain b where b: "length b = chunk_payload psz m" "length raw = chunk_payload psz m + 24"
    "raw = header_bytes (chunk_header psz num m i) @ b"
    using sent_packet [OF sent wh p, of "[]"] p by (auto simp: chunk_packet_def)
  have cut: "recv_into mtu slot raw = header_bytes (chunk_header psz num m i) @ take (mtu - 24) b"
    using mtu b by (simp add: recv_into_def)
  have sz: "unat (of_nat mtu :: u64) = mtu"
    using mtu b sent_chunk_bounds(5) [OF sent] by (simp add: unat_of_nat take_bit_nat_eq_self)
  have pkt: "raw_pkt (recv_into mtu slot raw) = \<lparr>hdr = chunk_header psz num m i, pkt_data = take (mtu - 24) b\<rparr>"
    by (simp add: cut raw_pkt_def)
  then have "raw_type (recv_into mtu slot raw) (of_nat mtu) = HGAP_PKT_DATA"
    using sent mtu sz by (simp add: raw_type_DATA sent_chunk_def)
  then show ?thesis
    using pkt sz mtu b by (intro exI [of _ "take (mtu - 24) b"]) (simp add: recv_into_def)
qed

lemma cut_packet_overruns:
  assumes sent: "sent_chunk W psz num m E" and wh: "wh_block_size W"
    and p: "chunk_packet W psz num m E i = Some raw"
    and dec: "\<forall>re. wh_decode W re (of_nat (length m)) (psz - 24) \<noteq> None"
    and mtu: "24 \<le> mtu" "mtu < length raw" "length slot = mtu"
    and st: "dec_state d = T_STARTED \<or> dec_state d = T_DATA" "chunk_complete d" "num \<noteq> ck_num (dec_chunk d)"
  shows "hgap_decoder_read W d (recv_into mtu slot raw) (of_nat mtu) = Undef"
proof -
  obtain b where b: "length b = mtu - 24" "length (recv_into mtu slot raw) = mtu"
    "unat (of_nat mtu :: u64) = mtu"
    "raw_pkt (recv_into mtu slot raw) = \<lparr>hdr = chunk_header psz num m i, pkt_data = b\<rparr>"
    "raw_type (recv_into mtu slot raw) (of_nat mtu) = HGAP_PKT_DATA"
    using cut_packet [OF sent wh p mtu] by blast
  let ?pkt = "\<lparr>hdr = chunk_header psz num m i, pkt_data = b\<rparr>"
  have len: "length raw = chunk_payload psz m + 24" using sent_packet [OF sent wh p] by blast
  let ?d = "d\<lparr>dec_state := T_DATA\<rparr>"
  obtain e c where init: "hgap_dec_chunk_init W (hgap_enc_chunk_purge (dec_chunk d)) ?pkt = (e, c)"
    by fastforce
  have size: "unat (of_nat (length m) :: u64) = length m"
    using sent_chunk_bounds(4) [OF sent] by (rule unat_of_length)
  have max: "chunk_size (hdr ?pkt) \<le> HGAP_MAX_CHUNK_SIZE"
    using sent size by (simp add: sent_chunk_def word_le_nat_alt)
  note c = dec_chunk_init_ok [OF max init]
  have data: "unat (data_size (chunk_header psz num m i)) = chunk_payload psz m"
    using sent_chunk_bounds(5) [OF sent] by (simp add: chunk_header_def unat_of_nat take_bit_nat_eq_self)
  then have ps: "unat (ck_pkt_size c) = chunk_payload psz m + 24" "ck_len c = of_nat (length m)"
    using c(4,5) by simp_all
  note small = assembling_small [OF sent ps(2,1)]
  have short: "length b < chunk_payload psz m" using b(1) mtu len by simp
  have wh_st: "ck_wh_state c \<noteq> None" if "\<not> hgap_enc_chunk_is_small c"
  proof -
    have "hgap_enc_chunk_pkt_payload_size c = psz - 24"
      using small that sent_chunk_bounds(6) [OF sent] by (simp add: word_unat_eq_iff chunk_payload_def)
    moreover obtain D where "wh_decode W (ck_wh_state (dec_chunk d)) (of_nat (length m)) (psz - 24) = Some D"
      using dec by blast
    ultimately show ?thesis
      using init that by (auto simp: hgap_dec_chunk_init_def Let_def hgap_enc_chunk_pkt_payload_size_def split: if_splits)
  qed
  have "hgap_dec_chunk_read W c ?pkt = Undef"
    using short small wh_st c(3)
    by (auto simp: hgap_dec_chunk_read_def Let_def mem_read_def chunk_payload_def
        hgap_enc_chunk_is_small_def hgap_enc_chunk_pkt_payload_size_def split: option.splits)
  then have "decoder_handle W ?d ?pkt = Undef"
    using st init max by (auto simp: decoder_handle_def decoder_incorporate_def not_le [symmetric])
  then show ?thesis
    using st(1) b by (subst hgap_decoder_read_eq) (auto simp: Let_def)
qed

lemma cut_packet_ends_the_receiver:
  assumes cut: "sent_chunk W psz num m E" "wh_block_size W" "chunk_packet W psz num m E i = Some raw"
    and dec: "\<forall>re. wh_decode W re (of_nat (length m)) (psz - 24) \<noteq> None"
    and mtu: "24 \<le> unat rpsz" "unat rpsz < length raw" "unat rpsz \<le> 1500"
      "length slot = unat rpsz" "length slot' = unat rpsz"
  shows "run_receiver W (receive_pkt_size rpsz) [(header_bytes hgap_header_begin, slot'), (raw, slot)] = Undef"
proof -
  let ?b = "header_bytes hgap_header_begin" and ?mtu = "unat rpsz"
  note c = cut_packet [OF cut mtu(1,2,4)]
  have m: "unat (receive_pkt_size rpsz - 16) = ?mtu" using packet_slot [OF mtu(3)] .
  have t: "hgap_pkt_type (recv_into ?mtu slot raw) rpsz = Ret HGAP_PKT_DATA"
    using c by (auto simp: hgap_pkt_type_eq raw_type_def)
  have first_cut: "recv_into ?mtu slot' ?b = ?b @ drop 24 slot'"
    "hgap_pkt_type (?b @ drop 24 slot') 24 = Ret HGAP_PKT_BEGIN"
    using mtu(1) by (simp_all add: recv_into_def hgap_pkt_type_eq)
  have net: "hgapr_net_reader (receive_pkt_size rpsz) True (True, True)
      (map net_turn_of [(?b, slot'), (raw, slot)]) =
    Ret \<lparr>nr_started = True, nr_out = [\<lparr>sb_size = 24, sb_data = Some (?b @ drop 24 slot')\<rparr>,
      \<lparr>sb_size = rpsz, sb_data = Some (recv_into ?mtu slot raw)\<rparr>], nr_ret = Waiting\<rparr>"
    using mtu first_cut t by (simp add: hgapr_net_reader_def net_turn_of_def Let_def m)
  have first: "hgap_decoder_read W hgap_decoder_new (?b @ drop 24 slot') 24 =
      Ret (0, hgap_decoder_new\<lparr>dec_state := T_STARTED\<rparr>)"
    by (subst hgap_decoder_read_eq) (simp_all add: raw_type_def Let_def hgap_decoder_new_def)
  have "num \<noteq> - 1" using cut(1) by (auto simp: sent_chunk_def proto_consts)
  then have "hgap_decoder_read W (hgap_decoder_new\<lparr>dec_state := T_STARTED\<rparr>) (recv_into ?mtu slot raw) rpsz = Undef"
    using cut_packet_overruns [OF cut dec mtu(1,2,4), of "hgap_decoder_new\<lparr>dec_state := T_STARTED\<rparr>"]
    by (simp add: hgap_decoder_new_def)
  then show ?thesis
    using first unfolding run_receiver_def net
    by (simp add: dec_turn_of_def decloop_start_def Let_def decloop.simps)
qed

subsection \<open>Lemmas on the calls\<close>

lemma sender_of_config_wire: "sender_of_config env sock_ok inet_addr thread_ok cfg = Ret (Some hs) \<Longrightarrow> hs_wire hs = []"
  by (auto simp: sender_of_config_def hgap_sender_new_def Let_def split: option.splits if_splits)

lemma hgap_send_call_ok:
  assumes "hgap_check_config_sender (pe_resolves env) (pe_ferror env) cfg = HGAP_SUCCESS" "pe_wirehair_init env"
    and "sender_of_config (pe_sender env) (pe_sock_ok env) (pe_inet_addr env) (pe_thread_ok env) cfg =
      Ret (Some hs)"
    and "threads hs cfg = Ret t" "send_finished wire t"
  shows "hgap_send_call env threads cfg = Ret HGAP_SUCCESS"
  using assms by (simp add: hgap_send_call_def send_joined_def send_finished_def hgap_send_def)

lemma hgap_receive_call_ok:
  assumes "hgap_check_config_receiver (pe_resolves env) (pe_ferror env) cfg = HGAP_SUCCESS"
    "pe_wirehair_init env"
    and "threads cfg = Ret t" "recv_finished file t"
  shows "hgap_receive_call env threads cfg = Ret HGAP_SUCCESS"
  using assms by (simp add: hgap_receive_call_def receive_joined_def recv_finished_def hgap_receive_def)

text \<open>The receiver's options leave the packet size and the files at their defaults.\<close>

lemma receiver_arg_fields [simp]:
  "pkt_size (receiver_arg_set x cfg) = pkt_size cfg" "cfg_out (receiver_arg_set x cfg) = cfg_out cfg"
  by (cases x; simp)+

lemma receiver_fields [simp]:
  "pkt_size (fold (receiver_arg_set \<circ> snd) rs cfg) = pkt_size cfg"
  "cfg_out (fold (receiver_arg_set \<circ> snd) rs cfg) = cfg_out cfg"
  by (induction rs arbitrary: cfg) simp_all

lemma default_pkt_size:
  "hgap_defaults stdin stdout c = (HGAP_SUCCESS, Some d) \<Longrightarrow> pkt_size d = 1400"
  by (auto simp: hgap_defaults_def split: option.splits)

subsection \<open>Properties\<close>

text \<open>C5: from the command lines to the file, with all threads of both processes and the network interleaved. The
  options of \<open>hairgaps\<close> describe a configuration that passes the checks, with a redundancy of at most 2^20, and
  those of \<open>hairgapr\<close> one whose memory limit has room for a packet. In any state that the interleaved system reaches
  and in which none of the six threads of the transfer can move, \<open>hairgaps\<close> ends with status 0; and when enough of
  what was sent has arrived, chunk by chunk between an announcement and an end packet, in packets that fit the
  receiver's packet size, \<open>hairgapr\<close> ends with status 0 too and has written the sender's input.\<close>

theorem programs_transfer_the_file:
  fixes data :: bytes
  assumes "list_all (sender_arg_ok \<circ> snd) os" "list_all (receiver_arg_ok \<circ> snd) rs"
    and "is_operand a" "is_operand b"
    and "hgap_defaults stdin stdout junk = (HGAP_SUCCESS, Some defaults)"
  defines "cfg \<equiv> fold (sender_arg_set \<circ> snd) os defaults\<lparr>addr := Some a\<rparr>"
    and "rcfg \<equiv> fold (receiver_arg_set \<circ> snd) rs defaults\<lparr>addr := Some b\<rparr>"
  assumes "hgap_check_config_sender (pe_resolves env) (pe_ferror env) cfg = HGAP_SUCCESS"
    and "hgap_check_config_receiver (pe_resolves renv) (pe_ferror renv) rcfg = HGAP_SUCCESS"
    and "pe_wirehair_init env" "pe_wirehair_init renv"
    and "redund cfg = Fin r" "is_double r" "r \<le> 1048576"
    and "wh_block_size W" "wh_sound W" "wh_works W (pkt_size cfg - 24) (unat (send_buf_size cfg))"
    and "sender_of_config (pe_sender env) (pe_sock_ok env) (pe_inet_addr env) (pe_thread_ok env) cfg =
      Ret (Some hs)" "good_env (pe_sender env) hs"
    and "recv_env_ok sys rcfg" "writes_everything sys"
    and "2832 \<le> unat (mem_limit rcfg)"
    and "(transfer_step (pe_sender env) sys W cfg rcfg)\<^sup>*\<^sup>*
      (transfer_init cfg rcfg junk1 junk2 junk3 junk4 hs data) s"
    and "threads_stuck (pe_sender env) sys W cfg rcfg s"
    and "send_threads hs cfg = Ret (tr_send s)" "receive_threads rcfg = Ret (tr_recv s)"
  defines "pieces \<equiv> chunks_of (unat (send_buf_size cfg)) data"
  shows "hairgaps_main permutes (hgap_send_call env send_threads) defaults
      (prog # sender_words os @ [a]) = Ret 0 \<and>
    (length pieces \<le> unat HGAP_FIRST_RESERVED \<and> tr_arrived s = raws @ others \<and>
     delivery W (pkt_size cfg) (chunks_from W (pkt_size cfg) (redund cfg) 0 pieces) raws \<and>
     list_all (\<lambda>raw. length raw \<le> 1400) raws \<longrightarrow>
      hairgapr_main permutes (hgap_receive_call renv receive_threads) defaults
        (prog' # receiver_words rs @ [b]) = Ret 0 \<and>
      wr_file (rs_writer (tr_recv s)) = data)"
proof -
  note sent = sending_finishes(1) [OF assms(8,12-15,17,19) sender_of_config_wire [OF assms(18)] assms(23,24)]
  have "hgap_send_call env send_threads cfg = Ret HGAP_SUCCESS"
    using hgap_send_call_ok [where threads = send_threads, OF assms(8,10,18,25) sent] .
  then have "hairgaps_main permutes (hgap_send_call env send_threads) defaults
      (prog # sender_words os @ [a]) = Ret 0"
    by (simp add: cfg_def hairgaps_written(1) [OF assms(1,3)])
  moreover have "hairgapr_main permutes (hgap_receive_call renv receive_threads) defaults
        (prog' # receiver_words rs @ [b]) = Ret 0 \<and> wr_file (rs_writer (tr_recv s)) = data"
    if few: "length pieces \<le> unat HGAP_FIRST_RESERVED" and arrived: "tr_arrived s = raws @ others"
      and del: "delivery W (pkt_size cfg) (chunks_from W (pkt_size cfg) (redund cfg) 0 pieces) raws"
      and small: "list_all (\<lambda>raw. length raw \<le> 1400) raws"
  proof -
    have psz: "pkt_size rcfg = 1400" using default_pkt_size [OF assms(5)] by (simp add: rcfg_def)
    have size: "unat (pkt_size rcfg) \<le> 1500" "2 * (unat (pkt_size rcfg) + 16) \<le> unat (mem_limit rcfg)"
      "list_all (\<lambda>raw. length raw \<le> unat (pkt_size rcfg)) raws"
      using assms(22) small by (simp_all add: psz)
    have fin: "recv_finished data (tr_recv s)"
      using reception_finishes [OF assms(8,15,16,17,20,21) size(1,2) few [unfolded pieces_def] assms(23,24) arrived
          del [unfolded pieces_def] size(3)] .
    show ?thesis
      using hgap_receive_call_ok [where threads = receive_threads, OF assms(9,11,26) fin] fin
      by (simp add: rcfg_def hairgapr_written(1) [OF assms(2,4)] recv_finished_def)
  qed
  ultimately show ?thesis by blast
qed

text \<open>C22: the sender's packet size can be set up to 1500, but no option of the receiver changes its own, 1400.
  A packet of more than 1400 bytes is cut, and as the first packet of a chunk it makes the decoder read the payload its
  header announces from behind the end of the slot.\<close>

theorem large_packets_overrun_the_slot:
  assumes "hgap_defaults stdin stdout junk = (HGAP_SUCCESS, Some defaults)"
    and "1400 < v" "v \<le> 1500" "is_operand a" "is_operand b" "list_all (receiver_arg_ok \<circ> snd) rs"
    and "resolves a" "resolves b" "\<not> ferror stdin" "\<not> ferror stdout"
    and "sent_chunk W (of_int v) num m E" "wh_block_size W"
    and "chunk_packet W (of_int v) num m E i = Some raw" "1376 < length m"
    and "\<forall>re. wh_decode W re (of_nat (length m)) (of_int v - 24) \<noteq> None"
    and "length slot = 1400" "length slot' = 1400"
  shows "(\<exists>cfg. (\<forall>send. hairgaps_main permutes send defaults [prog, ''-M'', show_int v, a] =
        obind (send cfg) (\<lambda>ret. Ret (err_num ret))) \<and>
      pkt_size cfg = of_int v \<and> hgap_check_config_sender resolves ferror cfg = HGAP_SUCCESS) \<and>
    (\<exists>cfg. (\<forall>receive. hairgapr_main permutes receive defaults (prog' # receiver_words rs @ [b]) =
        obind (receive cfg) (\<lambda>ret. Ret (err_num ret))) \<and>
      hgap_check_config_receiver resolves ferror cfg = HGAP_SUCCESS \<and>
      run_receiver W (receive_pkt_size (pkt_size cfg))
        [(header_bytes hgap_header_begin, slot'), (raw, slot)] = Undef)"
proof (intro conjI exI allI)
  let ?cfg = "defaults\<lparr>pkt_size := of_int v, addr := Some a\<rparr>"
  let ?rcfg = "fold (receiver_arg_set \<circ> snd) rs defaults\<lparr>addr := Some b\<rparr>"
  have v: "unat (of_int v :: u64) = nat v"
    using assms(2,3) by (simp add: unat_eq_nat_uint uint_word_of_int_eq take_bit_int_eq_self)
  show "hairgaps_main permutes send defaults [prog, ''-M'', show_int v, a] =
      obind (send ?cfg) (\<lambda>ret. Ret (err_num ret))" for send
    using hairgaps_written(1) [of "[(False, Snd_pkt_size v)]", OF _ assms(4)] assms(2,3)
    by (simp add: sender_words_def write_option_def)
  show "pkt_size ?cfg = of_int v" by simp
  have ge: "\<not> fround (12 / 10) < 1" by code_simp
  show "hgap_check_config_sender resolves ferror ?cfg = HGAP_SUCCESS"
    using assms(1-3,7,9) ge by (auto simp: sender_config_SUCCESS v hgap_defaults_def split: option.splits)
  show "hairgapr_main permutes receive defaults (prog' # receiver_words rs @ [b]) =
      obind (receive ?rcfg) (\<lambda>ret. Ret (err_num ret))" for receive
    by (rule hairgapr_written(1) [OF assms(6,5)])
  show "hgap_check_config_receiver resolves ferror ?rcfg = HGAP_SUCCESS"
    using assms(1,8,10) by (auto simp: hgap_check_config_receiver_def hgap_defaults_def split: option.splits)
  have "length raw = chunk_payload (of_int v) m + 24" using sent_packet [OF assms(11-13)] by blast
  then have "1400 < length raw" using assms(2,14) v by (simp add: chunk_payload_def)
  then show "run_receiver W (receive_pkt_size (pkt_size ?rcfg))
      [(header_bytes hgap_header_begin, slot'), (raw, slot)] = Undef"
    using assms(16,17) default_pkt_size [OF assms(1)]
    by (intro cut_packet_ends_the_receiver [OF assms(11-13,15)]) simp_all
qed

text \<open>C39: \<open>hairgapr -t n\<close> asks for a timeout of \<open>n\<close> seconds and gets one of \<open>n\<close> microseconds.\<close>

theorem timeout_is_in_microseconds:
  assumes "0 \<le> n" "n < 2 ^ 31" "is_operand a"
  shows "\<exists>cfg. (\<forall>receive. hairgapr_main permutes receive defaults [prog, ''-t'', show_int n, a] =
        obind (receive cfg) (\<lambda>ret. Ret (err_num ret))) \<and>
      hgapr_set_socket_timeout (timeout cfg) = \<lparr>tv_sec = n div 1000000, tv_usec = n mod 1000000\<rparr>"
proof (intro exI conjI allI)
  let ?cfg = "defaults\<lparr>timeout := of_int n, addr := Some a\<rparr>"
  show "hairgapr_main permutes receive defaults [prog, ''-t'', show_int n, a] =
      obind (receive ?cfg) (\<lambda>ret. Ret (err_num ret))" for receive
    using hairgapr_written(1) [of "[(False, Rcv_timeout n)]", OF _ assms(3)] assms(1,2)
    by (simp add: receiver_words_def write_option_def)
  have n: "uint (of_int n :: u64) = n" using assms(1,2) by (simp add: uint_word_of_int_eq take_bit_int_eq_self)
  show "hgapr_set_socket_timeout (timeout ?cfg) = \<lparr>tv_sec = n div 1000000, tv_usec = n mod 1000000\<rparr>"
    by (simp add: hgapr_set_socket_timeout_def uint_div uint_mod n)
qed

theorem timeout_is_in_microseconds_witness:
  "\<exists>cfg. (\<forall>receive. hairgapr_main True receive example_defaults [''hairgapr'', ''-t'', show_int 5, ''0.0.0.0''] =
        obind (receive cfg) (\<lambda>ret. Ret (err_num ret))) \<and>
      hgapr_set_socket_timeout (timeout cfg) = \<lparr>tv_sec = 0, tv_usec = 5\<rparr>"
  using timeout_is_in_microseconds [of 5 "''0.0.0.0''" True example_defaults "''hairgapr''"]
  by (simp add: is_operand_def)

text \<open>C40: \<open>hairgaps -r inf\<close>: \<open>atof\<close> reads an infinite redundancy and the configuration check accepts it, in every
  configuration it accepts otherwise; and with that configuration the loop that sends a chunk that is not empty never
  ends.\<close>

theorem infinite_redundancy_never_ends:
  assumes "is_operand a"
    and "hgap_check_config_sender resolves ferror (config\<lparr>addr := Some a\<rparr>) = HGAP_SUCCESS"
    and "wh_block_size W" and "writes_all W (pkt_size config) m (ck_wh_state chunk)" and "m \<noteq> []"
    and "encodes W (pkt_size config) num m chunk" and "good_env env (sl_sender st)"
    and "length (sl_pkt st) = unat (pkt_size config)"
  shows "\<exists>config'. (\<forall>send. hairgaps_main permutes send config [prog, ''-r'', ''inf'', a] =
        obind (send config') (\<lambda>ret. Ret (err_num ret))) \<and>
      hgap_check_config_sender resolves ferror config' = HGAP_SUCCESS \<and>
      returns (emit_loop env W (redund config') (pkt_size config') chunk st) = Loop"
proof (intro exI conjI allI)
  let ?config = "config\<lparr>redund := Infty False, addr := Some a\<rparr>"
  have inf: "atof ''inf'' = Ret (Infty False)" by code_simp
  show "hairgaps_main permutes send config [prog, ''-r'', ''inf'', a] =
      obind (send ?config) (\<lambda>ret. Ret (err_num ret))" for send
  proof -
    let ?ws = "[(False, CHR ''r'', ''inf'')]"
    have words: "[prog, ''-r'', ''inf'', a] = prog # concat (map write_option ?ws) @ [a]"
      by (simp add: write_option_def)
    have opts: "list_all sender_loop.writable ?ws"
      "sender_loop.handle_all config ?ws = Ret (config\<lparr>redund := Infty False\<rparr>)"
      using inf by (simp_all add: sender_loop.writable_def sender_option_def)
    show ?thesis
      unfolding program_defs words
      by (subst sender_loop.program_written [OF opts(1) assms(1) opts(2)]) simp
  qed
  show "hgap_check_config_sender resolves ferror ?config = HGAP_SUCCESS"
    using assms(2) by (simp add: sender_config_SUCCESS)
  show "returns (emit_loop env W (redund ?config) (pkt_size ?config) chunk st) = Loop"
    using infinite_redundancy_loops [OF assms(3-8)] by simp
qed

theorem infinite_redundancy_never_ends_witness:
  "\<exists>config'. (\<forall>send. hairgaps_main True send example_defaults [''hairgaps'', ''-r'', ''inf'', ''10.0.0.2''] =
        obind (send config') (\<lambda>ret. Ret (err_num ret))) \<and>
      hgap_check_config_sender (\<lambda>_. True) (\<lambda>_. False) config' = HGAP_SUCCESS \<and>
      returns (emit_loop example_env cyclic (redund config') (pkt_size config')
        \<lparr>ck_num = 4, ck_len = 3, ck_pkt_size = 27, ck_next_pkt_id = 0,
         ck_wh_state = None, ck_data = Some [1, 2, 3], ck_total_gen = 0\<rparr>
        \<lparr>sl_sender = example_sender, sl_pkt = replicate 1400 0, sl_data_sent = 0, sl_ret = HGAP_SUCCESS,
         sl_more = True\<rparr>) = Loop"
proof -
  have size: "pkt_size example_defaults = 1400" by (simp add: example_defaults_def hgap_defaults_def)
  have ok: "hgap_check_config_sender (\<lambda>_. True) (\<lambda>_. False)
      (example_defaults\<lparr>addr := Some ''10.0.0.2''\<rparr>) = HGAP_SUCCESS"
    unfolding sender_config_SUCCESS by (simp add: example_defaults_def hgap_defaults_def) code_simp
  show ?thesis
    by (rule infinite_redundancy_never_ends [OF _ ok cyclic_block_size, where m = "[1, 2, 3]" and num = 4])
      (use example_send_facts(3) in \<open>simp_all add: is_operand_def encodes_def chunk_payload_def writes_all_def size\<close>)
qed

subsection \<open>Witnesses\<close>

text \<open>\<open>hairgaps -N 2 -M 26 -r2 -k0 10.0.0.2\<close> sends three bytes to \<open>hairgapr -p 11011 0.0.0.0\<close>.\<close>

definition example_program_env :: "string program_env" where
  "example_program_env =
     \<lparr>pe_resolves = \<lambda>_. True, pe_ferror = \<lambda>_. False, pe_wirehair_init = True, pe_sender = example_env,
      pe_sock_ok = True, pe_inet_addr = \<lambda>_. 1, pe_thread_ok = True\<rparr>"

definition example_sent_args :: "(bool \<times> sender_arg) list" where
  "example_sent_args =
     [(False, Snd_n_pkt 2), (False, Snd_pkt_size 26), (True, Snd_redund 2 [0]), (True, Snd_keepalive 0)]"

lemma example_sent_words:
  "sender_words example_sent_args = [''-N'', ''2'', ''-M'', ''26'', ''-r2.0'', ''-k0'']"
  "receiver_words [(False, Rcv_port 11011)] = [''-p'', ''11011'']"
  by (simp_all add: sender_words_def receiver_words_def example_sent_args_def write_option_def
      show_int_def show_decimal_def show_nat.simps digit_chars)

lemma example_sent_config:
  "fold (sender_arg_set \<circ> snd) example_sent_args example_defaults =
     example_defaults\<lparr>n_pkt := 2, pkt_size := 26, redund := Fin 2, keepalive := 0\<rparr>"
proof -
  have "ieee_round (decimal_value 2 [0]) = Fin 2" by code_simp
  then show ?thesis by (simp add: example_sent_args_def)
qed

theorem programs_transfer_the_file_witness:
  "\<exists>s :: cyc transfer.
   hairgaps_main True (hgap_send_call example_program_env (\<lambda>_ _. Ret (tr_send s))) example_defaults
     [''hairgaps'', ''-N'', ''2'', ''-M'', ''26'', ''-r2.0'', ''-k0'', ''10.0.0.2''] = Ret 0 \<and>
   hairgapr_main True (hgap_receive_call example_program_env (\<lambda>_. Ret (tr_recv s))) example_defaults
     [''hairgapr'', ''-p'', ''11011'', ''0.0.0.0''] = Ret 0 \<and>
   tr_arrived s = example_received \<and> wr_file (rs_writer (tr_recv s)) = [7, 8, 9]"
proof -
  let ?cfg = "fold (sender_arg_set \<circ> snd) example_sent_args example_defaults\<lparr>addr := Some ''10.0.0.2''\<rparr>"
  let ?rcfg = "fold (receiver_arg_set \<circ> snd) [(False, Rcv_port 11011)] example_defaults
    \<lparr>addr := Some ''0.0.0.0''\<rparr>"
  have defaults: "hgap_defaults ''in'' ''out'' (Some undefined) = (HGAP_SUCCESS, Some example_defaults)"
    by (simp add: example_defaults_def hgap_defaults_def)
  have fields: "cfg_in example_defaults = Some ''in''" "cfg_out example_defaults = Some ''out''"
    "byterate example_defaults = Fin 0"  "pkt_size example_defaults = 1400"
    "mem_limit example_defaults = 104857600"
    by (simp_all add: example_defaults_def hgap_defaults_def)
  have args: "list_all (sender_arg_ok \<circ> snd) example_sent_args"
    "list_all (receiver_arg_ok \<circ> snd) [(False, Rcv_port 11011)]"
    "is_operand ''10.0.0.2''" "is_operand ''0.0.0.0''"
    by (simp_all add: example_sent_args_def is_operand_def)
  have cfg: "hgap_check_config_sender (pe_resolves example_program_env) (pe_ferror example_program_env) ?cfg
      = HGAP_SUCCESS"
    "hgap_check_config_receiver (pe_resolves example_program_env) (pe_ferror example_program_env) ?rcfg
      = HGAP_SUCCESS"
    "pe_wirehair_init example_program_env"
    by (simp_all add: sender_config_SUCCESS example_sent_config hgap_check_config_receiver_def fields
        example_program_env_def)
  have d: "redund ?cfg = Fin 2" "is_double 2" "(2 :: rat) \<le> 1048576"
    unfolding is_double_def by (simp add: example_sent_config, code_simp, simp)
  have size: "send_buf_size ?cfg = 4" "pkt_size ?cfg = 26" "pkt_size ?rcfg = 1400"
    by (simp_all add: send_buf_size_def example_sent_config HGAP_HEADER_LEN_def fields)
  have works: "wh_works cyclic (pkt_size ?cfg - 24) (unat (send_buf_size ?cfg))"
    by (simp add: size wh_works_def) (auto simp: cyclic_def)
  have ms: "chunks_of (unat (send_buf_size ?cfg)) [7, 8, 9 :: u8] = [[7, 8, 9]]"
  proof -
    have "chunks_of 4 [7, 8, 9 :: u8] = [[7, 8, 9]]" by code_simp
    then show ?thesis by (simp add: size)
  qed
  define hs where "hs = example_sender\<lparr>hs_dst := (1, port example_defaults)\<rparr>"
  have "dbl_of_nat 0 = Fin 0" by code_simp
  then have hs: "sender_of_config (pe_sender example_program_env) (pe_sock_ok example_program_env)
      (pe_inet_addr example_program_env) (pe_thread_ok example_program_env) ?cfg = Ret (Some hs)"
    by (simp add: sender_of_config_def example_sent_config fields hgap_sender_new_def hs_def
        example_sender_def example_env_def example_program_env_def)
  have env: "good_env (pe_sender example_program_env) hs"
    by (simp add: good_env_def sends_all_def rate_ok_def example_env_def example_sender_def hs_def
        hgap_limiter_new_def example_program_env_def)
  have wire: "hs_wire hs = []" by (simp add: hs_def example_sender_def)
  have sys: "recv_env_ok example_recv_env ?rcfg" "writes_everything example_recv_env"
    using example_recv_env_ok [of 0]
    by (auto simp: recv_env_ok_def hgapr_open_udp_socket_def example_recv_env_def writes_everything_def)
  have room: "unat (pkt_size ?rcfg) \<le> 1500"
    "2 * (unat (pkt_size ?rcfg) + 16) \<le> unat (mem_limit ?rcfg)" "2832 \<le> unat (mem_limit ?rcfg)"
    by (simp_all add: fields)
  have few: "length (chunks_of (unat (send_buf_size ?cfg)) [7, 8, 9 :: u8]) \<le> unat HGAP_FIRST_RESERVED"
    by (simp add: ms HGAP_FIRST_RESERVED_def)
  have small: "list_all (\<lambda>raw. length raw \<le> unat (pkt_size ?rcfg)) example_received"
    "list_all (\<lambda>raw. length raw \<le> 1400) example_received"
    by (simp_all add: example_received_def fields)
  let ?cs = "chunks_from cyclic (pkt_size ?cfg) (redund ?cfg) 0
      (chunks_of (unat (send_buf_size ?cfg)) [7, 8, 9])"
  have cs: "?cs = chunks_from cyclic 26 (Fin 2) 0 [[7, 8, 9]]" unfolding ms unfolding size d ..
  have received: "delivery cyclic (pkt_size ?cfg) ?cs example_received"
    "set example_received \<subseteq> set (transfer_wire cyclic (pkt_size ?cfg) ?cs)"
    using example_delivery example_received_on_wire unfolding cs unfolding size .
  obtain s where s: "(transfer_step (pe_sender example_program_env) example_recv_env cyclic ?cfg ?rcfg)\<^sup>*\<^sup>*
      (transfer_init ?cfg ?rcfg example_slot None example_slot SBUF_NULL hs [7, 8, 9]) s"
    "threads_stuck (pe_sender example_program_env) example_recv_env cyclic ?cfg ?rcfg s"
    "tr_arrived s = example_received"
    using transfer_can_stop [OF cfg(1) d cyclic_block_size cyclic_sound works env wire sys room(1,2) few
        received(1) small(1) received(2), of example_slot None example_slot SBUF_NULL]
    by blast
  note transfer = programs_transfer_the_file [OF args defaults cfg cfg(3) d cyclic_block_size cyclic_sound
      works hs env sys room(3) s(1,2), of "\<lambda>_ _. Ret (tr_send s)" "\<lambda>_. Ret (tr_recv s)" True "''hairgaps''"
      example_received "[]" "''hairgapr''", OF refl refl]
  show ?thesis
    using transfer few s(3) received(1) small(2) unfolding example_sent_words
    by (intro exI [of _ s]) simp
qed

text \<open>\<open>hairgaps -M 1450\<close> sends a chunk of 1400 bytes in one packet of 1424, \<open>hairgapr -t 5 -m10\<close> cuts it.\<close>

theorem large_packets_overrun_the_slot_witness:
  "\<exists>cfg. (\<forall>receive. hairgapr_main True receive example_defaults [''hairgapr'', ''-t'', ''5'', ''-m10'', ''0.0.0.0''] =
        obind (receive cfg) (\<lambda>ret. Ret (err_num ret))) \<and>
      hgap_check_config_receiver (\<lambda>_. True) (\<lambda>_. False) cfg = HGAP_SUCCESS \<and>
      run_receiver cyclic (receive_pkt_size (pkt_size cfg))
        [(header_bytes hgap_header_begin, replicate 1400 0),
         (header_bytes (chunk_header 1450 0 (replicate 1400 7) 0) @ replicate 1400 7, replicate 1400 0)] = Undef"
proof -
  have defaults: "hgap_defaults ''in'' ''out'' (Some undefined) = (HGAP_SUCCESS, Some example_defaults)"
    by (simp add: example_defaults_def hgap_defaults_def)
  let ?m = "replicate 1400 (7 :: u8)"
  have sent: "sent_chunk cyclic (of_int 1450) 0 ?m None"
    by (simp add: sent_chunk_def proto_consts)
  have raw: "chunk_packet cyclic (of_int 1450) 0 ?m None 0 = Some (header_bytes (chunk_header 1450 0 ?m 0) @ ?m)"
    by (simp add: chunk_packet_def chunk_block_def)
  have dec: "\<forall>re. wh_decode cyclic re (of_nat (length ?m)) (of_int 1450 - 24) \<noteq> None"
    by (simp add: cyclic_def)
  show ?thesis
    using large_packets_overrun_the_slot [OF defaults _ _ _ _ example_args_ok(3) _ _ _ _ sent cyclic_block_size
        raw _ dec, of "''10.0.0.2''" "''0.0.0.0''" "\<lambda>_. True" "\<lambda>_. False" "replicate 1400 0" "replicate 1400 0"
        True "''hairgaps''" "''hairgapr''"]
    unfolding example_words by (simp add: is_operand_def)
qed

end
