(* ===== verification/Printing.thy ===== *)
theory Printing
  imports Config Numbers
begin

section \<open>What the library prints: \<open>src/lib/common.c\<close>, \<open>src/lib/common.h\<close>, \<open>src/lib/config.c\<close>\<close>

text \<open>
  The texts that go to a stream: the dump of a configuration, the hexadecimal dump of a buffer and the
  report of an error. The formats are written out. A text used as a format itself, with no further
  argument, is \<open>printf_text\<close>: a conversion in it reads an argument that is not there.
\<close>

subsection \<open>Formats\<close>

definition nl :: string where "nl = [CHR 0x0A]"

fun printf_text :: "string \<Rightarrow> string outcome" where
  "printf_text [] = Ret []"
| "printf_text [c] = (if c = CHR ''%'' then Undef else Ret [c])"
| "printf_text (c # d # cs) =
     (if c = CHR ''%''
      then (if d = CHR ''%'' then obind (printf_text cs) (\<lambda>s. Ret (CHR ''%'' # s)) else Undef)
      else obind (printf_text (d # cs)) (\<lambda>s. Ret (c # s)))"

text \<open>\<open>%.kf\<close>: rounded to \<open>k\<close> decimals, ties to even.\<close>

definition pad_zeros :: "nat \<Rightarrow> string \<Rightarrow> string" where
  "pad_zeros k s = replicate (k - length s) CHR ''0'' @ s"

fun show_fixed :: "nat \<Rightarrow> dbl \<Rightarrow> string" where
  "show_fixed k NaN = ''nan''"
| "show_fixed k (Infty s) = (if s then ''-inf'' else ''inf'')"
| "show_fixed k (Fin r) =
     (let n = nat (rne (\<bar>r\<bar> * 10 ^ k))
      in (if r < 0 then ''-'' else []) @ show_nat (n div 10 ^ k) @
         (if k = 0 then [] else CHR ''.'' # pad_zeros k (show_nat (n mod 10 ^ k))))"

subsection \<open>The configuration\<close>

text \<open>\<open>show_ptr\<close> is the format \<open>%p\<close> of the library.\<close>

definition dump_line :: "string \<Rightarrow> string \<Rightarrow> string" where
  "dump_line name text = ''    '' @ name @ '': '' @ text @ nl"

definition hgap_config_dump :: "('f option \<Rightarrow> string) \<Rightarrow> 'f hgap_config \<Rightarrow> string" where
  "hgap_config_dump show_ptr config =
     (let address = (case addr config of Some a \<Rightarrow> a | None \<Rightarrow> ''<not set>'')
      in ''Hairgap config:'' @ nl @
         dump_line ''in'' (show_ptr (cfg_in config)) @
         dump_line ''out'' (show_ptr (cfg_out config)) @
         dump_line ''n_pkt'' (show_nat (unat (n_pkt config))) @
         dump_line ''pkt_size'' (show_nat (unat (pkt_size config))) @
         dump_line ''redundancy'' (show_fixed 6 (redund config)) @
         dump_line ''receiver addr'' address @
         dump_line ''receiver port'' (show_int (sint (port config))) @
         dump_line ''byterate'' (show_fixed 6 (byterate config)) @
         dump_line ''keepalive'' (show_nat (unat (keepalive config)) @ '' ms'') @
         dump_line ''timeout'' (show_nat (unat (timeout config)) @ '' us'') @
         dump_line ''memory limit''
           (show_fixed 3 (dbl_div (dbl_of_nat (unat (mem_limit config))) (Fin 1048576)) @ '' MB''))"

subsection \<open>Hexadecimal dump\<close>

definition hex_char :: "nat \<Rightarrow> char" where
  "hex_char d = (if d < 10 then digit_char d else char_of (87 + d))"

definition hex_byte :: "u8 \<Rightarrow> string" where
  "hex_byte b = [hex_char (unat b div 16), hex_char (unat b mod 16)]"

fun hexdump_loop :: "nat \<Rightarrow> bytes \<Rightarrow> string" where
  "hexdump_loop i [] = []"
| "hexdump_loop i (b # bs) =
     (if i mod 16 = 0 then nl else if i mod 8 = 0 then '' '' else []) @
     hex_byte b @ '' '' @ hexdump_loop (i + 1) bs"

definition dbg_hexdump :: "bytes \<Rightarrow> nat \<Rightarrow> string outcome" where
  "dbg_hexdump x len = obind (mem_read len x) (\<lambda>buf. Ret (hexdump_loop 0 buf @ nl))"

subsection \<open>Reports of errors\<close>

definition HGAP_PERROR :: "string \<Rightarrow> nat \<Rightarrow> int \<Rightarrow> string \<Rightarrow> string outcome" where
  "HGAP_PERROR file line err msg =
     obind (printf_text msg) (\<lambda>m.
     obind (printf_text (hgap_err_str err)) (\<lambda>e.
       Ret (''[ERROR] (at '' @ file @ '':'' @ show_nat line @ '') - '' @ m @ '': '' @ e @ nl)))"

subsection \<open>Lemmas\<close>

lemma printf_text_plain: "CHR ''%'' \<notin> set s \<Longrightarrow> printf_text s = Ret s"
  by (induction s rule: printf_text.induct) auto

lemma hex_char_value: "d < 16 \<Longrightarrow> digit_value (hex_char d) = d"
  by (simp add: hex_char_def digit_simps) (simp add: digit_value_def Let_def)

fun pairs_of :: "nat list \<Rightarrow> nat list" where
  "pairs_of (a # b # ds) = (a * 16 + b) # pairs_of ds"
| "pairs_of _ = []"

text \<open>The bytes a dump shows: its hexadecimal digits, two by two.\<close>

definition shown_bytes :: "string \<Rightarrow> nat list" where
  "shown_bytes s = pairs_of (filter (\<lambda>d. d < 16) (map digit_value s))"

lemma separator_values: "digit_value CHR '' '' = 36" "digit_value CHR 0x0A = 36"
  by code_simp+

lemma hexdump_loop_shown:
  "pairs_of (filter (\<lambda>d. d < 16) (map digit_value (hexdump_loop i bs @ nl))) = map unat bs"
proof (induction bs arbitrary: i)
  case (Cons b bs)
  have "unat b div 16 < 16" "unat b mod 16 < 16" "unat b div 16 * 16 + unat b mod 16 = unat b"
    using unsigned_less [of b, where 'a = nat] by (simp_all add: less_mult_imp_div_less)
  then show ?case
    using Cons [of "i + 1"] by (simp add: hex_byte_def hex_char_value nl_def separator_values)
qed (simp add: nl_def separator_values)

subsection \<open>Properties\<close>

text \<open>The hexadecimal dump of the first \<open>len\<close> bytes of an object stays inside it, and its digits
  read two by two are those bytes.\<close>

theorem hexdump_reads_back:
  "(case dbg_hexdump x len of
      Ret s \<Rightarrow> len \<le> length x \<and> shown_bytes s = map unat (take len x)
    | Undef \<Rightarrow> length x < len
    | _ \<Rightarrow> False)"
  by (simp add: dbg_hexdump_def mem_read_def shown_bytes_def hexdump_loop_shown del: map_append)

text \<open>An error is reported with the message of its code, whatever the code: no message of the library
  is misread as a format.\<close>

theorem errors_are_reported:
  assumes "CHR ''%'' \<notin> set msg"
  shows "HGAP_PERROR file line err msg =
    Ret (''[ERROR] (at '' @ file @ '':'' @ show_nat line @ '') - '' @ msg @ '': '' @ hgap_err_str err @ nl)"
  using assms hgap_err_str_no_percent [of err] by (simp add: HGAP_PERROR_def printf_text_plain)

text \<open>The port is printed as a signed number: from 32768 on it is shown negative.\<close>

lemma large_ports_print_negative:
  assumes "2 ^ 15 \<le> unat (port config)" shows "\<exists>n. show_int (sint (port config)) = CHR ''-'' # show_nat n"
proof -
  have "sint (port config) < 0"
  proof (rule ccontr)
    assume "\<not> sint (port config) < 0"
    moreover have lt: "sint (port config) < 2 ^ 15" using sint_less [of "port config"] by simp
    ultimately have "uint (port config) = sint (port config)"
      by (simp add: uint_sint take_bit_int_eq_self)
    then show False using assms lt by (simp add: unat_eq_nat_uint)
  qed
  then show ?thesis by (auto simp: show_int_def)
qed

theorem errors_are_reported_witness:
  "HGAP_PERROR ''hairgaps.c'' 116 17 ''Hairgaps failed'' =
     Ret (''[ERROR] (at hairgaps.c:116) - Hairgaps failed: '' @ hgap_err_str 17 @ nl)"
  using errors_are_reported [of "''Hairgaps failed''" "''hairgaps.c''" 116 17]
  by (simp add: show_nat.simps digit_chars)

end
