(* ===== verification/Limiter_Threads.thy ===== *)
theory Limiter_Threads
  imports Sender
begin

section \<open>The limiter shared by two threads: \<open>src/lib/limiter.c\<close>, \<open>src/lib/sender.c\<close>\<close>

text \<open>
  \<open>send_loop\<close> and the keepalive thread call \<open>hgap_sender_send\<close> on one sender, and with it
  \<open>hgap_limiter_limit\<close> on one limiter, without a lock. Here a call is cut into its accesses to the
  shared fields: each \<open>+=\<close> is a load and a store. The reads of one measurement of the rate are one access.
\<close>

subsection \<open>The accesses of a call\<close>

datatype limit_pc =
    L_Total u64 | L_Total_Store u64 u64     \<comment> \<open>\<open>total_data_sent += len\<close>\<close>
  | L_Pkt u64 | L_Pkt_Store u64 u64         \<comment> \<open>\<open>n_pkt_sent++\<close>\<close>
  | L_Bytes u64 | L_Bytes_Store u64         \<comment> \<open>\<open>n_bytes_sent += len\<close>\<close>
  | L_Check | L_Rate
  | L_Since | L_Reset_Pkt | L_Reset_Bytes   \<comment> \<open>\<open>hgap_limiter_reset_rate\<close>\<close>
  | L_End

fun limit_access ::
  "(nat \<Rightarrow> timeval) \<Rightarrow> limit_pc \<times> nat \<times> hgap_limiter \<Rightarrow> limit_pc \<times> nat \<times> hgap_limiter" where
  "limit_access clock (L_Total len, k, lm) = (L_Total_Store (total_data_sent lm + len) len, k, lm)"
| "limit_access clock (L_Total_Store v len, k, lm) = (L_Pkt len, k, lm\<lparr>total_data_sent := v\<rparr>)"
| "limit_access clock (L_Pkt len, k, lm) = (L_Pkt_Store (n_pkt_sent lm + 1) len, k, lm)"
| "limit_access clock (L_Pkt_Store v len, k, lm) = (L_Bytes len, k, lm\<lparr>n_pkt_sent := v\<rparr>)"
| "limit_access clock (L_Bytes len, k, lm) = (L_Bytes_Store (n_bytes_sent lm + len), k, lm)"
| "limit_access clock (L_Bytes_Store v, k, lm) = (L_Check, k, lm\<lparr>n_bytes_sent := v\<rparr>)"
| "limit_access clock (L_Check, k, lm) =
     (if hl_byterate lm \<noteq> Fin 0 \<and> n_pkt_sent lm > HLIM_CHK_PERIOD then L_Rate else L_End, k, lm)"
| "limit_access clock (L_Rate, k, lm) =
     (if dbl_less (hl_byterate lm) (hgap_limiter_get_current_rate (clock k) lm) then L_Rate else L_Since,
      k + 1, lm)"
| "limit_access clock (L_Since, k, lm) = (L_Reset_Pkt, k + 1, lm\<lparr>since := clock k\<rparr>)"
| "limit_access clock (L_Reset_Pkt, k, lm) = (L_Reset_Bytes, k, lm\<lparr>n_pkt_sent := 0\<rparr>)"
| "limit_access clock (L_Reset_Bytes, k, lm) = (L_End, k, lm\<lparr>n_bytes_sent := 0\<rparr>)"
| "limit_access clock (L_End, k, lm) = (L_End, k, lm)"

subsection \<open>Two threads\<close>

record limiter_threads =
  lt_main :: limit_pc
  lt_keepalive :: limit_pc
  lt_reads :: nat
  lt_lim :: hgap_limiter

inductive limiter_threads_step :: "(nat \<Rightarrow> timeval) \<Rightarrow> limiter_threads \<Rightarrow> limiter_threads \<Rightarrow> bool"
  for clock where
  main_access: "limit_access clock (lt_main s, lt_reads s, lt_lim s) = (pc, k, lm) \<Longrightarrow>
    lt_main s \<noteq> L_End \<Longrightarrow>
    limiter_threads_step clock s (s\<lparr>lt_main := pc, lt_reads := k, lt_lim := lm\<rparr>)"
| keepalive_access: "limit_access clock (lt_keepalive s, lt_reads s, lt_lim s) = (pc, k, lm) \<Longrightarrow>
    lt_keepalive s \<noteq> L_End \<Longrightarrow>
    limiter_threads_step clock s (s\<lparr>lt_keepalive := pc, lt_reads := k, lt_lim := lm\<rparr>)"

definition limiter_threads_start :: "nat \<Rightarrow> hgap_limiter \<Rightarrow> u64 \<Rightarrow> u64 \<Rightarrow> limiter_threads" where
  "limiter_threads_start k lm len len' =
     \<lparr>lt_main = L_Total len, lt_keepalive = L_Total len', lt_reads = k, lt_lim = lm\<rparr>"

subsection \<open>One thread alone\<close>

lemma access_End: "(limit_access clock ^^ n) (L_End, k, lm) = (L_End, k, lm)"
  by (induction n) simp_all

lemma access_reset:
  "(limit_access clock ^^ (3 + n)) (L_Since, k, lm) =
     (L_End, k + 1, hgap_limiter_reset_rate (clock k) lm)"
  by (simp add: numeral_3_eq_3 funpow_swap1 access_End hgap_limiter_reset_rate_def)

text \<open>The wait: the loop of accesses ends exactly when the loop of the function does.\<close>

lemma access_wait:
  assumes "limiter_wait clock k lm = Some k1"
  shows "\<exists>n. (limit_access clock ^^ n) (L_Rate, k, lm) = (L_Since, k1, lm)"
proof -
  define d where "d = k1 - k"
  have "k < k1" using limiter_wait_result [OF assms] by simp
  then show ?thesis
    using assms d_def
  proof (induction d arbitrary: k)
    case (Suc d)
    show ?case
    proof (cases "dbl_less (hl_byterate lm) (hgap_limiter_get_current_rate (clock k) lm)")
      case True
      then have w: "limiter_wait clock (k + 1) lm = Some k1"
        using Suc.prems(2) by (subst (asm) limiter_wait.simps) simp
      then have "k + 1 < k1" using limiter_wait_result by blast
      moreover have "d = k1 - (k + 1)" using Suc.prems(3) by linarith
      ultimately obtain n where "(limit_access clock ^^ n) (L_Rate, k + 1, lm) = (L_Since, k1, lm)"
        using Suc.IH [OF _ w] by blast
      then show ?thesis using True by (intro exI [of _ "Suc n"]) (simp add: funpow_swap1)
    next
      case False
      then have "k1 = k + 1" using Suc.prems(2) by (subst (asm) limiter_wait.simps) simp
      then show ?thesis using False by (intro exI [of _ 1]) simp
    qed
  qed simp
qed

lemma access_no_wait:
  assumes "(limit_access clock ^^ n) (L_Rate, k, lm) = (pc, k', lm')" "pc \<noteq> L_Rate"
  shows "\<exists>k1. limiter_wait clock k lm = Some k1"
  using assms
proof (induction n arbitrary: k)
  case (Suc n)
  show ?case
  proof (cases "dbl_less (hl_byterate lm) (hgap_limiter_get_current_rate (clock k) lm)")
    case True
    then have "\<exists>k1. limiter_wait clock (k + 1) lm = Some k1"
      using Suc by (simp add: funpow_swap1)
    then show ?thesis using True by (subst limiter_wait.simps) simp
  next
    case False
    then show ?thesis by (subst limiter_wait.simps) simp
  qed
qed simp

lemma access_counters:
  "(limit_access clock ^^ (6 + n)) (L_Total len, k, lm) = (limit_access clock ^^ n) (L_Check, k,
     lm\<lparr>total_data_sent := total_data_sent lm + len, n_pkt_sent := n_pkt_sent lm + 1,
        n_bytes_sent := n_bytes_sent lm + len\<rparr>)"
  by (simp add: eval_nat_numeral funpow_swap1)

text \<open>Accesses are deterministic and a finished call does nothing more.\<close>

lemma access_End_unique:
  assumes "(limit_access clock ^^ m) s = (L_End, k, lm)" "(limit_access clock ^^ n) s = (L_End, k', lm')"
  shows "k = k' \<and> lm = lm'"
proof -
  have stay: "(limit_access clock ^^ (a + b)) s = (L_End, k, lm)"
    if "(limit_access clock ^^ b) s = (L_End, k, lm)" for a b k lm
    using that by (simp add: funpow_add access_End)
  show ?thesis using stay [OF assms(1), of n] stay [OF assms(2), of m] by (simp add: add.commute)
qed

lemma access_limit:
  assumes "hgap_limiter_limit clock k hlim len = Some (k', hlim')"
  shows "\<exists>n. (limit_access clock ^^ n) (L_Total len, k, hlim) = (L_End, k', hlim')"
proof -
  let ?l = "hlim\<lparr>total_data_sent := total_data_sent hlim + len, n_pkt_sent := n_pkt_sent hlim + 1,
    n_bytes_sent := n_bytes_sent hlim + len\<rparr>"
  show ?thesis
  proof (cases "hl_byterate ?l \<noteq> Fin 0 \<and> n_pkt_sent ?l > HLIM_CHK_PERIOD")
    case True
    then obtain k1 where k1: "limiter_wait clock k ?l = Some k1" "k' = k1 + 1"
      "hlim' = hgap_limiter_reset_rate (clock k1) ?l"
      using assms by (auto simp: hgap_limiter_limit_def Let_def split: option.splits)
    from access_wait [OF k1(1)] obtain m where m: "(limit_access clock ^^ m) (L_Rate, k, ?l) = (L_Since, k1, ?l)"
      by blast
    have "(limit_access clock ^^ (3 + 0)) ((limit_access clock ^^ m) (limit_access clock (L_Check, k, ?l))) =
        (L_End, k', hlim')"
      using True m k1 access_reset [of 0 clock k1 ?l] by simp
    moreover have "(limit_access clock ^^ (6 + (m + 1))) (L_Total len, k, hlim) =
        (limit_access clock ^^ m) (limit_access clock (L_Check, k, ?l))"
      unfolding access_counters by (simp add: funpow_swap1)
    ultimately have "(limit_access clock ^^ (3 + (6 + (m + 1)))) (L_Total len, k, hlim) = (L_End, k', hlim')"
      unfolding funpow_add [of 3] by simp
    then show ?thesis by blast
  next
    case False
    then have "k' = k" "hlim' = ?l"
      using assms by (auto simp: hgap_limiter_limit_def Let_def)
    then show ?thesis
      using False access_counters [of 1 clock len k hlim] by (intro exI [of _ "6 + 1"]) auto
  qed
qed

lemma limit_access_ends:
  assumes "(limit_access clock ^^ n) (L_Total len, k, hlim) = (L_End, k', hlim')"
  shows "\<exists>r. hgap_limiter_limit clock k hlim len = Some r"
proof (rule ccontr)
  let ?l = "hlim\<lparr>total_data_sent := total_data_sent hlim + len, n_pkt_sent := n_pkt_sent hlim + 1,
    n_bytes_sent := n_bytes_sent hlim + len\<rparr>"
  assume "\<nexists>r. hgap_limiter_limit clock k hlim len = Some r"
  then have none: "limiter_wait clock k ?l = None" "hl_byterate ?l \<noteq> Fin 0" "n_pkt_sent ?l > HLIM_CHK_PERIOD"
    by (auto simp: hgap_limiter_limit_def Let_def split: if_splits option.splits)
  have "(limit_access clock ^^ (6 + (n + 1))) (L_Total len, k, hlim) =
      (limit_access clock ^^ n) (limit_access clock (L_Check, k, ?l))"
    unfolding access_counters by (simp add: funpow_swap1)
  also have "\<dots> = (limit_access clock ^^ n) (L_Rate, k, ?l)" using none by simp
  finally have "(limit_access clock ^^ n) (L_Rate, k, ?l) = (limit_access clock ^^ (7 + n)) (L_Total len, k, hlim)"
    by simp
  also have "\<dots> = (L_End, k', hlim')"
    unfolding funpow_add using assms by (simp add: access_End)
  finally show False using access_no_wait [of n clock k ?l] none(1) by simp
qed

subsection \<open>Schedules\<close>

text \<open>The threads run by a schedule, \<open>True\<close> for the keepalive thread.\<close>

definition limiter_move :: "(nat \<Rightarrow> timeval) \<Rightarrow> bool \<Rightarrow> limiter_threads \<Rightarrow> limiter_threads" where
  "limiter_move clock keepalive s =
     (if keepalive
      then (case limit_access clock (lt_keepalive s, lt_reads s, lt_lim s) of
              (pc, k, lm) \<Rightarrow> s\<lparr>lt_keepalive := pc, lt_reads := k, lt_lim := lm\<rparr>)
      else (case limit_access clock (lt_main s, lt_reads s, lt_lim s) of
              (pc, k, lm) \<Rightarrow> s\<lparr>lt_main := pc, lt_reads := k, lt_lim := lm\<rparr>))"

lemma limiter_move_step: "(limiter_threads_step clock)\<^sup>=\<^sup>= s (limiter_move clock b s)"
proof (cases "(if b then lt_keepalive s else lt_main s) = L_End")
  case True
  then have "limiter_move clock b s = s" by (cases b) (simp_all add: limiter_move_def)
  then show ?thesis by simp
next
  case False
  then show ?thesis
    by (cases b) (auto simp: limiter_move_def intro: limiter_threads_step.intros split: prod.split)
qed

lemma limiter_moves_steps: "(limiter_threads_step clock)\<^sup>*\<^sup>* s (fold (limiter_move clock) bs s)"
proof (induction bs arbitrary: s)
  case (Cons b bs)
  have "(limiter_threads_step clock)\<^sup>*\<^sup>* s (limiter_move clock b s)"
    using limiter_move_step [of clock s b] by auto
  then show ?case using Cons [of "limiter_move clock b s"] by simp
qed simp

subsection \<open>Properties\<close>

text \<open>Alone, a call cut into its accesses ends exactly when \<open>hgap_limiter_limit\<close> returns, with the
  same clock readings and the same limiter.\<close>

theorem accesses_are_the_call:
  "(\<exists>n. (limit_access clock ^^ n) (L_Total len, k, hlim) = (L_End, k', hlim')) \<longleftrightarrow>
     hgap_limiter_limit clock k hlim len = Some (k', hlim')"
proof
  assume "\<exists>n. (limit_access clock ^^ n) (L_Total len, k, hlim) = (L_End, k', hlim')"
  then obtain n where n: "(limit_access clock ^^ n) (L_Total len, k, hlim) = (L_End, k', hlim')" by blast
  from limit_access_ends [OF this] obtain k1 lm1 where
    r: "hgap_limiter_limit clock k hlim len = Some (k1, lm1)" by auto
  from access_limit [OF r] access_End_unique n
  show "hgap_limiter_limit clock k hlim len = Some (k', hlim')" using r by blast
qed (rule access_limit)

text \<open>C34: when a keepalive is sent during a packet, an interleaving of the two calls loses the update
  of one of them: both calls end, but the counters of bytes and packets hold only the keepalive, so that the rate is
  measured too low.\<close>

theorem limiter_updates_can_be_lost:
  assumes "hl_byterate hlim = Fin 0 \<or> n_pkt_sent hlim + 1 \<le> HLIM_CHK_PERIOD"
  shows "\<exists>s. (limiter_threads_step clock)\<^sup>*\<^sup>* (limiter_threads_start k hlim len len') s \<and>
    lt_main s = L_End \<and> lt_keepalive s = L_End \<and>
    lt_lim s = hlim\<lparr>total_data_sent := total_data_sent hlim + len',
      n_pkt_sent := n_pkt_sent hlim + 1, n_bytes_sent := n_bytes_sent hlim + len'\<rparr>"
  using assms
  by (intro exI [of _ "fold (limiter_move clock)
        [False, True, False, True, False, True, False, True, False, True, False, True, False, True]
        (limiter_threads_start k hlim len len')"] conjI limiter_moves_steps)
    (simp_all add: limiter_move_def limiter_threads_start_def not_less)

text \<open>A packet of 1400 bytes and a keepalive of 24, counted as 24.\<close>

theorem limiter_updates_can_be_lost_witness:
  "\<exists>s. (limiter_threads_step (\<lambda>_. \<lparr>tv_sec = 0, tv_usec = 0\<rparr>))\<^sup>*\<^sup>*
      (limiter_threads_start 1 (hgap_limiter_new \<lparr>tv_sec = 0, tv_usec = 0\<rparr> (Fin 1000000)) 1400 24) s \<and>
    lt_main s = L_End \<and> lt_keepalive s = L_End \<and> n_bytes_sent (lt_lim s) = 24"
  using limiter_updates_can_be_lost
    [of "hgap_limiter_new \<lparr>tv_sec = 0, tv_usec = 0\<rparr> (Fin 1000000)" "\<lambda>_. \<lparr>tv_sec = 0, tv_usec = 0\<rparr>" 1 1400 24]
  by (auto simp: hgap_limiter_new_def HLIM_CHK_PERIOD_def)

end
