(* ===== verification/Memory.thy ===== *)
theory Memory
  imports Decoder Sender Channel
begin

section \<open>Who owns which memory: \<open>encoding.c\<close>, \<open>sender.c\<close>, \<open>limiter.c\<close>, \<open>channel.c\<close>\<close>

text \<open>
  The other theories leave the release of memory out. Here the objects are blocks of a heap and the
  constructors, the operations that allocate and the destructors say what becomes of
  them. Freeing a block that is not allocated is undefined. An object is a value of the other theories with the
  addresses of its blocks; forgetting the addresses gives back the operations of those theories.
\<close>

subsection \<open>The heap\<close>

record heap =
  hp_live :: "nat set"     \<comment> \<open>allocated blocks\<close>
  hp_next :: nat           \<comment> \<open>no block from here on was ever allocated\<close>

text \<open>\<open>xmalloc\<close> of \<open>src/lib/common.c\<close>, with what \<open>malloc\<close> does: the process ends when there is no memory.\<close>

definition xmalloc :: "bool \<Rightarrow> heap \<Rightarrow> (nat \<times> heap) outcome" where
  "xmalloc enough h = CHK enough (Ret (hp_next h, \<lparr>hp_live = insert (hp_next h) (hp_live h), hp_next = hp_next h + 1\<rparr>))"

definition free :: "nat option \<Rightarrow> heap \<Rightarrow> heap outcome" where
  "free p h =
     (case p of
        None \<Rightarrow> Ret h
      | Some a \<Rightarrow> if a \<in> hp_live h then Ret (h\<lparr>hp_live := hp_live h - {a}\<rparr>) else Undef)"

definition heap_ok :: "heap \<Rightarrow> bool" where
  "heap_ok h \<longleftrightarrow> (\<forall>a \<in> hp_live h. a < hp_next h)"

text \<open>Memory is taken to suffice from here on.\<close>

definition alloc :: "heap \<Rightarrow> nat \<times> heap" where
  "alloc h = (hp_next h, \<lparr>hp_live = insert (hp_next h) (hp_live h), hp_next = hp_next h + 1\<rparr>)"

lemma xmalloc_enough: "xmalloc True h = Ret (alloc h)"
  by (simp add: xmalloc_def alloc_def)

subsection \<open>Wirehair's memory\<close>

text \<open>
  Wirehair allocates its own states. \<open>wm_make ok reuse h\<close> is what \<open>wirehair_encode\<close> and
  \<open>wirehair_decode\<close> do to the heap when they succeed or fail, given a state to reuse; \<open>wm_free\<close> is \<open>wirehair_free\<close>.

  Assumed of it: a state to reuse is kept on success, and a call that fails allocates nothing. Whether a call that
  fails frees the state it was to reuse is left open: both are possible, from one call to the next. The code
  overwrites its pointer with the null pointer it is given, so it relies on the first; that is the hypothesis
  \<open>wh_frees_on_failure\<close> of the theorems that need it. The sources of wirehair are not in the repository.
\<close>

record wh_memory =
  wm_make :: "bool \<Rightarrow> nat option \<Rightarrow> heap \<Rightarrow> nat option \<times> heap"
  wm_free :: "nat \<Rightarrow> heap \<Rightarrow> heap outcome"

definition wh_memory_ok :: "wh_memory \<Rightarrow> bool" where
  "wh_memory_ok M \<longleftrightarrow>
     (\<forall>h. wm_make M True None h = (Some (hp_next h), snd (alloc h))) \<and>
     (\<forall>h p. p \<in> hp_live h \<longrightarrow> wm_make M True (Some p) h = (Some p, h)) \<and>
     (\<forall>h. wm_make M False None h = (None, h)) \<and>
     (\<forall>h p. p \<in> hp_live h \<longrightarrow> wm_make M False (Some p) h = (None, h) \<or>
        wm_make M False (Some p) h = (None, h\<lparr>hp_live := hp_live h - {p}\<rparr>)) \<and>
     (\<forall>h p. p \<in> hp_live h \<longrightarrow> wm_free M p h = Ret (h\<lparr>hp_live := hp_live h - {p}\<rparr>))"

definition wh_frees_on_failure :: "wh_memory \<Rightarrow> bool" where
  "wh_frees_on_failure M \<longleftrightarrow>
     (\<forall>h p. p \<in> hp_live h \<longrightarrow> wm_make M False (Some p) h = (None, h\<lparr>hp_live := hp_live h - {p}\<rparr>))"

subsection \<open>Chunks\<close>

record 's chunk_obj =
  co_self :: nat
  co_data :: "nat option"       \<comment> \<open>the pointer \<open>data\<close>\<close>
  co_wh :: "nat option"         \<comment> \<open>the pointer \<open>wh_state\<close>\<close>
  co_val :: "'s enc_chunk"

definition chunk_new_mem :: "heap \<Rightarrow> 's chunk_obj \<times> heap" where
  "chunk_new_mem h =
     (let (p, h1) = alloc h
      in (\<lparr>co_self = p, co_data = None, co_wh = None, co_val = hgap_enc_chunk_new\<rparr>, h1))"

definition chunk_purge_mem :: "'s chunk_obj \<Rightarrow> heap \<Rightarrow> ('s chunk_obj \<times> heap) outcome" where
  "chunk_purge_mem c h =
     (if co_data c \<noteq> None
      then obind (free (co_data c) h) (\<lambda>h1.
             Ret (c\<lparr>co_data := None, co_val := (co_val c)\<lparr>ck_data := None\<rparr>\<rparr>, h1))
      else Ret (c, h))"

definition chunk_free_mem :: "wh_memory \<Rightarrow> 's chunk_obj \<Rightarrow> heap \<Rightarrow> heap outcome" where
  "chunk_free_mem M c h =
     obind (chunk_purge_mem c h) (\<lambda>(c1, h1).
     obind (case co_wh c1 of None \<Rightarrow> Ret h1 | Some p \<Rightarrow> wm_free M p h1) (\<lambda>h2.
       free (Some (co_self c1)) h2))"

text \<open>\<open>hgap_enc_chunk_init\<close>: the pointer \<open>data\<close> is overwritten, not freed.\<close>

definition enc_chunk_init_mem ::
  "'s wirehair \<Rightarrow> wh_memory \<Rightarrow> hgap_encoder \<Rightarrow> 's chunk_obj \<Rightarrow> bytes \<Rightarrow> u64 \<Rightarrow> heap \<Rightarrow>
     (hgap_err \<times> hgap_encoder \<times> 's chunk_obj \<times> heap) outcome" where
  "enc_chunk_init_mem W M enc c to_enc sz h =
     obind (hgap_enc_chunk_init W enc (co_val c) to_enc sz) (\<lambda>(err, enc1, v).
       let (p, h1) = alloc h;
           c1 = c\<lparr>co_data := Some p, co_val := v\<rparr>
       in if \<not> hgap_enc_chunk_is_small v
          then let (q, h2) = wm_make M (ck_wh_state v \<noteq> None) (co_wh c) h1
               in Ret (err, enc1, c1\<lparr>co_wh := q\<rparr>, h2)
          else Ret (err, enc1, c1, h1))"

definition dec_chunk_init_mem ::
  "'s wirehair \<Rightarrow> wh_memory \<Rightarrow> 's chunk_obj \<Rightarrow> hgap_pkt \<Rightarrow> heap \<Rightarrow> 's chunk_obj \<times> heap" where
  "dec_chunk_init_mem W M c pkt h =
     (let (err, v) = hgap_dec_chunk_init W (co_val c) pkt;
          c1 = c\<lparr>co_data := None, co_val := v\<rparr>
      in if \<not> hgap_enc_chunk_is_small v
         then let (q, h1) = wm_make M (ck_wh_state v \<noteq> None) (co_wh c) h
              in (c1\<lparr>co_wh := q\<rparr>, h1)
         else (c1, h))"

definition dec_chunk_read_mem ::
  "'s wirehair \<Rightarrow> 's chunk_obj \<Rightarrow> hgap_pkt \<Rightarrow> heap \<Rightarrow> (int \<times> 's chunk_obj \<times> heap) outcome" where
  "dec_chunk_read_mem W c pkt h =
     obind (hgap_dec_chunk_read W (co_val c) pkt) (\<lambda>(ready, v).
       if co_data c = None \<and> hgap_enc_chunk_is_small (co_val c)
       then let (p, h1) = alloc h in Ret (ready, c\<lparr>co_data := Some p, co_val := v\<rparr>, h1)
       else Ret (ready, c\<lparr>co_val := v\<rparr>, h))"

subsection \<open>The decoder\<close>

record 's decoder_obj =
  do_self :: nat
  do_chunk :: "'s chunk_obj"
  do_val :: "'s hgap_decoder"       \<comment> \<open>its \<open>dec_chunk\<close> is that of \<open>do_chunk\<close>\<close>

definition decoder_new_mem :: "heap \<Rightarrow> 's decoder_obj \<times> heap" where
  "decoder_new_mem h =
     (let (p, h1) = alloc h; (c, h2) = chunk_new_mem h1;
          c1 = c\<lparr>co_val := (co_val c)\<lparr>ck_num := -1\<rparr>\<rparr>
      in (\<lparr>do_self = p, do_chunk = c1, do_val = hgap_decoder_new\<rparr>, h2))"

definition decoder_free_mem :: "wh_memory \<Rightarrow> 's decoder_obj \<Rightarrow> heap \<Rightarrow> heap outcome" where
  "decoder_free_mem M d h =
     obind (chunk_free_mem M (do_chunk d) h) (\<lambda>h1. free (Some (do_self d)) h1)"

definition incorporate_mem ::
  "'s wirehair \<Rightarrow> 's decoder_obj \<Rightarrow> hgap_pkt \<Rightarrow> heap \<Rightarrow> (int \<times> 's decoder_obj \<times> heap) outcome" where
  "incorporate_mem W d pkt h =
     obind (dec_chunk_read_mem W (do_chunk d) pkt h) (\<lambda>(ready, c, h1).
       let v1 = (do_val d)\<lparr>dec_chunk := co_val c\<rparr>;
           v2 = (if ready > 0 then v1\<lparr>chunk_complete := True\<rparr> else v1)
       in Ret (ready, d\<lparr>do_chunk := c, do_val := v2\<rparr>, h1))"

definition decoder_handle_mem ::
  "'s wirehair \<Rightarrow> wh_memory \<Rightarrow> 's decoder_obj \<Rightarrow> hgap_pkt \<Rightarrow> heap \<Rightarrow>
     (int \<times> 's decoder_obj \<times> heap) outcome" where
  "decoder_handle_mem W M d pkt h =
     (let v = do_val d
      in if chunk_num (hdr pkt) \<noteq> ck_num (dec_chunk v)
         then
           if \<not> chunk_complete v then Ret (- err_num HGAP_ERR_INCOMPLETE_CHUNK, d, h)
           else if chunk_size (hdr pkt) > HGAP_MAX_CHUNK_SIZE
           then Ret (- err_num HGAP_ERR_BAD_CHUNK, d, h)
           else obind (chunk_purge_mem (do_chunk d) h) (\<lambda>(c, h1).
                  let (c1, h2) = dec_chunk_init_mem W M c pkt h1
                  in incorporate_mem W (d\<lparr>do_chunk := c1, do_val :=
                       v\<lparr>dec_chunk := co_val c1, chunk_complete := False, chunk_emitted := False\<rparr>\<rparr>) pkt h2)
         else if chunk_complete v
         then Ret (if chunk_emitted v then 0 else sint (ck_len (dec_chunk v)), d, h)
         else incorporate_mem W d pkt h)"

definition decoder_read_mem ::
  "'s wirehair \<Rightarrow> wh_memory \<Rightarrow> 's decoder_obj \<Rightarrow> bytes \<Rightarrow> u64 \<Rightarrow> heap \<Rightarrow>
     (int \<times> 's decoder_obj \<times> heap) outcome" where
  "decoder_read_mem W M d raw sz h =
     obind (hgap_pkt_parse raw sz) (\<lambda>(_, pkt).
     obind (hgap_decoder_update_state (do_val d) raw sz) (\<lambda>(handle_pkt, v).
       let d1 = d\<lparr>do_val := v\<rparr>
       in if state_num (dec_state v) < state_num T_DATA then Ret (0, d1, h)
          else if dec_state v = T_STOPPED then Ret (- err_num HGAP_EOT, d1, h)
          else if \<not> handle_pkt then Ret (0, d1, h)
          else case pkt of None \<Rightarrow> Undef | Some p \<Rightarrow> decoder_handle_mem W M d1 p h))"

text \<open>Emission allocates nothing.\<close>

definition decoder_emit_mem ::
  "'s wirehair \<Rightarrow> 's decoder_obj \<Rightarrow> bytes \<Rightarrow> u64 \<Rightarrow> (hgap_err \<times> 's decoder_obj \<times> bytes) outcome" where
  "decoder_emit_mem W d out_buf sz =
     obind (hgap_decoder_emit W (do_val d) out_buf sz) (\<lambda>(err, v, out). Ret (err, d\<lparr>do_val := v\<rparr>, out))"

text \<open>The encoder has one block of its own.\<close>

record encoder_obj =
  eo_self :: nat
  eo_val :: hgap_encoder

definition encoder_new_mem :: "u64 \<Rightarrow> heap \<Rightarrow> encoder_obj \<times> heap" where
  "encoder_new_mem psz h = (let (p, h1) = alloc h in (\<lparr>eo_self = p, eo_val = hgap_encoder_new psz\<rparr>, h1))"

definition encoder_free_mem :: "encoder_obj \<Rightarrow> heap \<Rightarrow> heap outcome" where
  "encoder_free_mem e h = free (Some (eo_self e)) h"

subsection \<open>Ownership\<close>

text \<open>
  An object owns its blocks: besides them and the blocks \<open>B\<close> of the rest of the program nothing is allocated,
  no block is owned twice, and a pointer is null where the value has nothing.
\<close>

abbreviation opt_block :: "nat option \<Rightarrow> nat list" where
  "opt_block p \<equiv> (case p of None \<Rightarrow> [] | Some a \<Rightarrow> [a])"

definition chunk_blocks :: "'s chunk_obj \<Rightarrow> nat list" where
  "chunk_blocks c = co_self c # opt_block (co_data c) @ opt_block (co_wh c)"

definition owns_chunk :: "nat set \<Rightarrow> 's chunk_obj \<Rightarrow> heap \<Rightarrow> bool" where
  "owns_chunk B c h \<longleftrightarrow>
     heap_ok h \<and> distinct (chunk_blocks c) \<and> B \<inter> set (chunk_blocks c) = {} \<and>
     hp_live h = B \<union> set (chunk_blocks c) \<and>
     (co_data c = None \<longleftrightarrow> ck_data (co_val c) = None) \<and>
     (co_wh c = None \<longleftrightarrow> ck_wh_state (co_val c) = None)"

definition owns_decoder :: "nat set \<Rightarrow> 's decoder_obj \<Rightarrow> heap \<Rightarrow> bool" where
  "owns_decoder B d h \<longleftrightarrow>
     owns_chunk (insert (do_self d) B) (do_chunk d) h \<and> do_self d \<notin> B \<and>
     dec_chunk (do_val d) = co_val (do_chunk d)"

lemma alloc_fresh:
  assumes "heap_ok h" "alloc h = (p, h')"
  shows "p \<notin> hp_live h" "hp_live h' = insert p (hp_live h)" "heap_ok h'"
  using assms by (auto simp: alloc_def heap_ok_def less_SucI)

lemma heap_ok_remove: "heap_ok h \<Longrightarrow> heap_ok (h\<lparr>hp_live := hp_live h - A\<rparr>)"
  by (simp add: heap_ok_def)

lemma chunk_new_owns:
  assumes "heap_ok h" "chunk_new_mem h = (c, h')"
  shows "owns_chunk (hp_live h) c h'" "co_val c = hgap_enc_chunk_new" "co_data c = None"
proof -
  obtain p h1 where p: "alloc h = (p, h1)" by fastforce
  have c: "c = \<lparr>co_self = p, co_data = None, co_wh = None, co_val = hgap_enc_chunk_new\<rparr>" "h' = h1"
    using assms(2) p by (simp_all add: chunk_new_mem_def)
  show "owns_chunk (hp_live h) c h'" "co_val c = hgap_enc_chunk_new" "co_data c = None"
    using alloc_fresh [OF assms(1) p]
    by (auto simp: c owns_chunk_def chunk_blocks_def hgap_enc_chunk_new_def)
qed

lemma chunk_purge_owns:
  assumes "owns_chunk B c h"
  shows "\<exists>c' h'. chunk_purge_mem c h = Ret (c', h') \<and> owns_chunk B c' h' \<and> co_data c' = None \<and>
    co_val c' = hgap_enc_chunk_purge (co_val c) \<and> co_self c' = co_self c \<and> co_wh c' = co_wh c"
proof (cases "co_data c")
  case None
  then show ?thesis using assms by (simp add: chunk_purge_mem_def owns_chunk_def hgap_enc_chunk_purge_def)
next
  case (Some p)
  let ?c = "c\<lparr>co_data := None, co_val := (co_val c)\<lparr>ck_data := None\<rparr>\<rparr>"
  let ?h = "h\<lparr>hp_live := hp_live h - {p}\<rparr>"
  have "owns_chunk B ?c ?h"
    using assms Some heap_ok_remove [of h "{p}"]
    by (auto simp: owns_chunk_def chunk_blocks_def split: option.splits)
  moreover have "chunk_purge_mem c h = Ret (?c, ?h)"
    using assms Some by (simp add: chunk_purge_mem_def free_def owns_chunk_def chunk_blocks_def)
  ultimately show ?thesis
    using assms Some by (auto simp: hgap_enc_chunk_purge_def owns_chunk_def)
qed

lemma chunk_free_owns:
  assumes "wh_memory_ok M" "owns_chunk B c h"
  shows "\<exists>h'. chunk_free_mem M c h = Ret h' \<and> hp_live h' = B \<and> heap_ok h'"
proof -
  obtain c1 h1 where p: "chunk_purge_mem c h = Ret (c1, h1)" "owns_chunk B c1 h1" "co_data c1 = None"
    using chunk_purge_owns [OF assms(2)] by blast
  show ?thesis
  proof (cases "co_wh c1")
    case None
    then show ?thesis
      using p heap_ok_remove [of h1 "{co_self c1}"]
      by (auto simp: chunk_free_mem_def owns_chunk_def chunk_blocks_def free_def)
  next
    case (Some q)
    then have "wm_free M q h1 = Ret (h1\<lparr>hp_live := hp_live h1 - {q}\<rparr>)"
      using assms(1) p(2) by (simp add: wh_memory_ok_def owns_chunk_def chunk_blocks_def)
    then show ?thesis
      using p Some heap_ok_remove [of h1 "{q}"] heap_ok_remove [of "h1\<lparr>hp_live := hp_live h1 - {q}\<rparr>" "{co_self c1}"]
      by (auto simp: chunk_free_mem_def owns_chunk_def chunk_blocks_def free_def)
  qed
qed

text \<open>
  What wirehair does to the state of a chunk. A state that a failure leaves allocated is lost: from then on it is a
  block \<open>L\<close> of nobody.
\<close>

lemma make_owns:
  assumes "wh_memory_ok M" "owns_chunk B c h" "wm_make M ok (co_wh c) h = (q, h')"
    and "ok \<longleftrightarrow> ck_wh_state v \<noteq> None" "co_data c = None \<longleftrightarrow> ck_data v = None"
  shows "\<exists>L. owns_chunk (B \<union> L) (c\<lparr>co_wh := q, co_val := v\<rparr>) h' \<and> L \<subseteq> set (opt_block (co_wh c)) \<and>
    (ok \<or> wh_frees_on_failure M \<longrightarrow> L = {})"
proof -
  let ?c = "c\<lparr>co_wh := q, co_val := v\<rparr>"
  have kept: ?thesis if "owns_chunk B ?c h'"
    using that by (intro exI [of _ "{}"]) simp
  show ?thesis
  proof (cases "co_wh c")
    case None
    then have "if ok then q = Some (hp_next h) \<and> h' = snd (alloc h) else q = None \<and> h' = h"
      using assms(1,3) by (auto simp: wh_memory_ok_def)
    then have "owns_chunk B ?c h'"
      using assms(2,4,5) None alloc_fresh [of h "hp_next h" "snd (alloc h)"]
      by (cases ok) (auto simp: owns_chunk_def chunk_blocks_def alloc_def)
    then show ?thesis by (rule kept)
  next
    case (Some p)
    then have p: "p \<in> hp_live h" using assms(2) by (simp add: owns_chunk_def chunk_blocks_def)
    show ?thesis
    proof (cases ok)
      case True
      then have "q = Some p" "h' = h" using assms(1,3) Some p by (auto simp: wh_memory_ok_def)
      then have "owns_chunk B ?c h'" using assms(2,4,5) Some True by (auto simp: owns_chunk_def chunk_blocks_def)
      then show ?thesis by (rule kept)
    next
      case False
      then have make: "wm_make M False (Some p) h = (q, h')" using assms(3) Some by simp
      have two: "wm_make M False (Some p) h = (None, h) \<or>
          wm_make M False (Some p) h = (None, h\<lparr>hp_live := hp_live h - {p}\<rparr>)"
        using assms(1) p by (simp add: wh_memory_ok_def)
      have "wm_make M False (Some p) h = (None, h\<lparr>hp_live := hp_live h - {p}\<rparr>)" if "wh_frees_on_failure M"
        using that p by (simp add: wh_frees_on_failure_def)
      then consider "q = None" "h' = h\<lparr>hp_live := hp_live h - {p}\<rparr>"
        | "q = None" "h' = h" "\<not> wh_frees_on_failure M"
        using make two by (cases "wh_frees_on_failure M") auto
      then show ?thesis
      proof cases
        case 1
        then have "owns_chunk B ?c h'"
          using assms(2,4,5) Some False heap_ok_remove [of h "{p}"]
          by (auto simp: owns_chunk_def chunk_blocks_def split: option.splits)
        then show ?thesis by (rule kept)
      next
        case 2
        then have "owns_chunk (B \<union> {p}) ?c h'"
          using assms(2,4,5) Some False by (auto simp: owns_chunk_def chunk_blocks_def split: option.splits)
        then show ?thesis using 2 Some False by (intro exI [of _ "{p}"]) simp
      qed
    qed
  qed
qed

text \<open>The operations on chunks keep the ownership and are those of the other theories.\<close>

lemma owns_self: "owns_chunk B c h \<Longrightarrow> owns_chunk B (c\<lparr>co_val := v\<rparr>) h \<longleftrightarrow>
    (co_data c = None \<longleftrightarrow> ck_data v = None) \<and> (co_wh c = None \<longleftrightarrow> ck_wh_state v = None)"
  by (auto simp: owns_chunk_def chunk_blocks_def)

lemma alloc_data_owns:
  assumes "owns_chunk B c h" "co_data c = None" "alloc h = (p, h')"
    and "ck_data v \<noteq> None" "co_wh c = None \<longleftrightarrow> ck_wh_state v = None"
  shows "owns_chunk B (c\<lparr>co_data := Some p, co_val := v\<rparr>) h'"
proof -
  have "heap_ok h" using assms(1) by (simp add: owns_chunk_def)
  from alloc_fresh [OF this assms(3)] show ?thesis
    using assms(1,2,4,5) by (auto simp: owns_chunk_def chunk_blocks_def)
qed

lemma enc_init_value:
  assumes "hgap_enc_chunk_init W enc v to_enc sz = Ret (err, enc1, v1)"
  shows "ck_data v1 \<noteq> None" "hgap_enc_chunk_is_small v1 \<Longrightarrow> ck_wh_state v1 = ck_wh_state v"
    and "err = HGAP_SUCCESS \<Longrightarrow> \<not> hgap_enc_chunk_is_small v1 \<Longrightarrow> ck_wh_state v1 \<noteq> None"
  using assms
  by (fastforce simp: hgap_enc_chunk_init_def Let_def obind_Ret_iff hgap_enc_chunk_is_small_def
      hgap_enc_chunk_pkt_payload_size_def split: if_splits dest: arg_cong [where f = ck_wh_state])+

lemma enc_init_owns:
  assumes "wh_memory_ok M" "owns_chunk B c h" "co_data c = None"
    and "enc_chunk_init_mem W M enc c to_enc sz h = Ret (err, enc1, c', h')"
    and "co_wh c = None \<or> err = HGAP_SUCCESS \<or> wh_frees_on_failure M"
  shows "owns_chunk B c' h'"
proof -
  obtain v where v: "hgap_enc_chunk_init W enc (co_val c) to_enc sz = Ret (err, enc1, v)"
    using assms(4)
    by (auto simp: enc_chunk_init_mem_def Let_def elim!: obind_RetE split: prod.split_asm if_split_asm)
  note val = enc_init_value [OF v]
  obtain p h1 where p: "alloc h = (p, h1)" by fastforce
  have data: "owns_chunk B (c\<lparr>co_data := Some p, co_val := v'\<rparr>) h1"
    if "ck_data v' \<noteq> None" "co_wh c = None \<longleftrightarrow> ck_wh_state v' = None" for v'
    using alloc_data_owns [OF assms(2,3) p that] .
  have wh: "co_wh c = None \<longleftrightarrow> ck_wh_state (co_val c) = None" using assms(2) by (simp add: owns_chunk_def)
  show ?thesis
  proof (cases "hgap_enc_chunk_is_small v")
    case True
    then show ?thesis
      using assms(4) v p data [of v] val wh by (simp add: enc_chunk_init_mem_def)
  next
    case False
    obtain q h2 where q: "wm_make M (ck_wh_state v \<noteq> None) (co_wh c) h1 = (q, h2)" by fastforce
    have "owns_chunk B (c\<lparr>co_data := Some p, co_val := v\<lparr>ck_wh_state := ck_wh_state (co_val c)\<rparr>\<rparr>) h1"
      using data [of "v\<lparr>ck_wh_state := ck_wh_state (co_val c)\<rparr>"] val(1) wh by simp
    from make_owns [OF assms(1) this, of "ck_wh_state v \<noteq> None" q h2 v] q val(1)
    obtain L where L: "owns_chunk (B \<union> L) (c\<lparr>co_data := Some p, co_wh := q, co_val := v\<rparr>) h2"
      "L \<subseteq> set (opt_block (co_wh c))" "ck_wh_state v \<noteq> None \<or> wh_frees_on_failure M \<longrightarrow> L = {}"
      by auto
    have "L = {}" using L(2,3) assms(5) val(3) False by auto
    moreover have "c' = c\<lparr>co_data := Some p, co_wh := q, co_val := v\<rparr>" "h' = h2"
      using assms(4) v p q False by (cases c, simp_all add: enc_chunk_init_mem_def)
    ultimately show ?thesis using L(1) by simp
  qed
qed

text \<open>No state is lost when wirehair frees it, or sets up every decoder it is asked for.\<close>

definition keeps_states :: "'s wirehair \<Rightarrow> wh_memory \<Rightarrow> bool" where
  "keeps_states W M \<longleftrightarrow> wh_frees_on_failure M \<or> (\<forall>re n bs. wh_decode W re n bs \<noteq> None)"

lemma dec_init_value:
  assumes "hgap_dec_chunk_init W v pkt = (err, v1)"
  shows "ck_data v1 = None" "hgap_enc_chunk_is_small v1 \<Longrightarrow> ck_wh_state v1 = ck_wh_state v"
    and "\<forall>re n bs. wh_decode W re n bs \<noteq> None \<Longrightarrow> \<not> hgap_enc_chunk_is_small v1 \<Longrightarrow> ck_wh_state v1 \<noteq> None"
proof -
  show "ck_data v1 = None" "hgap_enc_chunk_is_small v1 \<Longrightarrow> ck_wh_state v1 = ck_wh_state v"
    using assms
    by (auto simp: hgap_dec_chunk_init_def Let_def hgap_enc_chunk_is_small_def
        hgap_enc_chunk_pkt_payload_size_def split: if_splits)
  assume "\<forall>re n bs. wh_decode W re n bs \<noteq> None"
  then have "wh_decode W (ck_wh_state v) (chunk_size (hdr pkt)) (ucast (data_size (hdr pkt))) \<noteq> None" by blast
  then show "\<not> hgap_enc_chunk_is_small v1 \<Longrightarrow> ck_wh_state v1 \<noteq> None"
    using assms
    by (auto simp: hgap_dec_chunk_init_def Let_def hgap_enc_chunk_is_small_def
        hgap_enc_chunk_pkt_payload_size_def split: if_splits)
qed

lemma dec_init_owns:
  assumes "wh_memory_ok M" "owns_chunk B c h" "co_data c = None"
    and "dec_chunk_init_mem W M c pkt h = (c', h')"
  shows "\<exists>L. owns_chunk (B \<union> L) c' h' \<and> L \<subseteq> set (chunk_blocks c) \<and> (keeps_states W M \<longrightarrow> L = {})"
    and "co_val c' = snd (hgap_dec_chunk_init W (co_val c) pkt)"
proof -
  obtain err v where v: "hgap_dec_chunk_init W (co_val c) pkt = (err, v)" by fastforce
  note val = dec_init_value [OF v]
  have wh: "co_wh c = None \<longleftrightarrow> ck_wh_state (co_val c) = None" using assms(2) by (simp add: owns_chunk_def)
  obtain q h2 where q: "wm_make M (ck_wh_state v \<noteq> None) (co_wh c) h = (q, h2)" by fastforce
  have c: "c\<lparr>co_data := None\<rparr> = c" using assms(3) by simp
  have "(\<exists>L. owns_chunk (B \<union> L) c' h' \<and> L \<subseteq> set (chunk_blocks c) \<and> (keeps_states W M \<longrightarrow> L = {})) \<and>
    co_val c' = v"
  proof (cases "hgap_enc_chunk_is_small v")
    case True
    then have "c' = c\<lparr>co_data := None, co_val := v\<rparr>" "h' = h"
      using assms(4) v by (simp_all add: dec_chunk_init_mem_def)
    then have "owns_chunk B c' h'" "co_val c' = v"
      using assms(2,3) c val True wh owns_self [of B c h v] by simp_all
    then show ?thesis by (intro conjI exI [of _ "{}"]) simp_all
  next
    case False
    then have c': "c' = c\<lparr>co_wh := q, co_val := v\<rparr>" "h' = h2"
      using assms(3,4) v q by (cases c, simp_all add: dec_chunk_init_mem_def)
    obtain L where L: "owns_chunk (B \<union> L) c' h'" "L \<subseteq> set (opt_block (co_wh c))"
      "ck_wh_state v \<noteq> None \<or> wh_frees_on_failure M \<longrightarrow> L = {}"
      using make_owns [OF assms(1,2) q, of v] assms(3) val(1) c' by auto
    then show ?thesis
      using val(3) False c'(1)
      by (intro conjI exI [of _ L]) (auto simp: keeps_states_def chunk_blocks_def)
  qed
  then show "\<exists>L. owns_chunk (B \<union> L) c' h' \<and> L \<subseteq> set (chunk_blocks c) \<and> (keeps_states W M \<longrightarrow> L = {})"
    "co_val c' = snd (hgap_dec_chunk_init W (co_val c) pkt)"
    using v by simp_all
qed

lemma dec_read_value:
  assumes "hgap_dec_chunk_read W v pkt = Ret (r, v1)"
  shows "ck_wh_state v1 = None \<longleftrightarrow> ck_wh_state v = None"
    and "ck_data v1 = None \<longleftrightarrow> ck_data v = None \<and> \<not> hgap_enc_chunk_is_small v"
  using assms
  by (auto simp: hgap_dec_chunk_read_def Let_def hgap_enc_chunk_is_small_def
      hgap_enc_chunk_pkt_payload_size_def elim!: obind_RetE
      split: if_split_asm option.split_asm prod.split_asm)

lemma dec_read_owns:
  assumes "owns_chunk B c h" "dec_chunk_read_mem W c pkt h = Ret (r, c', h')"
  shows "owns_chunk B c' h'" "hgap_dec_chunk_read W (co_val c) pkt = Ret (r, co_val c')"
proof -
  obtain v where v: "hgap_dec_chunk_read W (co_val c) pkt = Ret (r, v)"
    using assms(2)
    by (auto simp: dec_chunk_read_mem_def Let_def elim!: obind_RetE split: prod.split_asm if_split_asm)
  note val = dec_read_value [OF v]
  obtain p h1 where p: "alloc h = (p, h1)" by fastforce
  have o: "co_data c = None \<longleftrightarrow> ck_data (co_val c) = None" "co_wh c = None \<longleftrightarrow> ck_wh_state (co_val c) = None"
    using assms(1) by (simp_all add: owns_chunk_def)
  have "owns_chunk B c' h' \<and> co_val c' = v"
  proof (cases "co_data c = None \<and> hgap_enc_chunk_is_small (co_val c)")
    case True
    then have "c' = c\<lparr>co_data := Some p, co_val := v\<rparr>" "h' = h1"
      using assms(2) v p by (simp_all add: dec_chunk_read_mem_def)
    then show ?thesis using alloc_data_owns [OF assms(1) _ p, of v] True val o by simp
  next
    case False
    then have "c' = c\<lparr>co_val := v\<rparr>" "h' = h"
      using assms(2) v by (auto simp: dec_chunk_read_mem_def)
    then show ?thesis using owns_self [OF assms(1), of v] False val o by auto
  qed
  then show "owns_chunk B c' h'" "hgap_dec_chunk_read W (co_val c) pkt = Ret (r, co_val c')"
    using v by simp_all
qed

text \<open>The decoder. An outcome without its memory is \<open>erased\<close>.\<close>

definition erased :: "(int \<times> 's decoder_obj \<times> heap) outcome \<Rightarrow> (int \<times> 's hgap_decoder) outcome" where
  "erased x = obind x (\<lambda>(r, d, _). Ret (r, do_val d))"

lemma incorporate_owns:
  assumes "owns_chunk (insert (do_self d) B) (do_chunk d) h" "do_self d \<notin> B"
    and "dec_chunk (do_val d) = co_val (do_chunk d)"
  shows "erased (incorporate_mem W d pkt h) = decoder_incorporate W (do_val d) pkt"
    and "incorporate_mem W d pkt h = Ret (r, d', h') \<Longrightarrow> owns_decoder B d' h'"
proof -
  have e: "dec_chunk_read_mem W (do_chunk d) pkt h = Ret (r, c, h1) \<Longrightarrow>
      hgap_dec_chunk_read W (co_val (do_chunk d)) pkt = Ret (r, co_val c)" for r c h1
    by (rule dec_read_owns(2) [OF assms(1)])
  show "erased (incorporate_mem W d pkt h) = decoder_incorporate W (do_val d) pkt"
  proof (cases "dec_chunk_read_mem W (do_chunk d) pkt h")
    case (Ret x)
    then show ?thesis
      using e assms(3) by (cases x) (simp add: erased_def incorporate_mem_def decoder_incorporate_def Let_def)
  qed (cases "hgap_dec_chunk_read W (co_val (do_chunk d)) pkt";
      force simp: erased_def incorporate_mem_def decoder_incorporate_def assms(3) dec_chunk_read_mem_def Let_def
        split: prod.splits if_splits)+
  assume "incorporate_mem W d pkt h = Ret (r, d', h')"
  then obtain c where c: "dec_chunk_read_mem W (do_chunk d) pkt h = Ret (r, c, h')"
    "do_chunk d' = c" "do_self d' = do_self d" "dec_chunk (do_val d') = co_val c"
    by (auto simp: incorporate_mem_def Let_def elim!: obind_RetE)
  then show "owns_decoder B d' h'"
    using dec_read_owns(1) [OF assms(1) c(1)] assms(2) by (simp add: owns_decoder_def)
qed

lemma decoder_handle_owns:
  assumes "wh_memory_ok M" "owns_decoder B d h"
  shows "erased (decoder_handle_mem W M d pkt h) = decoder_handle W (do_val d) pkt"
    and "decoder_handle_mem W M d pkt h = Ret (r, d', h') \<Longrightarrow>
      \<exists>L. owns_decoder (B \<union> L) d' h' \<and> (keeps_states W M \<longrightarrow> L = {})"
proof -
  note o = assms(2) [unfolded owns_decoder_def]
  obtain c h1 where p: "chunk_purge_mem (do_chunk d) h = Ret (c, h1)"
    "owns_chunk (insert (do_self d) B) c h1" "co_data c = None"
    "co_val c = hgap_enc_chunk_purge (co_val (do_chunk d))"
    using chunk_purge_owns [OF conjunct1 [OF o]] by blast
  obtain c1 h2 where i: "dec_chunk_init_mem W M c pkt h1 = (c1, h2)" by fastforce
  note i' = dec_init_owns [OF assms(1) p(2,3) i]
  obtain L where L: "owns_chunk (insert (do_self d) (B \<union> L)) c1 h2" "L \<subseteq> set (chunk_blocks c)"
    "keeps_states W M \<longrightarrow> L = {}"
    using i'(1) by auto
  have "do_self d \<notin> L" using L(2) p(2) by (auto simp: owns_chunk_def)
  then have self: "do_self d \<notin> B \<union> L" using o by simp
  let ?d = "d\<lparr>do_chunk := c1, do_val := (do_val d)\<lparr>dec_chunk := co_val c1, chunk_complete := False,
    chunk_emitted := False\<rparr>\<rparr>"
  have new: "erased (incorporate_mem W ?d pkt h2) = decoder_incorporate W (do_val ?d) pkt"
    "incorporate_mem W ?d pkt h2 = Ret (r, d', h') \<Longrightarrow> owns_decoder (B \<union> L) d' h'"
    using incorporate_owns [of ?d "B \<union> L" h2 W pkt] L(1) self by simp_all
  have old: "erased (incorporate_mem W d pkt h) = decoder_incorporate W (do_val d) pkt"
    "incorporate_mem W d pkt h = Ret (r, d', h') \<Longrightarrow> owns_decoder B d' h'"
    using incorporate_owns [of d B h W pkt] o by simp_all
  show "erased (decoder_handle_mem W M d pkt h) = decoder_handle W (do_val d) pkt"
    using new(1) old(1) p i i'(2) o
    by (simp add: decoder_handle_mem_def decoder_handle_def Let_def erased_def split: prod.split)
  assume "decoder_handle_mem W M d pkt h = Ret (r, d', h')"
  then have "owns_decoder (B \<union> L) d' h' \<or> owns_decoder B d' h'"
    using new(2) old(2) p i assms(2)
    by (auto simp: decoder_handle_mem_def Let_def split: if_splits)
  then show "\<exists>L. owns_decoder (B \<union> L) d' h' \<and> (keeps_states W M \<longrightarrow> L = {})"
    using L(3) by (metis Un_empty_right)
qed

lemma decoder_read_owns:
  assumes "wh_memory_ok M" "owns_decoder B d h"
  shows "erased (decoder_read_mem W M d raw sz h) = hgap_decoder_read W (do_val d) raw sz"
    and "decoder_read_mem W M d raw sz h = Ret (r, d', h') \<Longrightarrow>
      \<exists>L. owns_decoder (B \<union> L) d' h' \<and> (keeps_states W M \<longrightarrow> L = {})"
proof -
  have v: "owns_decoder B (d\<lparr>do_val := v\<rparr>) h"
    if "hgap_decoder_update_state (do_val d) raw sz = Ret (b, v)" for b v
    using that assms(2)
    by (auto simp: owns_decoder_def hgap_decoder_update_state_def elim!: obind_RetE
        split: hgap_pkt_t.splits if_splits)
  show "erased (decoder_read_mem W M d raw sz h) = hgap_decoder_read W (do_val d) raw sz"
  proof (cases "hgap_decoder_update_state (do_val d) raw sz")
    case (Ret x)
    then obtain b w where x: "hgap_decoder_update_state (do_val d) raw sz = Ret (b, w)" by (cases x) auto
    from decoder_handle_owns(1) [OF assms(1) v [OF this], of W] show ?thesis
      using x by (cases "hgap_pkt_parse raw sz")
        (auto simp: decoder_read_mem_def hgap_decoder_read_def erased_def Let_def split: option.splits)
  qed (cases "hgap_pkt_parse raw sz"; auto simp: decoder_read_mem_def hgap_decoder_read_def erased_def)+
  assume rd: "decoder_read_mem W M d raw sz h = Ret (r, d', h')"
  then obtain b w where x: "hgap_decoder_update_state (do_val d) raw sz = Ret (b, w)"
    by (auto simp: decoder_read_mem_def elim!: obind_RetE)
  consider "d' = d\<lparr>do_val := w\<rparr>" "h' = h"
    | p where "decoder_handle_mem W M (d\<lparr>do_val := w\<rparr>) p h = Ret (r, d', h')"
    using rd x by (auto simp: decoder_read_mem_def Let_def elim!: obind_RetE split: if_splits option.splits)
  then show "\<exists>L. owns_decoder (B \<union> L) d' h' \<and> (keeps_states W M \<longrightarrow> L = {})"
  proof cases
    case 1
    then show ?thesis using v [OF x] by (intro exI [of _ "{}"]) simp
  next
    case (2 p)
    then show ?thesis using decoder_handle_owns(2) [OF assms(1) v [OF x]] by blast
  qed
qed

subsection \<open>The sender and its limiter\<close>

text \<open>The heap with the descriptors of open sockets.\<close>

record sender_obj =
  so_self :: nat
  so_hlim :: nat
  so_socket :: int

definition limiter_new_mem :: "heap \<Rightarrow> nat \<times> heap" where
  "limiter_new_mem h = alloc h"

definition limiter_free_mem :: "nat \<Rightarrow> heap \<Rightarrow> heap outcome" where
  "limiter_free_mem p h = free (Some p) h"

text \<open>\<open>fd\<close> is what \<open>socket\<close> gives; the limiter is allocated before anything can fail.\<close>

definition sender_new_mem ::
  "int \<Rightarrow> u32 \<Rightarrow> bool \<Rightarrow> u32 \<Rightarrow> heap \<Rightarrow> int set \<Rightarrow> (sender_obj option \<times> heap \<times> int set) outcome" where
  "sender_new_mem fd dst thread_ok ka h fds =
     (let (p, h1) = alloc h; (q, h2) = limiter_new_mem h1;
          err_sock = (\<lambda>fds. obind (free (Some p) h2) (\<lambda>h3. Ret (None, h3, fds)))
      in if fd < 0 then err_sock fds
         else if dst = 0 then err_sock fds
         else if ka \<noteq> 0 \<and> \<not> thread_ok then err_sock fds
         else Ret (Some \<lparr>so_self = p, so_hlim = q, so_socket = fd\<rparr>, h2, insert fd fds))"

text \<open>The join of the keepalive thread is in \<open>hgap_sender_free\<close> of theory \<open>Sender\<close>; it frees nothing.\<close>

definition sender_free_mem :: "sender_obj \<Rightarrow> heap \<Rightarrow> int set \<Rightarrow> (heap \<times> int set) outcome" where
  "sender_free_mem s h fds =
     obind (limiter_free_mem (so_hlim s) h) (\<lambda>h1.
     obind (free (Some (so_self s)) h1) (\<lambda>h2. Ret (h2, fds)))"

subsection \<open>Channels\<close>

record 'a channel_obj =
  ch_self :: nat
  ch_elts_at :: nat
  ch_val :: "'a channel"

definition channel_new_mem :: "'a \<Rightarrow> u64 \<Rightarrow> u64 \<Rightarrow> heap \<Rightarrow> 'a channel_obj \<times> heap" where
  "channel_new_mem junk elt_size capacity h =
     (let (p, h1) = alloc h; (q, h2) = alloc h1
      in (\<lparr>ch_self = p, ch_elts_at = q, ch_val = channel_new junk elt_size capacity\<rparr>, h2))"

definition channel_free_mem :: "'a channel_obj \<Rightarrow> heap \<Rightarrow> ('a channel \<times> heap) outcome" where
  "channel_free_mem c h =
     (let v = channel_poison (ch_val c)
      in obind (free (Some (ch_elts_at c)) h) (\<lambda>h1.
         obind (free (Some (ch_self c)) h1) (\<lambda>h2. Ret (v, h2))))"

text \<open>Two blocks allocated one after the other.\<close>

lemma alloc_two:
  assumes "heap_ok h" "alloc h = (p, h1)" "alloc h1 = (q, h2)"
  shows "p \<notin> hp_live h" "q \<notin> hp_live h" "p \<noteq> q" "hp_live h2 = insert q (insert p (hp_live h))"
    "heap_ok h2"
  using alloc_fresh [OF assms(1,2)] alloc_fresh [of h1 q h2] assms(3) by auto

lemma channel_lifecycle:
  assumes "heap_ok h" "channel_new_mem junk elt_size capacity h = (c, h')"
  shows "\<exists>v h''. channel_free_mem c h' = Ret (v, h'') \<and> hp_live h'' = hp_live h"
proof -
  obtain p h1 q where a: "alloc h = (p, h1)" "alloc h1 = (q, h')"
    and c: "ch_self c = p" "ch_elts_at c = q"
    using assms(2) by (auto simp: channel_new_mem_def Let_def split: prod.splits)
  then show ?thesis using alloc_two [OF assms(1) a] by (auto simp: channel_free_mem_def free_def Let_def)
qed

lemma encoder_lifecycle:
  assumes "heap_ok h" "encoder_new_mem psz h = (e, h')"
  shows "eo_val e = hgap_encoder_new psz \<and> (\<exists>h''. encoder_free_mem e h' = Ret h'' \<and> hp_live h'' = hp_live h)"
proof -
  obtain p h1 where p: "alloc h = (p, h1)" by fastforce
  then have e: "e = \<lparr>eo_self = p, eo_val = hgap_encoder_new psz\<rparr>" "h' = h1"
    using assms(2) by (simp_all add: encoder_new_mem_def)
  note a = alloc_fresh [OF assms(1) p]
  then show ?thesis by (simp add: e encoder_free_mem_def free_def)
qed

subsection \<open>Properties\<close>

datatype decoder_op = Op_read bytes u64 | Op_emit bytes u64

primrec decoder_ops_mem ::
  "'s wirehair \<Rightarrow> wh_memory \<Rightarrow> decoder_op list \<Rightarrow> 's decoder_obj \<Rightarrow> heap \<Rightarrow> ('s decoder_obj \<times> heap) outcome" where
  "decoder_ops_mem W M [] d h = Ret (d, h)"
| "decoder_ops_mem W M (op # ops) d h =
     (case op of
        Op_read raw sz \<Rightarrow> obind (decoder_read_mem W M d raw sz h) (\<lambda>(_, d1, h1). decoder_ops_mem W M ops d1 h1)
      | Op_emit out sz \<Rightarrow> obind (decoder_emit_mem W d out sz) (\<lambda>(_, d1, _). decoder_ops_mem W M ops d1 h))"

primrec decoder_ops :: "'s wirehair \<Rightarrow> decoder_op list \<Rightarrow> 's hgap_decoder \<Rightarrow> 's hgap_decoder outcome" where
  "decoder_ops W [] v = Ret v"
| "decoder_ops W (op # ops) v =
     (case op of
        Op_read raw sz \<Rightarrow> obind (hgap_decoder_read W v raw sz) (\<lambda>(_, v1). decoder_ops W ops v1)
      | Op_emit out sz \<Rightarrow> obind (hgap_decoder_emit W v out sz) (\<lambda>(_, v1, _). decoder_ops W ops v1))"

lemma decoder_new_owns:
  assumes "heap_ok h" "decoder_new_mem h = (d, h')"
  shows "owns_decoder (hp_live h) d h'" "do_val d = hgap_decoder_new"
proof -
  obtain p h1 where p: "alloc h = (p, h1)" by fastforce
  obtain c where c: "chunk_new_mem h1 = (c, h')" and
    d: "d = \<lparr>do_self = p, do_chunk = c\<lparr>co_val := (co_val c)\<lparr>ck_num := -1\<rparr>\<rparr>, do_val = hgap_decoder_new\<rparr>"
    using assms(2) p by (auto simp: decoder_new_mem_def Let_def split: prod.splits)
  note a = alloc_fresh [OF assms(1) p]
  note o = chunk_new_owns [OF a(3) c]
  show "do_val d = hgap_decoder_new" by (simp add: d)
  show "owns_decoder (hp_live h) d h'"
    using o a owns_self [OF o(1), of "(co_val c)\<lparr>ck_num := -1\<rparr>"]
    by (simp add: owns_decoder_def d hgap_decoder_new_def hgap_enc_chunk_new_def owns_chunk_def)
qed

lemma decoder_emit_owns:
  assumes "owns_decoder B d h" "hgap_decoder_emit W (do_val d) out sz = Ret (e, v, out')"
  shows "owns_decoder B (d\<lparr>do_val := v\<rparr>) h"
  using assms
  by (auto simp: hgap_decoder_emit_def Let_def owns_decoder_def CHK_def elim!: obind_RetE
      split: if_splits option.splits)

lemma decoder_free_owns:
  assumes "wh_memory_ok M" "owns_decoder B d h"
  shows "\<exists>h'. decoder_free_mem M d h = Ret h' \<and> hp_live h' = B"
  using assms chunk_free_owns [OF assms(1)]
  by (fastforce simp: owns_decoder_def decoder_free_mem_def free_def)

lemma decoder_ops_owns:
  assumes "wh_memory_ok M" "owns_decoder B d h"
  shows "obind (decoder_ops_mem W M ops d h) (\<lambda>(d', _). Ret (do_val d')) = decoder_ops W ops (do_val d) \<and>
    (\<forall>d' h'. decoder_ops_mem W M ops d h = Ret (d', h') \<longrightarrow>
       (\<exists>L. owns_decoder (B \<union> L) d' h' \<and> (keeps_states W M \<longrightarrow> L = {})))"
  using assms(2)
proof (induction ops arbitrary: d h B)
  case Nil
  then show ?case by (auto intro: exI [of _ "{}"])
next
  case (Cons op ops)
  show ?case
  proof (cases op)
    case (Op_read raw sz)
    note step = decoder_read_owns [OF assms(1) Cons.prems, of W raw sz]
    show ?thesis
    proof (cases "decoder_read_mem W M d raw sz h")
      case (Ret x)
      then obtain r d1 h1 where x: "decoder_read_mem W M d raw sz h = Ret (r, d1, h1)" by (cases x) auto
      have val: "hgap_decoder_read W (do_val d) raw sz = Ret (r, do_val d1)"
        using step(1) by (simp add: x erased_def)
      obtain L where L: "owns_decoder (B \<union> L) d1 h1" "keeps_states W M \<longrightarrow> L = {}"
        using step(2) [OF x] by blast
      have "\<exists>L'. owns_decoder (B \<union> L') d' h' \<and> (keeps_states W M \<longrightarrow> L' = {})"
        if run: "decoder_ops_mem W M ops d1 h1 = Ret (d', h')" for d' h'
      proof -
        obtain L' where "owns_decoder (B \<union> L \<union> L') d' h'" "keeps_states W M \<longrightarrow> L' = {}"
          using Cons.IH [OF L(1)] run by blast
        then show ?thesis using L(2) by (intro exI [of _ "L \<union> L'"]) (simp add: Un_assoc)
      qed
      then show ?thesis using Cons.IH [OF L(1)] x val Op_read by simp
    qed (use step(1) [symmetric] Op_read in \<open>simp_all add: erased_def\<close>)
  next
    case (Op_emit out sz)
    then show ?thesis
    proof (cases "hgap_decoder_emit W (do_val d) out sz")
      case (Ret x)
      then obtain e v out' where x: "hgap_decoder_emit W (do_val d) out sz = Ret (e, v, out')" by (cases x) auto
      then show ?thesis
        using Cons.IH [OF decoder_emit_owns [OF Cons.prems x]] Op_emit by (simp add: decoder_emit_mem_def)
    qed (simp_all add: decoder_emit_mem_def)
  qed
qed

text \<open>C11: a decoder that is created, reads any packets, emits any chunks and is freed. The run ends, fails or is
  undefined exactly where the values alone do, so every release on the way is of a block that is allocated; and where
  it ends, the decoder can be freed, which leaves all the blocks of the start allocated. Nothing else is left when
  wirehair frees the state it was to reuse when it refuses a chunk, or refuses none.\<close>

theorem decoder_memory_is_balanced:
  assumes "wh_memory_ok M" and "heap_ok h" and "decoder_new_mem h = (d, h1)"
  shows "obind (decoder_ops_mem W M ops d h1) (\<lambda>(d', _). Ret (do_val d')) = decoder_ops W ops hgap_decoder_new \<and>
    (\<forall>d' h2. decoder_ops_mem W M ops d h1 = Ret (d', h2) \<longrightarrow>
      (\<exists>h3. decoder_free_mem M d' h2 = Ret h3 \<and> hp_live h \<subseteq> hp_live h3 \<and>
        (wh_frees_on_failure M \<or> (\<forall>re n bs. wh_decode W re n bs \<noteq> None) \<longrightarrow> hp_live h3 = hp_live h)))"
proof -
  note new = decoder_new_owns [OF assms(2,3)]
  note ops = decoder_ops_owns [OF assms(1) new(1), of W ops]
  have "\<exists>h3. decoder_free_mem M d' h2 = Ret h3 \<and> hp_live h \<subseteq> hp_live h3 \<and>
      (keeps_states W M \<longrightarrow> hp_live h3 = hp_live h)"
    if "decoder_ops_mem W M ops d h1 = Ret (d', h2)" for d' h2
  proof -
    obtain L where L: "owns_decoder (hp_live h \<union> L) d' h2" "keeps_states W M \<longrightarrow> L = {}"
      using ops \<open>decoder_ops_mem W M ops d h1 = Ret (d', h2)\<close> by blast
    then show ?thesis using decoder_free_owns [OF assms(1) L(1)] by auto
  qed
  then show ?thesis using ops new(2) by (simp add: keeps_states_def)
qed

text \<open>Where neither holds, the state is lost: \<open>chunk->wh_state\<close> is overwritten with the null pointer, and freeing
  the decoder leaves the block behind.\<close>

lemma refused_decode_loses_state:
  assumes "owns_chunk B c h" and "co_data c = None" and "co_wh c = Some p"
    and "wm_make M False (Some p) h = (None, h)"
    and "hgap_dec_chunk_init W (co_val c) pkt = (err, v)" "\<not> hgap_enc_chunk_is_small v" "ck_wh_state v = None"
  shows "\<exists>c'. dec_chunk_init_mem W M c pkt h = (c', h) \<and> co_wh c' = None \<and> p \<in> hp_live h \<and>
    p \<notin> set (chunk_blocks c')"
  using assms by (auto simp: dec_chunk_init_mem_def Let_def owns_chunk_def chunk_blocks_def)

lemma enc_chunk_init_overwrites:
  "enc_chunk_init_mem W M enc (c\<lparr>co_data := None, co_val := (co_val c)\<lparr>ck_data := None\<rparr>\<rparr>) to_enc sz h =
    enc_chunk_init_mem W M enc c to_enc sz h"
proof -
  have "hgap_enc_chunk_init W enc ((co_val c)\<lparr>ck_data := None\<rparr>) to_enc sz =
      hgap_enc_chunk_init W enc (co_val c) to_enc sz"
    by (simp add: hgap_enc_chunk_init_def)
  then show ?thesis by (simp add: enc_chunk_init_mem_def cong: if_cong)
qed

text \<open>C35: a chunk that is encoded once gives all its memory back, whether wirehair accepted it or not; one that is
  encoded a second time, which \<open>encoding.h\<close> allows, leaks the copy of the first data, and just that, when the second
  encoding succeeds or wirehair frees the state it was to reuse.\<close>

theorem reused_chunk_leaks:
  assumes "wh_memory_ok M" and "heap_ok h" and "chunk_new_mem h = (c, h1)"
    and "enc_chunk_init_mem W M enc c to_enc sz h1 = Ret (err, enc1, c1, h2)"
    and "enc_chunk_init_mem W M enc1 c1 to_enc' sz' h2 = Ret (err', enc2, c2, h3)"
    and "err' = HGAP_SUCCESS \<or> wh_frees_on_failure M"
  shows "(\<exists>h'. chunk_free_mem M c1 h2 = Ret h' \<and> hp_live h' = hp_live h) \<and>
    (\<exists>a h'. co_data c1 = Some a \<and> a \<notin> hp_live h \<and>
       chunk_free_mem M c2 h3 = Ret h' \<and> hp_live h' = insert a (hp_live h))"
proof -
  note new = chunk_new_owns [OF assms(2,3)]
  have "co_wh c = None" using assms(3) by (auto simp: chunk_new_mem_def Let_def split: prod.splits)
  then have o1: "owns_chunk (hp_live h) c1 h2"
    by (intro enc_init_owns [OF assms(1) new(1,3) assms(4)]) simp
  obtain v where v: "hgap_enc_chunk_init W enc (co_val c) to_enc sz = Ret (err, enc1, v)" "co_val c1 = v"
    using assms(4)
    by (auto simp: enc_chunk_init_mem_def Let_def elim!: obind_RetE split: prod.split_asm if_split_asm)
  then obtain a where a: "co_data c1 = Some a"
    using o1 enc_init_value(1) by (fastforce simp: owns_chunk_def)
  let ?B = "insert a (hp_live h)" and ?c = "c1\<lparr>co_data := None, co_val := (co_val c1)\<lparr>ck_data := None\<rparr>\<rparr>"
  have a': "a \<notin> hp_live h" "owns_chunk ?B ?c h2"
    using o1 a by (auto simp: owns_chunk_def chunk_blocks_def split: option.splits)
  have "enc_chunk_init_mem W M enc1 ?c to_enc' sz' h2 = Ret (err', enc2, c2, h3)"
    using assms(5) by (simp add: enc_chunk_init_overwrites)
  then have "owns_chunk ?B c2 h3" using enc_init_owns [OF assms(1) a'(2)] assms(6) by auto
  then show ?thesis
    using chunk_free_owns [OF assms(1) o1] chunk_free_owns [OF assms(1), of ?B c2 h3] a a'(1) by auto
qed

text \<open>C36: a sender whose creation fails leaks its limiter; one that is created and freed gives its memory back and leaves
  its socket open.\<close>

theorem sender_leaks_its_socket:
  assumes "heap_ok h" and "fd \<notin> fds"
  shows "if fd < 0 \<or> dst = 0 \<or> ka \<noteq> 0 \<and> \<not> thread_ok
    then \<exists>h' hlim. sender_new_mem fd dst thread_ok ka h fds = Ret (None, h', fds) \<and>
      hlim \<notin> hp_live h \<and> hp_live h' = insert hlim (hp_live h)
    else \<exists>s h1 h2. sender_new_mem fd dst thread_ok ka h fds = Ret (Some s, h1, insert fd fds) \<and>
      sender_free_mem s h1 (insert fd fds) = Ret (h2, insert fd fds) \<and> hp_live h2 = hp_live h"
proof -
  obtain p h1 where p: "alloc h = (p, h1)" by fastforce
  obtain q h2 where q: "alloc h1 = (q, h2)" by fastforce
  note a = alloc_two [OF assms(1) p q]
  have "free (Some p) h2 = Ret (h2\<lparr>hp_live := hp_live h2 - {p}\<rparr>)" using a by (simp add: free_def)
  moreover have "hp_live h2 - {p} = insert q (hp_live h)" using a by auto
  ultimately show ?thesis
    using a p q
    by (auto simp: sender_new_mem_def limiter_new_mem_def sender_free_mem_def limiter_free_mem_def free_def)
qed

subsection \<open>Witnesses\<close>

definition plain_wh_memory :: wh_memory where
  "plain_wh_memory =
     \<lparr>wm_make = (\<lambda>ok reuse h.
        case reuse of
          None \<Rightarrow> if ok then (Some (hp_next h), snd (alloc h)) else (None, h)
        | Some p \<Rightarrow> if ok then (Some p, h) else (None, h\<lparr>hp_live := hp_live h - {p}\<rparr>)),
      wm_free = (\<lambda>p h. Ret (h\<lparr>hp_live := hp_live h - {p}\<rparr>))\<rparr>"

lemma plain_wh_memory_ok: "wh_memory_ok plain_wh_memory"
  by (simp add: wh_memory_ok_def plain_wh_memory_def)

lemma plain_wh_memory_frees: "wh_frees_on_failure plain_wh_memory"
  by (simp add: wh_frees_on_failure_def plain_wh_memory_def)

definition small_heap :: heap where
  "small_heap = \<lparr>hp_live = {0}, hp_next = 5\<rparr>"

lemma small_heap_ok: "heap_ok small_heap"
  by (simp add: heap_ok_def small_heap_def)

text \<open>A transfer of three bytes in blocks of two: the announcement, both packets of the chunk, its emission, the end.\<close>

definition example_ops :: "decoder_op list" where
  "example_ops =
     [Op_read (header_bytes hgap_header_begin) 24,
      Op_read (header_bytes (chunk_header 26 0 [7, 8, 9] 1) @ [9, 0]) 26,
      Op_read (header_bytes (chunk_header 26 0 [7, 8, 9] 0) @ [7, 8]) 26,
      Op_emit [0, 0, 0] 3,
      Op_read (header_bytes hgap_header_end) 24]"

theorem decoder_memory_is_balanced_witness:
  "\<exists>d h1 d' h2 h3. decoder_new_mem small_heap = (d, h1) \<and>
     decoder_ops_mem cyclic plain_wh_memory example_ops d h1 = Ret (d', h2) \<and>
     dec_state (do_val d') = T_STOPPED \<and> chunk_emitted (do_val d') \<and>
     decoder_free_mem plain_wh_memory d' h2 = Ret h3 \<and> hp_live h3 = {0}"
proof -
  have "obind (decoder_ops cyclic example_ops hgap_decoder_new) (\<lambda>v. Ret (dec_state v, chunk_emitted v)) =
      Ret (T_STOPPED, True)"
    by code_simp
  then obtain v where v: "decoder_ops cyclic example_ops hgap_decoder_new = Ret v" "dec_state v = T_STOPPED"
    "chunk_emitted v"
    by (auto elim!: obind_RetE)
  obtain d h1 where d: "decoder_new_mem small_heap = (d :: cyc decoder_obj, h1)" by fastforce
  note run = decoder_memory_is_balanced [OF plain_wh_memory_ok small_heap_ok d, of cyclic example_ops]
  then obtain d' h2 where d': "decoder_ops_mem cyclic plain_wh_memory example_ops d h1 = Ret (d', h2)"
    "do_val d' = v"
    using v(1) by (auto elim!: obind_RetE)
  then obtain h3 where "decoder_free_mem plain_wh_memory d' h2 = Ret h3" "hp_live h3 = {0}"
    using run plain_wh_memory_frees by (auto simp: small_heap_def)
  then show ?thesis using d d' v by blast
qed

theorem reused_chunk_leaks_witness:
  "\<exists>c h1 err enc1 c1 h2 err' enc2 c2 h3 a h'.
     chunk_new_mem small_heap = (c, h1) \<and>
     enc_chunk_init_mem cyclic plain_wh_memory (hgap_encoder_new 26) c [1, 2, 3] 3 h1 = Ret (err, enc1, c1, h2) \<and>
     enc_chunk_init_mem cyclic plain_wh_memory enc1 c1 [4] 1 h2 = Ret (err', enc2, c2, h3) \<and>
     chunk_free_mem plain_wh_memory c2 h3 = Ret h' \<and> a \<noteq> 0 \<and> hp_live h' = {a, 0}"
proof -
  obtain c h1 where c: "chunk_new_mem small_heap = (c :: cyc chunk_obj, h1)" by fastforce
  then have val: "co_val c = hgap_enc_chunk_new" by (auto simp: chunk_new_mem_def Let_def split: prod.splits)
  obtain err enc1 c1 h2 where i: "enc_chunk_init_mem cyclic plain_wh_memory (hgap_encoder_new 26) c [1, 2, 3] 3 h1 =
      Ret (err, enc1, c1, h2)"
    by (cases "enc_chunk_init_mem cyclic plain_wh_memory (hgap_encoder_new 26) c [1, 2, 3] 3 h1")
      (auto simp: enc_chunk_init_mem_def val hgap_enc_chunk_init_def mem_read_def Let_def
        split: prod.splits if_splits)
  obtain err' enc2 c2 h3 where i': "enc_chunk_init_mem cyclic plain_wh_memory enc1 c1 [4] 1 h2 =
      Ret (err', enc2, c2, h3)"
    by (cases "enc_chunk_init_mem cyclic plain_wh_memory enc1 c1 [4] 1 h2")
      (auto simp: enc_chunk_init_mem_def hgap_enc_chunk_init_def mem_read_def Let_def
        split: prod.splits if_splits)
  show ?thesis
    using reused_chunk_leaks [OF plain_wh_memory_ok small_heap_ok c i i'] plain_wh_memory_frees c i i'
    by (fastforce simp: small_heap_def)
qed

theorem sender_leaks_its_socket_witness:
  "\<exists>h' hlim. sender_new_mem 3 0 True 500 small_heap {} = Ret (None, h', {}) \<and>
     hlim \<noteq> 0 \<and> hp_live h' = {hlim, 0}"
  using sender_leaks_its_socket [OF small_heap_ok, of 3 "{}" 0 500 True]
  by (auto simp: small_heap_def)

end
