(* ===== verification/Channel_Test.thy ===== *)
theory Channel_Test
  imports Channel
begin

section \<open>The test of the channel: \<open>src/test/channel_test.c\<close>\<close>

text \<open>
  A producer sends the numbers below \<open>send_amount\<close> through a channel, a consumer checks that they arrive in
  order. An element is the first four bytes of a slot. A failed assertion ends the process. One step is
  one call on the channel or one access to a slot; the single accesses inside the calls are
  interleaved in theory \<open>Channel_Threads\<close>, whose producer and consumer make the same calls.

  \<open>README.md\<close> says of the tests that they "can currently deadlock". This one cannot: it poisons nothing,
  and only the wake-up of a poisoning thread can be lost.
\<close>

subsection \<open>State\<close>

datatype test_producer =
    TP_Start | TP_Loop u32 | TP_Fill u32 u64 | TP_Send u32 u64 | TP_Done

datatype test_consumer =
    TC_Start | TC_Peek u32 | TC_Read u32 u64 | TC_Ack u32 u64 | TC_Exit u32 | TC_Done

record channel_test =
  ct_chan :: "u32 channel"
  ct_producer :: test_producer
  ct_consumer :: test_consumer

subsection \<open>Steps\<close>

definition chan_producer_step :: "u32 \<Rightarrow> channel_test \<Rightarrow> channel_test outcome option" where
  "chan_producer_step send_amount s =
     (let chan = ct_chan s in
      case ct_producer s of
        TP_Start \<Rightarrow> Some (CHK (4 \<le> channel_elt_size chan) (Ret (s\<lparr>ct_producer := TP_Loop 0\<rparr>)))
      | TP_Loop i \<Rightarrow>
          if i < send_amount
          then (case channel_reserve chan of
                  Block \<Rightarrow> None
                | Done None \<Rightarrow> Some Exit
                | Done (Some data) \<Rightarrow> Some (Ret (s\<lparr>ct_producer := TP_Fill i data\<rparr>)))
          else Some (Ret (s\<lparr>ct_producer := TP_Done\<rparr>))
      | TP_Fill i data \<Rightarrow>
          Some (Ret (s\<lparr>ct_chan := slot_write chan data i, ct_producer := TP_Send i data\<rparr>))
      | TP_Send i data \<Rightarrow>
          (case channel_send_reserved chan (Some data) of
             (ok, chan') \<Rightarrow> Some (CHK ok (Ret (s\<lparr>ct_chan := chan', ct_producer := TP_Loop (i + 1)\<rparr>))))
      | TP_Done \<Rightarrow> None)"

text \<open>The value \<open>next\<close> after a successful acknowledgement is \<open>cur + 1\<close>.\<close>

definition chan_consumer_step :: "u32 \<Rightarrow> channel_test \<Rightarrow> channel_test outcome option" where
  "chan_consumer_step send_amount s =
     (let chan = ct_chan s in
      case ct_consumer s of
        TC_Start \<Rightarrow> Some (CHK (4 \<le> channel_elt_size chan) (Ret (s\<lparr>ct_consumer := TC_Peek 0\<rparr>)))
      | TC_Peek nxt \<Rightarrow>
          (case channel_peek chan of
             Block \<Rightarrow> None
           | Done None \<Rightarrow> Some (Ret (s\<lparr>ct_consumer := TC_Exit nxt\<rparr>))
           | Done (Some data) \<Rightarrow> Some (Ret (s\<lparr>ct_consumer := TC_Read nxt data\<rparr>)))
      | TC_Read nxt data \<Rightarrow>
          (let cur = ch_elts chan ! unat data
           in Some (CHK (cur = nxt) (Ret (s\<lparr>ct_consumer := TC_Ack cur data\<rparr>))))
      | TC_Ack cur data \<Rightarrow>
          (case channel_ack chan (Some data) of
             (ok, chan') \<Rightarrow>
               let s' = s\<lparr>ct_chan := chan'\<rparr>
               in Some (Ret (
                 if \<not> ok then s'\<lparr>ct_consumer := TC_Exit cur\<rparr>
                 else if cur + 1 = send_amount then s'\<lparr>ct_consumer := TC_Exit (cur + 1)\<rparr>
                 else s'\<lparr>ct_consumer := TC_Peek (cur + 1)\<rparr>)))
      | TC_Exit nxt \<Rightarrow> Some (CHK (nxt = send_amount) (Ret (s\<lparr>ct_consumer := TC_Done\<rparr>)))
      | TC_Done \<Rightarrow> None)"

inductive channel_test_step :: "u32 \<Rightarrow> channel_test \<Rightarrow> channel_test \<Rightarrow> bool" for n where
  producer_moves: "chan_producer_step n s = Some (Ret t) \<Longrightarrow> channel_test_step n s t"
| consumer_moves: "chan_consumer_step n s = Some (Ret t) \<Longrightarrow> channel_test_step n s t"

text \<open>\<open>test_simple_concurrent\<close> and the calls of \<open>main\<close>: amount, element size and capacity.\<close>

definition test_simple_concurrent :: "u32 \<Rightarrow> u64 \<Rightarrow> u64 \<Rightarrow> channel_test" where
  "test_simple_concurrent junk elt_size capacity =
     \<lparr>ct_chan = channel_new junk elt_size capacity, ct_producer = TP_Start, ct_consumer = TC_Start\<rparr>"

definition channel_test_main :: "(u32 \<times> u64 \<times> u64) list" where
  "channel_test_main =
     [(1 * 1024 * 1024, 4, 1024), (1 * 1024 * 1024, 1500, 1024), (1 * 1024 * 1024, 4, 32),
      (1 * 128 * 1024, 4, 2), (1 * 128 * 1024, 1500, 2)]"

subsection \<open>The invariant\<close>

text \<open>\<open>w\<close> numbers have been sent, \<open>r\<close> received.\<close>

definition test_inv :: "u32 \<Rightarrow> nat \<Rightarrow> nat \<Rightarrow> nat \<Rightarrow> channel_test \<Rightarrow> bool" where
  "test_inv n cap w r s \<longleftrightarrow>
     (let chan = ct_chan s in
      channel_ok chan \<and> \<not> ch_poisoned chan \<and> 4 \<le> ch_elt_size chan \<and> channel_bound chan = cap \<and>
      r \<le> w \<and> w \<le> unat n \<and> channel_items chan = map of_nat [r..<w] \<and>
      (case ct_producer s of
         TP_Start \<Rightarrow> w = 0
       | TP_Loop i \<Rightarrow> unat i = w
       | TP_Fill i data \<Rightarrow> unat i = w \<and> w < unat n \<and> data = ch_wr_idx chan \<and> w - r < cap
       | TP_Send i data \<Rightarrow> unat i = w \<and> w < unat n \<and> data = ch_wr_idx chan \<and> w - r < cap \<and>
           ch_elts chan ! unat data = i
       | TP_Done \<Rightarrow> w = unat n) \<and>
      (case ct_consumer s of
         TC_Start \<Rightarrow> r = 0
       | TC_Peek nxt \<Rightarrow> unat nxt = r \<and> r < unat n
       | TC_Read nxt data \<Rightarrow> unat nxt = r \<and> data = ch_rd_idx chan \<and> r < w
       | TC_Ack cur data \<Rightarrow> unat cur = r \<and> data = ch_rd_idx chan \<and> r < w
       | TC_Exit nxt \<Rightarrow> nxt = n \<and> r = unat n
       | TC_Done \<Rightarrow> r = unat n))"

primrec test_producer_rank :: "test_producer \<Rightarrow> nat" where
  "test_producer_rank TP_Start = 0"
| "test_producer_rank (TP_Loop i) = 1"
| "test_producer_rank (TP_Fill i data) = 2"
| "test_producer_rank (TP_Send i data) = 3"
| "test_producer_rank TP_Done = 2"

primrec test_consumer_rank :: "test_consumer \<Rightarrow> nat" where
  "test_consumer_rank TC_Start = 0"
| "test_consumer_rank (TC_Peek nxt) = 1"
| "test_consumer_rank (TC_Read nxt data) = 2"
| "test_consumer_rank (TC_Ack cur data) = 3"
| "test_consumer_rank (TC_Exit nxt) = 1"
| "test_consumer_rank TC_Done = 2"

definition test_progress :: "nat \<Rightarrow> nat \<Rightarrow> channel_test \<Rightarrow> nat" where
  "test_progress w r s =
     3 * w + test_producer_rank (ct_producer s) + (3 * r + test_consumer_rank (ct_consumer s))"

lemma unat_next: "unat (i :: u32) < unat (n :: u32) \<Longrightarrow> unat (i + 1) = unat i + 1"
  using unsigned_less [of n, where 'a = nat] by (simp add: unat_word_ariths)

lemma test_producer_moves:
  assumes inv: "test_inv n cap w r s" and step: "chan_producer_step n s = Some x"
  shows "\<exists>t w'. x = Ret t \<and> test_inv n cap w' r t \<and> test_progress w' r t = Suc (test_progress w r s)"
proof -
  let ?c = "ct_chan s"
  have c: "channel_ok ?c" "\<not> ch_poisoned ?c" "4 \<le> ch_elt_size ?c" "channel_bound ?c = cap"
    "r \<le> w" "w \<le> unat n" "channel_items ?c = map of_nat [r..<w]"
    using inv by (simp_all add: test_inv_def Let_def)
  show ?thesis
  proof (cases "ct_producer s")
    case TP_Start
    then show ?thesis
      using inv step c
      by (intro exI [of _ "s\<lparr>ct_producer := TP_Loop 0\<rparr>"] exI [of _ w])
        (auto simp: chan_producer_step_def test_inv_def test_progress_def channel_elt_size_def Let_def
          split: test_consumer.splits)
  next
    case (TP_Loop i)
    then have i: "unat i = w" using inv by (simp add: test_inv_def Let_def)
    show ?thesis
    proof (cases "i < n")
      case True
      then show ?thesis
        using inv step c TP_Loop i channel_reserve_eq [OF c(1,2)]
        by (intro exI [of _ "s\<lparr>ct_producer := TP_Fill i (ch_wr_idx ?c)\<rparr>"] exI [of _ w])
          (auto simp: chan_producer_step_def test_inv_def test_progress_def Let_def word_less_nat_alt
            split: if_splits)
    next
      case False
      then show ?thesis
        using inv step c TP_Loop i
        by (intro exI [of _ "s\<lparr>ct_producer := TP_Done\<rparr>"] exI [of _ w])
          (auto simp: chan_producer_step_def test_inv_def test_progress_def Let_def word_less_nat_alt)
    qed
  next
    case (TP_Fill i data)
    let ?t = "s\<lparr>ct_chan := slot_write ?c data i, ct_producer := TP_Send i data\<rparr>"
    have d: "data = ch_wr_idx ?c" using inv TP_Fill by (simp add: test_inv_def Let_def)
    have "ch_rd_idx (slot_write ?c data i) = ch_rd_idx ?c" by simp
    then show ?thesis
      using inv step c TP_Fill slot_write_reserved [OF c(1), of i] slot_write_nth [OF c(1), of i]
      by (intro exI [of _ ?t] exI [of _ w])
        (auto simp: chan_producer_step_def test_inv_def test_progress_def Let_def d
          split: test_consumer.splits)
  next
    case (TP_Send i data)
    let ?t = "s\<lparr>ct_chan := advance_wr ?c, ct_producer := TP_Loop (i + 1)\<rparr>"
    have d: "data = ch_wr_idx ?c" "unat i = w" "w < unat n" "ch_elts ?c ! unat data = i" "w - r < cap"
      using inv TP_Send by (auto simp: test_inv_def Let_def)
    have "i = of_nat w" using d(2) by auto
    then have "channel_items (advance_wr ?c) = map of_nat [r..<Suc w]"
      using advance_wr_items [OF c(1)] c(4,5,7) d by simp
    then show ?thesis
      using inv step c TP_Send d send_reserved_eq [OF c(1,2)] unat_next [of i n]
      by (intro exI [of _ ?t] exI [of _ "Suc w"])
        (auto simp: chan_producer_step_def test_inv_def test_progress_def Let_def split: test_consumer.splits)
  next
    case TP_Done
    then show ?thesis using step by (simp add: chan_producer_step_def)
  qed
qed

lemma test_consumer_moves:
  assumes inv: "test_inv n cap w r s" and n: "0 < unat n" and step: "chan_consumer_step n s = Some x"
  shows "\<exists>t r'. x = Ret t \<and> test_inv n cap w r' t \<and> test_progress w r' t = Suc (test_progress w r s)"
proof -
  let ?c = "ct_chan s"
  have c: "channel_ok ?c" "\<not> ch_poisoned ?c" "4 \<le> ch_elt_size ?c" "channel_bound ?c = cap"
    "r \<le> w" "w \<le> unat n" "channel_items ?c = map of_nat [r..<w]"
    using inv by (simp_all add: test_inv_def Let_def)
  have first: "ch_elts ?c ! unat (ch_rd_idx ?c) = of_nat r" "channel_items (advance_rd ?c) = map of_nat [Suc r..<w]"
    if "r < w"
  proof -
    have "channel_items ?c = of_nat r # map of_nat [Suc r..<w]" using c(7) that by (simp add: upt_conv_Cons)
    from channel_read_item [OF c(1) this]
    show "ch_elts ?c ! unat (ch_rd_idx ?c) = of_nat r" "channel_items (advance_rd ?c) = map of_nat [Suc r..<w]" .
  qed
  show ?thesis
  proof (cases "ct_consumer s")
    case TC_Start
    then show ?thesis
      using inv step c n
      by (intro exI [of _ "s\<lparr>ct_consumer := TC_Peek 0\<rparr>"] exI [of _ r])
        (auto simp: chan_consumer_step_def test_inv_def test_progress_def channel_elt_size_def Let_def
          split: test_producer.splits)
  next
    case (TC_Peek nxt)
    have "channel_items ?c = [] \<longleftrightarrow> w \<le> r" using c(7) by auto
    then show ?thesis
      using inv step c TC_Peek channel_peek_eq [OF c(1,2)]
      by (intro exI [of _ "s\<lparr>ct_consumer := TC_Read nxt (ch_rd_idx ?c)\<rparr>"] exI [of _ r])
        (auto simp: chan_consumer_step_def test_inv_def test_progress_def Let_def split: if_splits)
  next
    case (TC_Read nxt data)
    then have d: "data = ch_rd_idx ?c" "unat nxt = r" "r < w" using inv by (simp_all add: test_inv_def Let_def)
    then have "ch_elts ?c ! unat data = nxt" using first(1) by auto
    then show ?thesis
      using inv step c TC_Read
      by (intro exI [of _ "s\<lparr>ct_consumer := TC_Ack nxt data\<rparr>"] exI [of _ r])
        (auto simp: chan_consumer_step_def test_inv_def test_progress_def Let_def
          split: test_producer.splits)
  next
    case (TC_Ack cur data)
    then have d: "data = ch_rd_idx ?c" "unat cur = r" "r < w" using inv by (simp_all add: test_inv_def Let_def)
    then have nx: "unat (cur + 1) = Suc r" using unat_next [of cur n] c(6) by simp
    let ?t = "s\<lparr>ct_chan := advance_rd ?c,
      ct_consumer := if cur + 1 = n then TC_Exit (cur + 1) else TC_Peek (cur + 1)\<rparr>"
    have items: "channel_items ?c \<noteq> []" using c(7) d by auto
    have "cur + 1 = n \<longleftrightarrow> Suc r = unat n" using nx by (auto simp: word_unat_eq_iff)
    moreover have "x = Ret ?t"
      using step items by (auto simp: chan_consumer_step_def Let_def TC_Ack d(1) ack_eq [OF c(1,2)])
    ultimately show ?thesis
      using inv c(3-6) TC_Ack d nx first(2)
      by (intro exI [of _ ?t] exI [of _ "Suc r"])
        (auto simp: test_inv_def test_progress_def Let_def split: test_producer.splits)
  next
    case (TC_Exit nxt)
    then show ?thesis
      using inv step c
      by (intro exI [of _ "s\<lparr>ct_consumer := TC_Done\<rparr>"] exI [of _ r])
        (auto simp: chan_consumer_step_def test_inv_def test_progress_def Let_def
          split: test_producer.splits)
  next
    case TC_Done
    then show ?thesis using step by (simp add: chan_consumer_step_def)
  qed
qed

lemma test_init_inv:
  assumes "0 < unat n" "4 \<le> unat elt_size" "unat elt_size * Suc (unat capacity) < 2 ^ 64"
  shows "test_inv n (unat capacity) 0 0 (test_simple_concurrent junk elt_size capacity)"
proof -
  have "0 < unat elt_size" using assms(2) by simp
  from channel_ok_new [OF this assms(3), of junk] show ?thesis
    using assms(2)
    by (simp add: test_inv_def test_simple_concurrent_def Let_def channel_new_def word_le_nat_alt)
qed

lemma test_run:
  assumes "0 < unat n" "test_inv n cap w r s" "(channel_test_step n ^^ k) s t"
  shows "\<exists>w' r'. test_inv n cap w' r' t \<and> test_progress w' r' t = test_progress w r s + k"
  using assms(3)
proof (induction k arbitrary: t)
  case 0
  then show ?case using assms(2) by auto
next
  case (Suc k)
  from Suc.prems obtain u where u: "(channel_test_step n ^^ k) s u" "channel_test_step n u t" by auto
  from Suc.IH [OF u(1)] obtain w' r' where i: "test_inv n cap w' r' u"
    "test_progress w' r' u = test_progress w r s + k"
    by blast
  from u(2) show ?case
  proof cases
    case producer_moves
    then show ?thesis using test_producer_moves [OF i(1)] i(2) by fastforce
  next
    case consumer_moves
    then show ?thesis using test_consumer_moves [OF i(1) assms(1)] i(2) by fastforce
  qed
qed

lemma test_progress_bound: "test_inv n cap w r s \<Longrightarrow> test_progress w r s \<le> 6 * unat n + 4"
  by (cases "ct_producer s"; cases "ct_consumer s") (auto simp: test_inv_def test_progress_def Let_def)

lemma test_stuck:
  assumes inv: "test_inv n cap w r s" and cap: "0 < cap"
    and stuck: "chan_producer_step n s = None" "chan_consumer_step n s = None"
  shows "ct_producer s = TP_Done \<and> ct_consumer s = TC_Done"
proof -
  let ?c = "ct_chan s"
  have c: "channel_ok ?c" "\<not> ch_poisoned ?c" "channel_bound ?c = cap" "r \<le> w" "w \<le> unat n"
    "channel_items ?c = map of_nat [r..<w]"
    using inv by (simp_all add: test_inv_def Let_def)
  have consumer: "ct_consumer s = TC_Done \<or> (\<exists>nxt. ct_consumer s = TC_Peek nxt \<and> r = w \<and> w < unat n)"
    using stuck(2) channel_peek_eq [OF c(1,2)] inv c(4)
    by (cases "ct_consumer s")
      (auto simp: chan_consumer_step_def Let_def c(6) test_inv_def split: if_splits prod.splits)
  have "ct_producer s = TP_Done \<or> (\<exists>i. ct_producer s = TP_Loop i \<and> w - r = cap \<and> w < unat n)"
    using stuck(1) channel_reserve_eq [OF c(1,2)] inv channel_items_bound [OF c(1)] c(3,6)
    by (cases "ct_producer s")
      (auto simp: chan_producer_step_def Let_def test_inv_def word_less_nat_alt split: if_splits prod.splits)
  with consumer cap show ?thesis
    using inv c(4) by (auto simp: test_inv_def Let_def)
qed

subsection \<open>Properties\<close>

text \<open>C15: the test of the channel passes in every interleaving of its calls on the channel, each one step: no
  assertion fails, every step that can be
  taken returns, there are at most \<open>6 n + 4\<close> of them, and when none can be taken both threads have ended.\<close>

theorem channel_test_passes:
  assumes "0 < unat n" and "4 \<le> unat elt_size" and "0 < unat capacity"
    and "unat elt_size * Suc (unat capacity) < 2 ^ 64"
    and "(channel_test_step n ^^ k) (test_simple_concurrent junk elt_size capacity) s"
  shows "k \<le> 6 * unat n + 4 \<and>
    (\<forall>x. chan_producer_step n s = Some x \<or> chan_consumer_step n s = Some x \<longrightarrow> (\<exists>t. x = Ret t)) \<and>
    ((\<nexists>t. channel_test_step n s t) \<longrightarrow> ct_producer s = TP_Done \<and> ct_consumer s = TC_Done)"
proof -
  note init = test_init_inv [OF assms(1,2,4)]
  obtain w r where i: "test_inv n (unat capacity) w r s"
    and k: "test_progress w r s = test_progress 0 0 (test_simple_concurrent junk elt_size capacity) + k"
    using test_run [OF assms(1) init assms(5)] by blast
  have ret: "\<exists>t. x = Ret t" if "chan_producer_step n s = Some x \<or> chan_consumer_step n s = Some x" for x
    using that test_producer_moves [OF i] test_consumer_moves [OF i assms(1)] by blast
  have "ct_producer s = TP_Done \<and> ct_consumer s = TC_Done" if "\<nexists>t. channel_test_step n s t"
    using that ret
    by (intro test_stuck [OF i assms(3)]) (metis option.exhaust channel_test_step.intros)+
  then show ?thesis using ret k test_progress_bound [OF i] by auto
qed

text \<open>The calls of \<open>main\<close>: each can be run until it stops, and then it has passed.\<close>

theorem channel_test_passes_witness:
  "list_all (\<lambda>(n, elt_size, capacity).
     \<exists>s. (channel_test_step n)\<^sup>*\<^sup>* (test_simple_concurrent 0 elt_size capacity) s \<and>
       ct_producer s = TP_Done \<and> ct_consumer s = TC_Done) channel_test_main"
proof -
  have "\<exists>s. (channel_test_step n)\<^sup>*\<^sup>* (test_simple_concurrent 0 elt_size capacity) s \<and>
      ct_producer s = TP_Done \<and> ct_consumer s = TC_Done"
    if "0 < unat n" "4 \<le> unat elt_size" "0 < unat capacity" "unat elt_size * Suc (unat capacity) < 2 ^ 64"
    for n elt_size capacity
  proof -
    note pass = channel_test_passes [OF that, of _ 0]
    obtain s where s: "(channel_test_step n)\<^sup>*\<^sup>* (test_simple_concurrent 0 elt_size capacity) s"
      "\<nexists>t. channel_test_step n s t"
      using bounded_runs_stop [of "channel_test_step n"] pass by blast
    then obtain k where "(channel_test_step n ^^ k) (test_simple_concurrent 0 elt_size capacity) s"
      by (auto dest: rtranclp_imp_relpowp)
    from pass [OF this] s show ?thesis by blast
  qed
  then show ?thesis by (simp add: channel_test_main_def)
qed

end
