(* ===== verification/Config_Test.thy ===== *)
theory Config_Test
  imports Config
begin

section \<open>The tests of the configuration: \<open>src/test/hgap_test.c\<close>\<close>

text \<open>
  The two functions that test the checks, assertion by assertion; a failed one ends the process.
  The output of \<open>hgap_config_dump\<close> in the first is left out.
\<close>

definition test_check_config_sender ::
  "(string \<Rightarrow> bool) \<Rightarrow> ('f \<Rightarrow> bool) \<Rightarrow> 'f \<Rightarrow> 'f \<Rightarrow> 'f hgap_config \<Rightarrow> unit outcome" where
  "test_check_config_sender resolves ferror stdin stdout junk =
     (case hgap_defaults stdin stdout (Some junk) of
        (_, None) \<Rightarrow> Undef
      | (_, Some config) \<Rightarrow>
          let check = hgap_check_config_sender resolves ferror in
          CHK (check config = HGAP_ERR_INVALID_ADDR)
          (let config = config\<lparr>addr := Some ''impossibru !''\<rparr> in
           CHK (check config = HGAP_ERR_INVALID_ADDR)
          (let config = config\<lparr>addr := Some ''localhost''\<rparr> in
           CHK (check config = HGAP_SUCCESS)
          (let config = config\<lparr>addr := Some ''127.0.0.1''\<rparr> in
           CHK (check config = HGAP_SUCCESS)
          (let config = config\<lparr>pkt_size := 1\<rparr> in
           CHK (check config = HGAP_ERR_MTU_TOO_SMALL)
          (let config = config\<lparr>pkt_size := HGAP_MAX_PKT_SIZE + 1\<rparr> in
           CHK (check config = HGAP_ERR_MTU_TOO_BIG)
          (let config = config\<lparr>pkt_size := 1400, cfg_in := None\<rparr> in
           CHK (check config = HGAP_ERR_BAD_IN_FD)
          (let config = config\<lparr>cfg_in := Some stdin, n_pkt := 0\<rparr> in
           CHK (check config = HGAP_ERR_BAD_N_PKT)
          (CHK (check (config\<lparr>n_pkt := 0\<rparr>) = HGAP_ERR_BAD_N_PKT)
          (let config = config\<lparr>n_pkt := 1000, redund := Fin (1 / 2)\<rparr> in
           CHK (check config = HGAP_ERR_BAD_REDUND) (Ret ())))))))))))"

definition test_check_config_receiver ::
  "(string \<Rightarrow> bool) \<Rightarrow> ('f \<Rightarrow> bool) \<Rightarrow> 'f \<Rightarrow> 'f \<Rightarrow> 'f hgap_config \<Rightarrow> unit outcome" where
  "test_check_config_receiver resolves ferror stdin stdout junk =
     (case hgap_defaults stdin stdout (Some junk) of
        (_, None) \<Rightarrow> Undef
      | (_, Some config) \<Rightarrow>
          let check = hgap_check_config_receiver resolves ferror in
          CHK (check config = HGAP_ERR_INVALID_ADDR)
          (let config = config\<lparr>addr := Some ''impossibru !''\<rparr> in
           CHK (check config = HGAP_ERR_INVALID_ADDR)
          (let config = config\<lparr>addr := Some ''localhost''\<rparr> in
           CHK (check config = HGAP_SUCCESS)
          (let config = config\<lparr>addr := Some ''127.0.0.1''\<rparr> in
           CHK (check config = HGAP_SUCCESS)
          (let config = config\<lparr>cfg_out := None\<rparr> in
           CHK (check config = HGAP_ERR_BAD_OUT_FD) (Ret ()))))))"

subsection \<open>Properties\<close>

text \<open>The tests pass exactly on a system that resolves the two addresses of the host and not the impossible one,
  with files that are not in an error state.\<close>

theorem config_tests_pass:
  "(test_check_config_sender resolves ferror stdin stdout junk = Ret () \<longleftrightarrow>
      resolves ''localhost'' \<and> resolves ''127.0.0.1'' \<and> \<not> resolves ''impossibru !'' \<and> \<not> ferror stdin) \<and>
   (test_check_config_receiver resolves ferror stdin stdout junk = Ret () \<longleftrightarrow>
      resolves ''localhost'' \<and> resolves ''127.0.0.1'' \<and> \<not> resolves ''impossibru !'' \<and> \<not> ferror stdout)"
proof -
  have ge: "\<not> fround (6 / 5) < 1" by code_simp
  have n: "\<not> HGAP_MAX_N_PKT < 1000" by (simp add: HGAP_MAX_N_PKT_def)
  note check_defs = hgap_defaults_def hgap_check_config_sender_def hgap_check_config_receiver_def Let_def
    CHK_def check_addr_def check_file_def HGAP_HEADER_LEN_def HGAP_MAX_PKT_SIZE_def
  show ?thesis
    by (auto simp: test_check_config_sender_def test_check_config_receiver_def check_defs ge n)
qed

end
