(* ===== verification/Spec2Isabelle.thy ===== *)
theory Spec2Isabelle
  imports Transfer_System Channel_Threads Programs Printing Limiter_Threads Memory Channel_Test Config_Test
begin

text \<open>
  Hairgap transfers a stream of bytes over a unidirectional network. The sender cuts its input into
  chunks, encodes each with an error correcting code (wirehair) and sends its packets over
  UDP, more of them than needed by a factor, the redundancy; the receiver puts each chunk
  together from the packets that arrive. This development models the C library under
  \<open>src/lib\<close> and proves what makes it work, and where it does not.

  \<^bold>\<open>Parts and theories.\<close>

  \<^item> \<open>Prelude\<close>: machine words, byte strings, memory accesses and the outcomes of a C call
    (\<open>Ret\<close>; \<open>Exit\<close> of the process; \<open>Undef\<close>, undefined behaviour; \<open>Loop\<close>, no return), and the interfaces
    \<open>byte_codec\<close> and \<open>transition_system\<close>.
  \<^item> \<open>Double\<close>: binary64 as rationals with the rounding written out, infinities and NaN.
  \<^item> \<open>Errors\<close> (\<open>hairgap.h\<close>, \<open>error.c\<close>): result codes, messages, \<open>HGAP_SELECT_ERROR\<close>.
  \<^item> \<open>Proto\<close> (\<open>proto.c\<close>): the packet header, parsing and packet types.
  \<^item> \<open>Channel\<close> (\<open>channel.c\<close>): the ring buffer between two threads, one call at a time; the contract
    \<open>bounded_fifo\<close>, and all operations as a refinement of a bounded queue (\<open>client_call\<close>, \<open>queue_call\<close>).
  \<^item> \<open>Channel_Threads\<close> (\<open>channel.c\<close>): the same operations cut into steps on the shared fields, with a
    producer, a consumer and a poisoning thread interleaved in every way.
  \<^item> \<open>Wirehair\<close>: the interface to the code, a git submodule that is not part of the repository; a record
    of functions, the documented behaviour the code relies on as hypotheses (\<open>wh_block_size\<close>,
    \<open>wh_sound\<close>), and an instance that shows they can hold.
  \<^item> \<open>Encoder\<close>, \<open>Decoder\<close>, \<open>Reassembly\<close> (\<open>encoding.c\<close>): chunks and their packets; the decoder's
    protocol automaton and packet handling; a chunk from its first packet to the message.
  \<^item> \<open>Limiter\<close>, \<open>Sender\<close> (\<open>limiter.c\<close>, \<open>sender.c\<close>): rate limit, datagrams, salves, keepalives.
  \<^item> \<open>Config\<close> (\<open>config.c\<close>): defaults and checks of a configuration.
  \<^item> \<open>SendLoop\<close> (\<open>hgap_send.c\<close>), \<open>ReceiveLoop\<close> (\<open>hgap_receive.c\<close>): the three threads on either side.
  \<^item> \<open>End_To_End\<close>: both sides composed over a network that loses, repeats and reorders; the threads of a side
    one after the other, over queues without bound.
  \<^item> \<open>Send_System\<close>: the sender's three threads interleaved over two channels, as \<open>hgap_send\<close> starts them.
  \<^item> \<open>Receive_System\<close>: the receiver's three threads likewise, with the socket, as \<open>hgap_receive\<close> starts them.
  \<^item> \<open>Transfer_System\<close>: both programs, the sender's keepalive thread and the network between them at once.
  \<^item> \<open>Limiter_Threads\<close>: the limiter shared, without a lock, by the sending and the keepalive thread.
  \<^item> \<open>Memory\<close>: the same constructors, operations and destructors with the heap blocks they own.
  \<^item> \<open>Numbers\<close>, \<open>Command_Line\<close> (\<open>hairgaps.c\<close>, \<open>hairgapr.c\<close>): what the programs use of the C library to read
    numbers, \<open>getopt\<close>, and the two \<open>main\<close>; the interface \<open>option_loop\<close>.
  \<^item> \<open>Programs\<close>: the \<open>main\<close> functions with \<open>hgap_send\<close> and \<open>hgap_receive\<close> under them, whose threads are those of
    \<open>Transfer_System\<close>.
  \<^item> \<open>Printing\<close> (\<open>common.c\<close>, \<open>common.h\<close>, \<open>config.c\<close>): dumps and error reports.
  \<^item> \<open>Channel_Test\<close> (\<open>channel_test.c\<close>), \<open>Config_Test\<close> (\<open>hgap_test.c\<close>): the tests of the repository, run in the model.

  \<^bold>\<open>How state corresponds.\<close> C structs are records with their fields, enumerations datatypes,
  integers words of their width. A pointer into a buffer is the list of bytes from there to the end of its
  object, so that a read past the object is \<open>Undef\<close>. The clock, \<open>sendto\<close>, \<open>recvfrom\<close>, \<open>read\<close>, \<open>write\<close>,
  address resolution and thread creation are parameters or lists of results, one per call.
  A thread is a function of what its channel operations gave it; a list that ends
  early is a thread that still waits. In \<open>Send_System\<close> and \<open>Receive_System\<close> the threads share the channels of \<open>Channel\<close> instead and
  a step of a thread is one operation on them.

  \<^bold>\<open>What is shown.\<close> The transfer restores the input for every accepted configuration with a
  redundancy of at most \<open>2 ^ 20\<close> and room for a packet in the receiver's memory limit, when an
  announcement, enough packets of each chunk, chunk by chunk, and an end packet arrive: for the
  threads one after the other, for each side's threads interleaved over their channels, for both
  sides at once with the keepalive thread, and from the two command lines to the written file.
  Below it: the channel answers every sequence of calls as a bounded queue does; its threads
  exclude each other in the locked parts, deliver in order and, without poison, never deadlock, and its
  test passes; headers round-trip; datagrams on the wire are well formed; the decoder
  keeps its invariant, follows its automaton, is memory-safe on packets that carry what they
  announce and are not shorter than their chunk's, puts a chunk together into the message, frees only what is
  allocated, and gives all its memory back as far as wirehair does; the emission loop ends and its number
  of packets is bounded; the limiter keeps the rate and returns; options round-trip through the command line. Where the code does
  something else than it means to, a theorem shows it: a lost
  tail that ends in success, a packet read past its end, packets too long for the receiver's slots, loops that never
  end, a lost wake-up, lost updates of the limiter, a null pointer dereferenced, a missing argument used, a
  leaked socket, a reader that waits for ever when the encoder failed,
  a decoder that waits for ever when a write failed, an error that ends the process.

  \<^bold>\<open>Loops.\<close> Loops whose end is not structural are \<open>partial_function (option)\<close> (the emission
  loop, the limiter's wait); \<open>None\<close> is the loop that never ends, and both its ending and its not ending
  are theorems. \<open>read_chunk_loop\<close> has a termination proof.
  Bounds in hypotheses: a redundancy of at most \<open>2 ^ 20\<close> keeps all
  counts below \<open>2 ^ 53\<close>, where \<open>double\<close> is exact; fewer chunks than reserved numbers.

  \<^bold>\<open>Memory model and granularity.\<close> Memory is sequentially consistent. In \<open>Channel_Threads\<close> and
  \<open>Limiter_Threads\<close> a step is a test, an update or a group of reads that each theory lists; in the other systems it is
  one call on a channel, and a chunk or a salve that the sender sends is one step. \<open>Send_System\<close> has the three
  threads of \<open>hgap_send\<close> without the keepalive thread, which \<open>Transfer_System\<close> adds. No timeout
  of \<open>recvfrom\<close> occurs in \<open>Transfer_System\<close>.

  \<^bold>\<open>Not modelled.\<close> Output only: \<open>hgap_dump\<close> and the logging macros, and the \<open>INFO\<close> lines of the programs. Wirehair, which is
  not in the repository. The transfer in \<open>hgap_test.c\<close>, whose parts are those of \<open>Transfer_System\<close>,
  and the shell tests and build files. The assumptions the compiler may make under \<open>-Ofast\<close>:
  the arithmetic is that of binary64, exponents without bounds where
  the numbers cannot be extreme (\<open>fround\<close>) and with them where users type them (\<open>ieee_round\<close>). Header files
  without code of their own (\<open>channel.h\<close>, \<open>sender.h\<close>, \<open>limiter.h\<close>, the prototypes of \<open>encoding.h\<close>).
\<close>

end
